(* ===== verification/Prelude.thy ===== *)
theory Prelude
  imports
    Main
    "HOL-Library.Word"
    "HOL-Library.AList"
    "HOL-Library.List_Lexorder"
    "HOL-Library.Char_ord"
begin

text \<open>
  Shared vocabulary of the development: bytes, Go errors and their wrapping
  (\<^verbatim>\<open>errors.Is\<close>, \<^verbatim>\<open>errors.Join\<close>, \<^verbatim>\<open>fmt.Errorf\<close> with \<^verbatim>\<open>%w\<close>), fallible computations as sums,
  Go slice expressions with their bounds check, Go maps as association lists,
  and the generic lemmas on lists that the components use.
\<close>

unbundle bit_operations_syntax

type_synonym byte = "8 word"
type_synonym bytes = "byte list"
type_synonym path = string

section \<open>Errors\<close>

text \<open>
  The first twelve constructors are the sentinel errors of \<^verbatim>\<open>store.go\<close>. The
  next group are the errors of the standard library that the code returns or
  tests for; \<open>IOError\<close> is any other error of the operating system. \<open>Panic\<close>
  is a Go run-time panic (a slice expression out of range). \<open>Errorf\<close> is a
  formatted error that wraps nothing, \<open>Wrap\<close> one that wraps the listed errors
  (\<^verbatim>\<open>%w\<close> or \<^verbatim>\<open>errors.Join\<close>). The string is the constant part of the format.
\<close>

datatype error =
    ErrStoreClosed | ErrStoreLocked | ErrCorruptedData | ErrUnsupportedVersion
  | ErrUnsupportedFeature | ErrReadOnly | ErrCompactionInProgress | ErrKeyNotFound
  | ErrInvalidKey | ErrInvalidAttribute | ErrValueTooLarge | ErrAttributesTooLarge
  | EOF | ErrUnexpectedEOF | ErrNotExist | ErrUnsupported | ErrWouldBlock | IOError
  | Panic
  | Errorf string
  | Wrap string "error list"

text \<open>\<^verbatim>\<open>errors.Is\<close>: the error itself or anything it wraps.\<close>

fun errors_Is :: "error \<Rightarrow> error \<Rightarrow> bool" where
  "errors_Is (Wrap msg es) target \<longleftrightarrow> Wrap msg es = target \<or> (\<exists>e \<in> set es. errors_Is e target)"
| "errors_Is e target \<longleftrightarrow> e = target"

lemma errors_Is_refl [simp]: "errors_Is e e"
  by (cases e) auto

text \<open>\<^verbatim>\<open>errors.Join\<close>: nil when every argument is nil, else an error that wraps the others.\<close>

definition errors_Join :: "(error + unit) list \<Rightarrow> error + unit" where
  "errors_Join rs = (let es = concat (map (\<lambda>r. case r of Inl e \<Rightarrow> [e] | Inr _ \<Rightarrow> []) rs) in
     if es = [] then Inr () else Inl (Wrap ''joined'' es))"

section \<open>Fallible computations\<close>

text \<open>
  A Go function that returns a value and an \<^verbatim>\<open>error\<close> returns a sum here:
  \<open>Inl\<close> is the error. \<open>bindE m f\<close> is the \<^verbatim>\<open>if err != nil { return err }\<close>
  that follows a call.
\<close>

definition bindE :: "error + 'a \<Rightarrow> ('a \<Rightarrow> error + 'b) \<Rightarrow> error + 'b" where
  "bindE m f = (case m of Inl e \<Rightarrow> Inl e | Inr x \<Rightarrow> f x)"

definition guardE :: "bool \<Rightarrow> error \<Rightarrow> error + unit" where
  "guardE bad e = (if bad then Inl e else Inr ())"

lemma bindE_simps [simp]:
  "bindE (Inl e) f = Inl e"
  "bindE (Inr x) f = f x"
  by (simp_all add: bindE_def)

lemma bindE_Inr_iff: "bindE m f = Inr y \<longleftrightarrow> (\<exists>x. m = Inr x \<and> f x = Inr y)"
  by (cases m) simp_all

lemma bindE_Inl_iff: "bindE m f = Inl e \<longleftrightarrow> m = Inl e \<or> (\<exists>x. m = Inr x \<and> f x = Inl e)"
  by (cases m) simp_all

lemma guardE_simps [simp]:
  "guardE True e = Inl e"
  "guardE False e = Inr ()"
  by (simp_all add: guardE_def)

lemma guardE_Inr_iff [simp]: "guardE b e = Inr u \<longleftrightarrow> \<not> b"
  by (simp add: guardE_def)

lemma guardE_Inl_iff: "guardE b e = Inl e' \<longleftrightarrow> b \<and> e' = e"
  by (auto simp: guardE_def)

text \<open>
  The splitting lemmas a proof about a chain of calls needs, collected as
  \<open>bindE_iffs\<close>.
\<close>

named_theorems bindE_iffs \<open>inversion of chains of fallible calls\<close>

declare bindE_Inr_iff [bindE_iffs] bindE_Inl_iff [bindE_iffs] guardE_Inl_iff [bindE_iffs]

section \<open>Slices\<close>

text \<open>The slice expression \<^verbatim>\<open>b[i:j]\<close>, which panics when it is out of range.\<close>

definition go_slice :: "'a list \<Rightarrow> nat \<Rightarrow> nat \<Rightarrow> error + 'a list" where
  "go_slice b i j = (if i \<le> j \<and> j \<le> length b then Inr (take (j - i) (drop i b)) else Inl Panic)"

lemma go_slice_ok: "i \<le> j \<Longrightarrow> j \<le> length b \<Longrightarrow> go_slice b i j = Inr (take (j - i) (drop i b))"
  by (simp add: go_slice_def)

lemma go_slice_Inr_iff:
  "go_slice b i j = Inr s \<longleftrightarrow> i \<le> j \<and> j \<le> length b \<and> s = take (j - i) (drop i b)"
  by (auto simp: go_slice_def)

lemma go_slice_Inl_iff:
  "go_slice b i j = Inl e \<longleftrightarrow> \<not> (i \<le> j \<and> j \<le> length b) \<and> e = Panic"
  by (auto simp: go_slice_def)

text \<open>
  Overwriting part of a buffer: \<^verbatim>\<open>copy(b[i:], s)\<close> where \<open>s\<close> fits.
\<close>

definition overwrite :: "'a list \<Rightarrow> nat \<Rightarrow> 'a list \<Rightarrow> 'a list" where
  "overwrite b i s = take i b @ s @ drop (i + length s) b"

lemma length_overwrite [simp]: "i + length s \<le> length b \<Longrightarrow> length (overwrite b i s) = length b"
  by (simp add: overwrite_def)

lemma take_overwrite_eq:
  "i \<le> length b \<Longrightarrow> j = i + length s \<Longrightarrow> take j (overwrite b i s) = take i b @ s"
  by (simp add: overwrite_def)

lemma take_overwrite_before: "j \<le> i \<Longrightarrow> i \<le> length b \<Longrightarrow> take j (overwrite b i s) = take j b"
  by (simp add: overwrite_def)

section \<open>Go maps\<close>

text \<open>
  A Go map is an association list with distinct keys; the order of the list is
  the order in which a \<^verbatim>\<open>range\<close> loop visits the map. Go leaves that order
  open, so a theorem that holds for every list holds for every order. The
  operations are those of \<open>HOL-Library.AList\<close> (\<open>map_of\<close>, \<open>AList.update\<close>,
  \<open>AList.delete\<close>). The nil map and the empty map are both the empty list.
\<close>

type_synonym attributes = "(string \<times> string) list"

abbreviation go_map :: "('k \<times> 'v) list \<Rightarrow> bool" where
  "go_map m \<equiv> distinct (map fst m)"

text \<open>The expression \<^verbatim>\<open>m[k]\<close> on a map of strings: the zero value when absent.\<close>

definition attr_get :: "attributes \<Rightarrow> string \<Rightarrow> string" where
  "attr_get m k = (case map_of m k of None \<Rightarrow> [] | Some v \<Rightarrow> v)"

lemma go_map_update [simp]: "go_map m \<Longrightarrow> go_map (AList.update k v m)"
  by (rule distinct_update)

lemma go_map_delete [simp]: "go_map m \<Longrightarrow> go_map (AList.delete k m)"
  by (rule distinct_delete)

lemma go_map_eq_iff:
  assumes "go_map m" "go_map m'"
  shows "set m = set m' \<longleftrightarrow> map_of m = map_of m'"
  using assms by (metis graph_map_of_if_distinct_dom map_of_inject_set)

lemma update_fresh: "k \<notin> fst ` set m \<Longrightarrow> AList.update k v m = m @ [(k, v)]"
  by (induction m) auto

section \<open>Words\<close>

lemma unat_of_nat16: "n < 65536 \<Longrightarrow> unat (of_nat n :: 16 word) = n"
  by (simp add: unat_of_nat)

lemma unat_of_nat32: "n < 4294967296 \<Longrightarrow> unat (of_nat n :: 32 word) = n"
  by (simp add: unat_of_nat)

section \<open>Lists\<close>

lemma take_append_exact [simp]: "n = length xs \<Longrightarrow> take n (xs @ ys) = xs"
  by simp

lemma drop_append_exact [simp]: "n = length xs \<Longrightarrow> drop n (xs @ ys) = ys"
  by simp

lemma take_drop_append_mid: "i = length xs \<Longrightarrow> n = length ys \<Longrightarrow> take n (drop i (xs @ ys @ zs)) = ys"
  by simp

end
