(* ===== verification/GoStd.thy ===== *)
theory GoStd
  imports Prelude
begin

text \<open>
  What the code uses of the Go standard library: the byte/string conversions,
  \<^verbatim>\<open>encoding/binary\<close> in little-endian order, \<^verbatim>\<open>io.ReadFull\<close>,
  \<^verbatim>\<open>io.CopyBuffer\<close> over an \<^verbatim>\<open>io.LimitReader\<close> and \<^verbatim>\<open>bufio.Reader.Discard\<close>.
  Integers of type \<^verbatim>\<open>int\<close> are 64 bits wide.
\<close>

section \<open>Strings and byte slices\<close>

text \<open>The conversions \<^verbatim>\<open>[]byte(s)\<close> and \<^verbatim>\<open>string(b)\<close>.\<close>

definition bytes_of :: "string \<Rightarrow> bytes" where
  "bytes_of s = map (\<lambda>c. of_nat (of_char c)) s"

definition string_of :: "bytes \<Rightarrow> string" where
  "string_of b = map (\<lambda>x. char_of (unat x)) b"

lemma length_bytes_of [simp]: "length (bytes_of s) = length s"
  by (simp add: bytes_of_def)

lemma length_string_of [simp]: "length (string_of b) = length b"
  by (simp add: string_of_def)

lemma string_of_bytes_of [simp]: "string_of (bytes_of s) = s"
  by (induction s) (simp_all add: string_of_def bytes_of_def unat_of_nat)

lemma bytes_of_string_of [simp]: "bytes_of (string_of b) = b"
proof (induction b)
  case (Cons x b)
  have "unat x < 256" using unsigned_less [of x, where ?'a = nat] by simp
  then show ?case using Cons by (simp add: string_of_def bytes_of_def)
qed (simp add: string_of_def bytes_of_def)

lemma bytes_of_inject [simp]: "bytes_of s = bytes_of t \<longleftrightarrow> s = t"
  by (metis string_of_bytes_of)

lemma bytes_of_Nil_iff [simp]: "bytes_of s = [] \<longleftrightarrow> s = []"
  by (simp add: bytes_of_def)

lemma string_of_Nil_iff [simp]: "string_of b = [] \<longleftrightarrow> b = []"
  by (simp add: string_of_def)

section \<open>Little-endian integers\<close>

fun le_nat :: "bytes \<Rightarrow> nat" where
  "le_nat [] = 0"
| "le_nat (b # bs) = unat b + 256 * le_nat bs"

primrec le_bytes :: "nat \<Rightarrow> nat \<Rightarrow> bytes" where
  "le_bytes 0 x = []"
| "le_bytes (Suc n) x = of_nat (x mod 256) # le_bytes n (x div 256)"

lemma le_bytes_numeral [simp]:
  "le_bytes (numeral k) x = of_nat (x mod 256) # le_bytes (pred_numeral k) (x div 256)"
  by (simp only: numeral_eq_Suc [of k] le_bytes.simps)

lemma length_le_bytes [simp]: "length (le_bytes n x) = n"
  by (induction n arbitrary: x) simp_all

lemma le_nat_le_bytes: "le_nat (le_bytes n x) = x mod 256 ^ n"
proof (induction n arbitrary: x)
  case (Suc n)
  have "le_nat (le_bytes (Suc n) x) = x mod 256 + 256 * (x div 256 mod 256 ^ n)"
    by (simp add: Suc unat_of_nat)
  also have "\<dots> = x mod 256 ^ Suc n"
    using mod_mult2_eq [of x 256 "256 ^ n"] by simp
  finally show ?case .
qed simp

lemma le_nat_bound: "le_nat bs < 256 ^ length bs"
proof (induction bs)
  case (Cons b bs)
  have "unat b < 256" using unsigned_less [of b, where ?'a = nat] by simp
  then show ?case using Cons by simp
qed simp

lemma le_bytes_le_nat: "n = length bs \<Longrightarrow> le_bytes n (le_nat bs) = bs"
proof (induction bs arbitrary: n)
  case (Cons b bs)
  have "unat b < 256" using unsigned_less [of b, where ?'a = nat] by simp
  then show ?case using Cons by simp
qed simp

text \<open>
  \<^verbatim>\<open>binary.LittleEndian.PutUint16\<close>, \<^verbatim>\<open>PutUint32\<close>, \<^verbatim>\<open>PutUint64\<close> (and the
  \<^verbatim>\<open>Append\<close> variants) as the bytes they store; \<^verbatim>\<open>Uint16\<close>, \<^verbatim>\<open>Uint32\<close> and
  \<^verbatim>\<open>Uint64\<close> read the front of a slice and panic on a short one.
\<close>

definition PutUint16 :: "16 word \<Rightarrow> bytes" where
  "PutUint16 v = le_bytes 2 (unat v)"

definition PutUint32 :: "32 word \<Rightarrow> bytes" where
  "PutUint32 v = le_bytes 4 (unat v)"

definition PutUint64 :: "64 word \<Rightarrow> bytes" where
  "PutUint64 v = le_bytes 8 (unat v)"

definition Uint16 :: "bytes \<Rightarrow> error + 16 word" where
  "Uint16 b = (if length b < 2 then Inl Panic else Inr (of_nat (le_nat (take 2 b))))"

definition Uint32 :: "bytes \<Rightarrow> error + 32 word" where
  "Uint32 b = (if length b < 4 then Inl Panic else Inr (of_nat (le_nat (take 4 b))))"

definition Uint64 :: "bytes \<Rightarrow> error + 64 word" where
  "Uint64 b = (if length b < 8 then Inl Panic else Inr (of_nat (le_nat (take 8 b))))"

lemma length_PutUint [simp]:
  "length (PutUint16 v) = 2" "length (PutUint32 w) = 4" "length (PutUint64 x) = 8"
  by (simp_all add: PutUint16_def PutUint32_def PutUint64_def)

lemma Uint16_PutUint16 [simp]: "Uint16 (PutUint16 v @ r) = Inr v"
proof -
  have "unat v < 65536" using unsigned_less [of v, where ?'a = nat] by simp
  then show ?thesis by (simp add: Uint16_def PutUint16_def le_nat_le_bytes del: le_bytes_numeral)
qed

lemma Uint32_PutUint32 [simp]: "Uint32 (PutUint32 v @ r) = Inr v"
proof -
  have "unat v < 4294967296" using unsigned_less [of v, where ?'a = nat] by simp
  then show ?thesis by (simp add: Uint32_def PutUint32_def le_nat_le_bytes del: le_bytes_numeral)
qed

lemma Uint64_PutUint64 [simp]: "Uint64 (PutUint64 v @ r) = Inr v"
proof -
  have "unat v < 18446744073709551616" using unsigned_less [of v, where ?'a = nat] by simp
  then show ?thesis by (simp add: Uint64_def PutUint64_def le_nat_le_bytes del: le_bytes_numeral)
qed

lemmas Uint_PutUint_nil [simp] =
  Uint16_PutUint16 [where r = "[]", simplified]
  Uint32_PutUint32 [where r = "[]", simplified]
  Uint64_PutUint64 [where r = "[]", simplified]

lemma Uint16_ok: "2 \<le> length b \<Longrightarrow> \<exists>v. Uint16 b = Inr v"
  by (simp add: Uint16_def)

lemma Uint32_ok: "4 \<le> length b \<Longrightarrow> \<exists>v. Uint32 b = Inr v"
  by (simp add: Uint32_def)

lemma Uint32_inject:
  assumes "length b = 4" "length b' = 4" "Uint32 b = Uint32 b'"
  shows "b = b'"
proof -
  have "le_nat b < 2 ^ 32" "le_nat b' < 2 ^ 32"
    using le_nat_bound [of b] le_nat_bound [of b'] assms(1,2) by simp_all
  moreover have "(of_nat (le_nat b) :: 32 word) = of_nat (le_nat b')"
    using assms by (simp add: Uint32_def)
  ultimately have "le_nat b = le_nat b'"
    by (simp add: word_of_nat_eq_iff take_bit_nat_eq_self)
  then show ?thesis using assms(1,2) le_bytes_le_nat by metis
qed

section \<open>Readers\<close>

text \<open>
  A \<^verbatim>\<open>bufio.Reader\<close> over a file: the bytes still to come, and the error the
  file reports once they are consumed: \<open>EOF\<close> at the end of the file, another
  error where a read of the file fails.
\<close>

record reader =
  rbuf :: bytes
  rerr :: error

text \<open>
  \<^verbatim>\<open>io.ReadFull\<close>: all \<open>n\<close> bytes, or \<open>EOF\<close> when none are left, or
  \<open>ErrUnexpectedEOF\<close> when some but not all are.
\<close>

definition io_ReadFull :: "reader \<Rightarrow> nat \<Rightarrow> error + (bytes \<times> reader)" where
  "io_ReadFull r n =
     (if n \<le> length (rbuf r) then Inr (take n (rbuf r), r\<lparr>rbuf := drop n (rbuf r)\<rparr>)
      else if rerr r = EOF \<and> rbuf r \<noteq> [] then Inl ErrUnexpectedEOF
      else Inl (rerr r))"

text \<open>
  \<^verbatim>\<open>io.CopyBuffer(dst, io.LimitReader(r, n), buf)\<close>: the bytes handed to
  \<open>dst\<close>. The end of the input is no error here: fewer bytes are copied.
\<close>

definition io_CopyLimit :: "reader \<Rightarrow> nat \<Rightarrow> error + (bytes \<times> reader)" where
  "io_CopyLimit r n =
     (if n \<le> length (rbuf r) \<or> rerr r = EOF
      then Inr (take n (rbuf r), r\<lparr>rbuf := drop n (rbuf r)\<rparr>)
      else Inl (rerr r))"

text \<open>\<^verbatim>\<open>bufio.Reader.Discard\<close>: a short input is reported as it is.\<close>

definition bufio_Discard :: "reader \<Rightarrow> nat \<Rightarrow> error + reader" where
  "bufio_Discard r n =
     (if n \<le> length (rbuf r) then Inr (r\<lparr>rbuf := drop n (rbuf r)\<rparr>) else Inl (rerr r))"

lemma io_ReadFull_append [simp]:
  "n = length b \<Longrightarrow> io_ReadFull \<lparr>rbuf = b @ rest, rerr = e\<rparr> n = Inr (b, \<lparr>rbuf = rest, rerr = e\<rparr>)"
  by (simp add: io_ReadFull_def)

lemma io_ReadFull_Inr_iff:
  "io_ReadFull r n = Inr (b, r') \<longleftrightarrow>
     n \<le> length (rbuf r) \<and> b = take n (rbuf r) \<and> r' = r\<lparr>rbuf := drop n (rbuf r)\<rparr>"
  by (auto simp: io_ReadFull_def)

lemma io_ReadFull_short:
  "length b < n \<Longrightarrow>
     io_ReadFull \<lparr>rbuf = b, rerr = EOF\<rparr> n = Inl (if b = [] then EOF else ErrUnexpectedEOF)"
  by (simp add: io_ReadFull_def)

lemma io_CopyLimit_append [simp]:
  "n = length b \<Longrightarrow> io_CopyLimit \<lparr>rbuf = b @ rest, rerr = e\<rparr> n = Inr (b, \<lparr>rbuf = rest, rerr = e\<rparr>)"
  by (simp add: io_CopyLimit_def)

end
