(* ===== verification/Attributes.thy ===== *)
theory Attributes
  imports GoStd "HOL-Library.Multiset"
begin

text \<open>
  The limits of the log format (\<^verbatim>\<open>log.go\<close>, constants) and the codec of a
  record's attribute block: \<open>encodeAttributes\<close> and \<open>decodeAttributes\<close>. The
  writer fills a buffer of a precomputed size; \<open>attr_block\<close> is the reference
  encoding it is shown to produce.
\<close>

section \<open>Limits\<close>

definition maxKeySize :: nat where "maxKeySize = 1048576"
definition maxValueSize :: nat where "maxValueSize = 2147483647"
definition maxAttributesSize :: nat where "maxAttributesSize = 16777216"
definition maxAttributeCount :: nat where "maxAttributeCount = 4096"
definition maxExtensionsSize :: nat where "maxExtensionsSize = 16777216"

lemmas limits = maxKeySize_def maxValueSize_def maxAttributesSize_def maxAttributeCount_def
  maxExtensionsSize_def

section \<open>Writing into a buffer\<close>

text \<open>
  \<open>go_put b i s\<close> is \<^verbatim>\<open>binary.LittleEndian.PutUint...(b[i:], v)\<close>, which panics
  when the bytes \<open>s\<close> do not fit. \<open>go_copy b i s\<close> is \<^verbatim>\<open>copy(b[i:], s)\<close>, which
  stores as much as fits and panics only when \<open>i\<close> is out of range.
\<close>

definition go_put :: "bytes \<Rightarrow> nat \<Rightarrow> bytes \<Rightarrow> error + bytes" where
  "go_put b i s = (if i + length s \<le> length b then Inr (overwrite b i s) else Inl Panic)"

definition go_copy :: "bytes \<Rightarrow> nat \<Rightarrow> bytes \<Rightarrow> error + bytes" where
  "go_copy b i s = (if i \<le> length b then Inr (overwrite b i (take (length b - i) s)) else Inl Panic)"

lemma go_put_ok: "i + length s \<le> length b \<Longrightarrow> go_put b i s = Inr (overwrite b i s)"
  by (simp add: go_put_def)

lemma go_copy_ok: "i + length s \<le> length b \<Longrightarrow> go_copy b i s = Inr (overwrite b i s)"
  by (simp add: go_copy_def)

section \<open>Encoding\<close>

definition emptyAttributes :: bytes where
  "emptyAttributes = [0, 0, 0, 0]"

text \<open>The first loop: it checks every entry and adds up the size of the block.\<close>

fun encodeAttributes_scan :: "attributes \<Rightarrow> nat \<Rightarrow> string list \<Rightarrow> error + (nat \<times> string list)" where
  "encodeAttributes_scan [] tot keys = Inr (tot, keys)"
| "encodeAttributes_scan ((key, value) # rest) tot keys =
     (if key = [] then Inl ErrInvalidAttribute
      else if length key > 65535 then Inl (Wrap ''attribute name'' [ErrAttributesTooLarge])
      else if length value > 4294967295 then Inl (Wrap ''attribute value'' [ErrAttributesTooLarge])
      else
        let tot = tot + (2 + 4 + length key + length value) in
        if tot > maxAttributesSize then Inl (Wrap ''encoded attributes'' [ErrAttributesTooLarge])
        else encodeAttributes_scan rest tot (keys @ [key]))"

text \<open>The second loop: it writes the entries in the order of the sorted names.\<close>

fun encodeAttributes_fill :: "attributes \<Rightarrow> string list \<Rightarrow> bytes \<Rightarrow> nat \<Rightarrow> error + bytes" where
  "encodeAttributes_fill attrs [] buf pos = Inr buf"
| "encodeAttributes_fill attrs (key # keys) buf pos =
     (let value = attr_get attrs key in
      bindE (go_put buf pos (PutUint16 (of_nat (length key)))) (\<lambda>buf.
      let pos = pos + 2 in
      bindE (go_put buf pos (PutUint32 (of_nat (length value)))) (\<lambda>buf.
      let pos = pos + 4 in
      bindE (go_copy buf pos (bytes_of key)) (\<lambda>buf.
      let pos = pos + length key in
      bindE (go_copy buf pos (bytes_of value)) (\<lambda>buf.
      let pos = pos + length value in
      encodeAttributes_fill attrs keys buf pos)))))"

definition encodeAttributes :: "attributes \<Rightarrow> error + bytes" where
  "encodeAttributes attrs =
     (if length attrs = 0 then Inr emptyAttributes
      else if length attrs > maxAttributeCount then
        Inl (Wrap ''attributes'' [ErrAttributesTooLarge])
      else
        bindE (encodeAttributes_scan attrs 4 []) (\<lambda>(tot, keys).
        let keys = sort keys; buf = replicate tot 0 in
        bindE (go_put buf 0 (PutUint32 (of_nat (length keys)))) (\<lambda>buf.
        encodeAttributes_fill attrs keys buf 4)))"

section \<open>Decoding\<close>

fun decodeAttributes_loop :: "nat \<Rightarrow> bytes \<Rightarrow> nat \<Rightarrow> attributes \<Rightarrow> error + (nat \<times> attributes)" where
  "decodeAttributes_loop 0 buf pos attrs = Inr (pos, attrs)"
| "decodeAttributes_loop (Suc n) buf pos attrs =
     (if length buf - pos < 6 then Inl ErrUnexpectedEOF
      else
        bindE (bindE (go_slice buf pos (length buf)) Uint16) (\<lambda>kl.
        let keyLen = unat kl; pos = pos + 2 in
        bindE (bindE (go_slice buf pos (length buf)) Uint32) (\<lambda>vl.
        let valueLen = unat vl; pos = pos + 4 in
        if keyLen = 0 \<or> keyLen > length buf - pos then Inl (Errorf ''invalid attribute name length'')
        else
          bindE (go_slice buf pos (pos + keyLen)) (\<lambda>kb.
          let key = string_of kb; pos = pos + keyLen in
          if valueLen > length buf - pos then Inl ErrUnexpectedEOF
          else if map_of attrs key \<noteq> None then Inl (Errorf ''duplicate attribute'')
          else
            bindE (go_slice buf pos (pos + valueLen)) (\<lambda>vb.
            decodeAttributes_loop n buf (pos + valueLen)
              (AList.update key (string_of vb) attrs))))))"

definition decodeAttributes :: "bytes \<Rightarrow> error + attributes" where
  "decodeAttributes buf =
     (if length buf < 4 then Inl (Errorf ''attribute block is too short'')
      else
        bindE (bindE (go_slice buf 0 4) Uint32) (\<lambda>count.
        if unat count > maxAttributeCount then Inl (Errorf ''attribute count exceeds maximum'')
        else
          bindE (decodeAttributes_loop (unat count) buf 4 []) (\<lambda>(pos, attrs).
          if pos \<noteq> length buf then Inl (Errorf ''attribute block has trailing bytes'')
          else Inr attrs)))"

section \<open>The reference encoding\<close>

definition attr_entry :: "string \<times> string \<Rightarrow> bytes" where
  "attr_entry kv = PutUint16 (of_nat (length (fst kv))) @ PutUint32 (of_nat (length (snd kv)))
     @ bytes_of (fst kv) @ bytes_of (snd kv)"

definition attr_block :: "attributes \<Rightarrow> bytes" where
  "attr_block attrs = PutUint32 (of_nat (length attrs)) @ concat (map attr_entry attrs)"

definition attr_size :: "attributes \<Rightarrow> nat" where
  "attr_size attrs = 4 + (\<Sum>kv\<leftarrow>attrs. 6 + length (fst kv) + length (snd kv))"

text \<open>The entries in the order they are written: by name.\<close>

definition by_name :: "attributes \<Rightarrow> attributes" where
  "by_name attrs = map (\<lambda>k. (k, attr_get attrs k)) (sort (map fst attrs))"

text \<open>What the format can hold.\<close>

definition valid_attributes :: "attributes \<Rightarrow> bool" where
  "valid_attributes attrs \<longleftrightarrow>
     length attrs \<le> maxAttributeCount \<and> attr_size attrs \<le> maxAttributesSize \<and>
     (\<forall>(k, v) \<in> set attrs. k \<noteq> [] \<and> length k \<le> 65535)"

lemma length_attr_entry [simp]: "length (attr_entry kv) = 6 + length (fst kv) + length (snd kv)"
  by (simp add: attr_entry_def)

lemma length_attr_block: "length (attr_block attrs) = attr_size attrs"
  by (induction attrs) (auto simp: attr_block_def attr_size_def)

lemma attr_size_Cons: "attr_size (kv # m) = attr_size m + (6 + length (fst kv) + length (snd kv))"
  by (simp add: attr_size_def)

lemma attr_size_ge: "kv \<in> set m \<Longrightarrow> 4 + length (snd kv) \<le> attr_size m"
  by (induction m) (auto simp: attr_size_def)

subsection \<open>The scan\<close>

lemma encodeAttributes_scan_Inr_iff:
  "encodeAttributes_scan m (attr_size d) ks = Inr (t, ks') \<longleftrightarrow>
     t = attr_size d + attr_size m - 4 \<and> ks' = ks @ map fst m \<and>
     (m = [] \<or> t \<le> maxAttributesSize) \<and> (\<forall>(k, v) \<in> set m. k \<noteq> [] \<and> length k \<le> 65535)"
proof (induction m arbitrary: d ks)
  case Nil
  then show ?case by (auto simp: attr_size_def)
next
  case (Cons kv m)
  obtain k v where kv: "kv = (k, v)" by (cases kv)
  have size: "attr_size d + (2 + 4 + length k + length v) = attr_size (kv # d)"
    by (simp add: attr_size_Cons kv)
  have "4 \<le> attr_size m" by (simp add: attr_size_def)
  then show ?case
    using Cons [of "kv # d" "ks @ [k]"] size
    by (auto simp: kv Let_def limits attr_size_Cons)
qed

subsection \<open>The order of the names\<close>

lemma map_attr_get: "go_map m \<Longrightarrow> map (\<lambda>k. (k, attr_get m k)) (map fst m) = m"
  by (auto simp: attr_get_def intro!: map_idI)

lemma mset_by_name: "go_map m \<Longrightarrow> mset (by_name m) = mset m"
proof -
  assume m: "go_map m"
  have "mset (by_name m) = image_mset (\<lambda>k. (k, attr_get m k)) (mset (map fst m))"
    unfolding by_name_def by (simp only: mset_map mset_sort)
  also have "\<dots> = mset (map (\<lambda>k. (k, attr_get m k)) (map fst m))"
    by (simp only: mset_map)
  finally show ?thesis by (simp only: map_attr_get [OF m])
qed

lemma fst_by_name: "map fst (by_name m) = sort (map fst m)"
  by (simp add: by_name_def comp_def)

lemma by_name_order:
  assumes "go_map m" "go_map m'" "set m = set m'"
  shows "by_name m = by_name m'"
proof -
  have "map_of m = map_of m'" using assms go_map_eq_iff by blast
  then have "attr_get m = attr_get m'" by (simp add: attr_get_def fun_eq_iff)
  moreover have "set (map fst m) = set (map fst m')" using assms(3) by simp
  then have "sort (map fst m) = sort (map fst m')"
    using assms(1,2) by (metis sorted_list_of_set_sort_remdups distinct_remdups_id)
  ultimately show ?thesis by (simp add: by_name_def)
qed

lemma by_name_props:
  assumes "go_map m"
  shows "set (by_name m) = set m" "length (by_name m) = length m" "go_map (by_name m)"
    "map_of (by_name m) = map_of m" "attr_size (by_name m) = attr_size m"
    "sorted (map fst (by_name m))"
proof -
  have ms: "mset (by_name m) = mset m" by (rule mset_by_name [OF assms])
  show "set (by_name m) = set m" using ms by (rule mset_eq_setD)
  show "length (by_name m) = length m" using ms by (rule mset_eq_length)
  show gm: "go_map (by_name m)" using assms by (simp add: fst_by_name)
  show "map_of (by_name m) = map_of m"
    using assms gm \<open>set (by_name m) = set m\<close> go_map_eq_iff by blast
  show "attr_size (by_name m) = attr_size m"
    by (simp only: attr_size_def sum_mset_sum_list [symmetric] mset_map ms)
  show "sorted (map fst (by_name m))" by (simp add: fst_by_name)
qed

subsection \<open>Filling the buffer\<close>

lemma encodeAttributes_fill_eq:
  assumes "pos + length (concat (map attr_entry (map (\<lambda>k. (k, attr_get m k)) keys))) = length buf"
  shows "encodeAttributes_fill m keys buf pos =
    Inr (take pos buf @ concat (map attr_entry (map (\<lambda>k. (k, attr_get m k)) keys)))"
  using assms
proof (induction keys arbitrary: buf pos)
  case (Cons key keys)
  let ?v = "attr_get m key"
  let ?b1 = "overwrite buf pos (PutUint16 (of_nat (length key)))"
  let ?b2 = "overwrite ?b1 (pos + 2) (PutUint32 (of_nat (length ?v)))"
  let ?b3 = "overwrite ?b2 (pos + 2 + 4) (bytes_of key)"
  let ?b4 = "overwrite ?b3 (pos + 2 + 4 + length key) (bytes_of ?v)"
  have tk: "take (pos + 2 + 4 + length key + length ?v) ?b4 = take pos buf @ attr_entry (key, ?v)"
    using Cons.prems by (simp add: take_overwrite_eq attr_entry_def)
  show ?case
    using Cons.prems Cons.IH [of "pos + 2 + 4 + length key + length ?v" ?b4] tk
    by (simp add: Let_def go_put_ok go_copy_ok)
qed simp

lemma encodeAttributes_Inr_iff:
  assumes "go_map m"
  shows "encodeAttributes m = Inr b \<longleftrightarrow> valid_attributes m \<and> b = attr_block (by_name m)"
proof (cases "m = []")
  case True
  then show ?thesis
    by (auto simp: encodeAttributes_def emptyAttributes_def valid_attributes_def attr_size_def limits
        attr_block_def by_name_def PutUint32_def)
next
  case False
  let ?P = "attr_size m \<le> maxAttributesSize \<and> (\<forall>(k, v) \<in> set m. k \<noteq> [] \<and> length k \<le> 65535)"
  have scan: "encodeAttributes_scan m 4 [] = Inr (t, ks) \<longleftrightarrow>
      t = attr_size m \<and> ks = map fst m \<and> ?P" for t ks
    using encodeAttributes_scan_Inr_iff [of m "[]" "[]" t ks] False by (auto simp: attr_size_def)
  let ?h = "PutUint32 (of_nat (length m))"
  let ?buf = "overwrite (replicate (attr_size m) 0) 0 ?h"
  have len: "length ?buf = attr_size m" by (simp add: attr_size_def)
  have body: "4 + length (concat (map attr_entry (by_name m))) = attr_size m"
    using length_attr_block [of "by_name m"] by (simp add: attr_block_def by_name_props assms)
  have "encodeAttributes_fill m (sort (map fst m)) ?buf 4 = Inr (take 4 ?buf @ concat (map attr_entry (by_name m)))"
    unfolding by_name_def
    by (rule encodeAttributes_fill_eq) (use body len in \<open>simp add: by_name_def\<close>)
  moreover have "take 4 ?buf = ?h"
    by (simp add: take_overwrite_eq)
  ultimately have fill: "encodeAttributes_fill m (sort (map fst m)) ?buf 4 = Inr (attr_block (by_name m))"
    by (simp add: attr_block_def by_name_props assms)
  have put: "go_put (replicate (attr_size m) 0) 0 ?h = Inr ?buf"
    by (rule go_put_ok) (simp add: attr_size_def)
  show ?thesis
    using False
    by (auto simp: encodeAttributes_def valid_attributes_def bindE_Inr_iff scan Let_def put fill)
qed

section \<open>Decoding what was encoded\<close>

lemma go_slice_tail: "i = length p \<Longrightarrow> go_slice (p @ q) i (length (p @ q)) = Inr q"
  by (simp add: go_slice_def)

lemma go_slice_mid: "i = length p \<Longrightarrow> j = i + length q \<Longrightarrow> go_slice (p @ q @ r) i j = Inr q"
  by (simp add: go_slice_def)

lemma decodeAttributes_loop_step:
  assumes "k \<noteq> []" "length k \<le> 65535" "length v \<le> 4294967295" "map_of m k = None" "pos = length p"
  shows "decodeAttributes_loop (Suc n) (p @ attr_entry (k, v) @ q) pos m =
    decodeAttributes_loop n (p @ attr_entry (k, v) @ q)
      (pos + 2 + 4 + length k + length v) (AList.update k v m)"
proof -
  let ?kl = "PutUint16 (of_nat (length k))" and ?vl = "PutUint32 (of_nat (length v))"
  let ?buf = "p @ attr_entry (k, v) @ q"
  have b: "?buf = p @ (?kl @ ?vl @ bytes_of k @ bytes_of v @ q)"
    "?buf = (p @ ?kl) @ (?vl @ bytes_of k @ bytes_of v @ q)"
    "?buf = (p @ ?kl @ ?vl) @ bytes_of k @ (bytes_of v @ q)"
    "?buf = (p @ ?kl @ ?vl @ bytes_of k) @ bytes_of v @ q"
    by (simp_all add: attr_entry_def)
  have s1: "bindE (go_slice ?buf pos (length ?buf)) Uint16 = Inr (of_nat (length k))"
    unfolding b(1) by (subst go_slice_tail) (simp_all add: assms)
  have s2: "bindE (go_slice ?buf (pos + 2) (length ?buf)) Uint32 = Inr (of_nat (length v))"
    unfolding b(2) by (subst go_slice_tail) (simp_all add: assms)
  have s3: "go_slice ?buf (pos + 2 + 4) (pos + 2 + 4 + length k) = Inr (bytes_of k)"
    unfolding b(3) by (subst go_slice_mid) (simp_all add: assms)
  have s4: "go_slice ?buf (pos + 2 + 4 + length k) (pos + 2 + 4 + length k + length v) = Inr (bytes_of v)"
    unfolding b(4) by (subst go_slice_mid) (simp_all add: assms)
  have u: "unat (of_nat (length k) :: 16 word) = length k" "unat (of_nat (length v) :: 32 word) = length v"
    using assms(2,3) by (simp_all add: unat_of_nat)
  have len: "length ?buf = pos + 6 + length k + length v + length q" by (simp add: assms)
  show ?thesis
    using assms(1,4) s1 s2 s3 s4 len
    by (simp add: Let_def u del: length_append append_assoc)
qed

definition entry_ok :: "string \<times> string \<Rightarrow> bool" where
  "entry_ok kv \<longleftrightarrow> fst kv \<noteq> [] \<and> length (fst kv) \<le> 65535 \<and> length (snd kv) \<le> 4294967295"

lemma decodeAttributes_loop_entries:
  assumes "go_map (m @ es)" "\<forall>kv \<in> set es. entry_ok kv" "pos = length p"
  shows "decodeAttributes_loop (length es) (p @ concat (map attr_entry es) @ q) pos m =
    Inr (pos + length (concat (map attr_entry es)), m @ es)"
  using assms
proof (induction es arbitrary: p m pos)
  case (Cons kv es)
  obtain k v where kv: "kv = (k, v)" by (cases kv)
  let ?r = "concat (map attr_entry es) @ q"
  have fresh: "k \<notin> fst ` set m" and ok: "entry_ok (k, v)" using Cons.prems by (auto simp: kv)
  have "decodeAttributes_loop (length (kv # es)) (p @ concat (map attr_entry (kv # es)) @ q) pos m =
      decodeAttributes_loop (Suc (length es)) (p @ attr_entry (k, v) @ ?r) pos m"
    by (simp add: kv)
  also have "\<dots> = decodeAttributes_loop (length es) (p @ attr_entry (k, v) @ ?r)
      (pos + 2 + 4 + length k + length v) (AList.update k v m)"
    using ok Cons.prems(3) fresh
    by (intro decodeAttributes_loop_step) (auto simp: entry_ok_def map_of_eq_None_iff)
  also have "\<dots> = decodeAttributes_loop (length es) ((p @ attr_entry (k, v)) @ ?r)
      (pos + 2 + 4 + length k + length v) (m @ [(k, v)])"
    by (simp add: update_fresh [OF fresh])
  also have "\<dots> = Inr (pos + 2 + 4 + length k + length v + length (concat (map attr_entry es)), (m @ [(k, v)]) @ es)"
    using Cons.prems by (intro Cons.IH) (auto simp: kv)
  finally show ?case by (simp add: kv)
qed simp

lemma decodeAttributes_attr_block:
  assumes "go_map m" "\<forall>kv \<in> set m. entry_ok kv" "length m \<le> maxAttributeCount"
  shows "decodeAttributes (attr_block m) = Inr m"
proof -
  have u: "unat (of_nat (length m) :: 32 word) = length m"
    using assms(3) by (simp add: unat_of_nat limits)
  have "go_slice (attr_block m) 0 4 = Inr (PutUint32 (of_nat (length m)))"
    using go_slice_mid [of 0 "[]" 4 "PutUint32 (of_nat (length m))"] by (simp add: attr_block_def)
  moreover have "decodeAttributes_loop (length m) (attr_block m) 4 [] = Inr (length (attr_block m), m)"
    using decodeAttributes_loop_entries [of "[]" m 4 "PutUint32 (of_nat (length m))" "[]"] assms(1,2)
    by (simp add: attr_block_def)
  ultimately show ?thesis
    using assms(3) by (simp add: decodeAttributes_def u length_attr_block attr_size_def)
qed

section \<open>Only encodings decode\<close>

lemma Uint16_Inr: "Uint16 b = Inr v \<Longrightarrow> b = PutUint16 v @ drop 2 b"
proof -
  assume "Uint16 b = Inr v"
  then have l: "2 \<le> length b" and v: "v = of_nat (le_nat (take 2 b))"
    by (auto simp: Uint16_def split: if_splits)
  have "le_nat (take 2 b) < 65536" using le_nat_bound [of "take 2 b"] l by simp
  then have "unat v = le_nat (take 2 b)" by (simp add: v unat_of_nat)
  then have "PutUint16 v = take 2 b"
    using l by (simp add: PutUint16_def le_bytes_le_nat del: le_bytes_numeral)
  then show ?thesis by simp
qed

lemma Uint32_Inr: "Uint32 b = Inr v \<Longrightarrow> b = PutUint32 v @ drop 4 b"
proof -
  assume "Uint32 b = Inr v"
  then have l: "4 \<le> length b" and v: "v = of_nat (le_nat (take 4 b))"
    by (auto simp: Uint32_def split: if_splits)
  have "le_nat (take 4 b) < 4294967296" using le_nat_bound [of "take 4 b"] l by simp
  then have "unat v = le_nat (take 4 b)" by (simp add: v unat_of_nat)
  then have "PutUint32 v = take 4 b"
    using l by (simp add: PutUint32_def le_bytes_le_nat del: le_bytes_numeral)
  then show ?thesis by simp
qed

lemma decodeAttributes_loop_step_inv:
  assumes "decodeAttributes_loop (Suc n) (p @ r) (length p) m = Inr res"
  obtains k v q where "r = attr_entry (k, v) @ q" "entry_ok (k, v)" "map_of m k = None"
    "decodeAttributes_loop n ((p @ attr_entry (k, v)) @ q) (length (p @ attr_entry (k, v)))
       (AList.update k v m) = Inr res"
proof -
  have six: "6 \<le> length r" using assms by (auto split: if_splits)
  obtain kl where kl: "Uint16 r = Inr kl" using six by (auto simp: Uint16_def)
  have "4 \<le> length (drop 2 r)" using six by simp
  then obtain vl where vl: "Uint32 (drop 2 r) = Inr vl" using Uint32_ok by blast
  define d where "d = drop 4 (drop 2 r)"
  have r: "r = PutUint16 kl @ PutUint32 vl @ d"
    using Uint16_Inr [OF kl] Uint32_Inr [OF vl] by (simp only: d_def)
  let ?buf = "p @ r" and ?k = "take (unat kl) d" and ?v = "take (unat vl) (drop (unat kl) d)"
  let ?q = "drop (unat vl) (drop (unat kl) d)"
  have ld: "length r = 6 + length d" by (simp add: r)
  have sl: "go_slice ?buf (length p) (length ?buf) = Inr r"
    "go_slice ?buf (length p + 2) (length ?buf) = Inr (drop 2 r)"
    using six by (simp_all add: go_slice_def)
  have cond: "unat kl \<noteq> 0" "unat kl \<le> length d"
    using assms six sl kl vl by (auto simp: Let_def r split: if_splits)
  have sk: "go_slice ?buf (length p + 2 + 4) (length p + 2 + 4 + unat kl) = Inr ?k"
    using cond by (simp add: go_slice_def r)
  have cond2: "unat vl \<le> length d - unat kl" "map_of m (string_of ?k) = None"
    using assms six sl kl vl sk cond by (auto simp: Let_def r split: if_splits)
  have sv: "go_slice ?buf (length p + 2 + 4 + unat kl) (length p + 2 + 4 + unat kl + unat vl) = Inr ?v"
    using cond cond2(1) by (simp add: go_slice_def r)
  have lens: "length ?k = unat kl" "length ?v = unat vl" using cond cond2(1) by simp_all
  have e: "attr_entry (string_of ?k, string_of ?v) = PutUint16 kl @ PutUint32 vl @ ?k @ ?v"
    using lens by (simp add: attr_entry_def del: length_take length_drop)
  have "r = attr_entry (string_of ?k, string_of ?v) @ ?q"
    unfolding e by (subst r) (simp del: drop_drop)
  moreover have "entry_ok (string_of ?k, string_of ?v)"
    using cond lens unsigned_less [of kl, where ?'a = nat] unsigned_less [of vl, where ?'a = nat]
    by (auto simp: entry_ok_def simp del: length_take length_drop)
  moreover have "decodeAttributes_loop n (p @ r) (length p + 2 + 4 + unat kl + unat vl)
      (AList.update (string_of ?k) (string_of ?v) m) = Inr res"
    using assms six sl kl vl sk cond cond2 sv ld by (simp add: Let_def del: add_2_eq_Suc')
  moreover have "length (p @ attr_entry (string_of ?k, string_of ?v)) = length p + 2 + 4 + unat kl + unat vl"
    using lens by (simp del: length_take length_drop)
  ultimately show thesis
    using that [of "string_of ?k" "string_of ?v" ?q] cond2(2) by (metis append_assoc)
qed

lemma decodeAttributes_loop_inv:
  assumes "decodeAttributes_loop n (p @ r) (length p) m = Inr (pos, m')" "go_map m"
  obtains es q where "r = concat (map attr_entry es) @ q" "m' = m @ es" "length es = n"
    "pos = length p + length (concat (map attr_entry es))" "\<forall>kv \<in> set es. entry_ok kv" "go_map m'"
  using assms
proof (induction n arbitrary: p r m thesis)
  case 0
  then show ?case by simp
next
  case (Suc n)
  from decodeAttributes_loop_step_inv [OF Suc.prems(2)] obtain k v q where
    r: "r = attr_entry (k, v) @ q" and ok: "entry_ok (k, v)" and fresh: "map_of m k = None"
    and rest: "decodeAttributes_loop n ((p @ attr_entry (k, v)) @ q) (length (p @ attr_entry (k, v)))
       (AList.update k v m) = Inr (pos, m')"
    by blast
  have upd: "AList.update k v m = m @ [(k, v)]"
    using fresh by (simp add: update_fresh map_of_eq_None_iff)
  obtain es q' where "q = concat (map attr_entry es) @ q'" "m' = AList.update k v m @ es"
    "length es = n" "pos = length (p @ attr_entry (k, v)) + length (concat (map attr_entry es))"
    "\<forall>kv \<in> set es. entry_ok kv" "go_map m'"
    using Suc.IH [OF _ rest] Suc.prems(3) by auto
  then show ?case
    using Suc.prems(1) [of "(k, v) # es" q'] r ok upd by simp
qed

lemma decodeAttributes_Inr_iff:
  "decodeAttributes b = Inr m \<longleftrightarrow>
     b = attr_block m \<and> go_map m \<and> (\<forall>kv \<in> set m. entry_ok kv) \<and> length m \<le> maxAttributeCount"
proof
  assume d: "decodeAttributes b = Inr m"
  then have l: "4 \<le> length b" by (auto simp: decodeAttributes_def split: if_splits)
  have "go_slice b 0 4 = Inr (take 4 b)" using l by (simp add: go_slice_def)
  moreover obtain c where c: "Uint32 (take 4 b) = Inr c" using Uint32_ok [of "take 4 b"] l by auto
  ultimately have cnt: "unat c \<le> maxAttributeCount"
    and loop: "decodeAttributes_loop (unat c) b 4 [] = Inr (length b, m)"
    using d l by (auto simp: decodeAttributes_def bindE_Inr_iff split: if_splits prod.splits)
  have tb: "take 4 b = PutUint32 c" using Uint32_Inr [OF c] l by simp
  have nil: "go_map ([] :: attributes)" by simp
  have lp: "decodeAttributes_loop (unat c) (take 4 b @ drop 4 b) (length (take 4 b)) [] = Inr (length b, m)"
    using loop l by simp
  obtain es q where inv: "drop 4 b = concat (map attr_entry es) @ q" "m = [] @ es" "length es = unat c"
    "length b = length (take 4 b) + length (concat (map attr_entry es))"
    "\<forall>kv \<in> set es. entry_ok kv" "go_map m"
    by (rule decodeAttributes_loop_inv [OF lp nil])
  have "length (take 4 b) = 4" using l by simp
  moreover have "length b - 4 = length (concat (map attr_entry es)) + length q"
    using arg_cong [OF inv(1), of length] by (simp only: length_drop length_append)
  ultimately have "length q = 0" using inv(4) l by linarith
  with inv(1,2) have "b = PutUint32 c @ concat (map attr_entry m)"
    using append_take_drop_id [of 4 b] tb by simp
  with inv(2,3,5,6) cnt show "b = attr_block m \<and> go_map m \<and> (\<forall>kv \<in> set m. entry_ok kv) \<and> length m \<le> maxAttributeCount"
    by (simp add: attr_block_def)
qed (auto intro: decodeAttributes_attr_block)

section \<open>No slice expression of the decoder is out of range\<close>

lemma decodeAttributes_loop_no_panic:
  "pos \<le> length buf \<Longrightarrow> decodeAttributes_loop n buf pos m \<noteq> Inl Panic"
proof (induction n arbitrary: pos m)
  case (Suc n)
  show ?case
  proof (cases "length buf - pos < 6")
    case False
    have "2 \<le> length (drop pos buf)" "4 \<le> length (drop (pos + 2) buf)" using False by simp_all
    then obtain kl vl where "Uint16 (drop pos buf) = Inr kl" "Uint32 (drop (pos + 2) buf) = Inr vl"
      using Uint16_ok Uint32_ok by blast
    then show ?thesis
      using False Suc.prems
      by (auto simp: Let_def go_slice_def add.assoc intro!: Suc.IH)
  qed simp
qed simp

lemma decodeAttributes_no_panic: "decodeAttributes b \<noteq> Inl Panic"
proof (cases "length b < 4")
  case False
  then obtain c where "Uint32 (take 4 b) = Inr c" using Uint32_ok [of "take 4 b"] by auto
  then show ?thesis
    using False decodeAttributes_loop_no_panic [of 4 b "unat c" "[]"]
    by (auto simp: decodeAttributes_def go_slice_def bindE_iffs split: prod.splits if_splits)
qed (simp add: decodeAttributes_def)

section \<open>Properties\<close>

lemma encodeAttributes_scan_errors:
  "encodeAttributes_scan m t ks = Inl e \<Longrightarrow>
     e = ErrInvalidAttribute \<or> (\<exists>msg. e = Wrap msg [ErrAttributesTooLarge])"
  by (induction m t ks rule: encodeAttributes_scan.induct) (auto simp: Let_def split: if_splits)

lemma encodeAttributes_invalid:
  assumes "go_map m" "\<not> valid_attributes m"
  shows "\<exists>e. encodeAttributes m = Inl e \<and> (e = ErrInvalidAttribute \<or> errors_Is e ErrAttributesTooLarge)"
proof (cases "length m = 0 \<or> length m > maxAttributeCount")
  case True
  then show ?thesis
    using assms by (auto simp: encodeAttributes_def valid_attributes_def limits attr_size_def)
next
  case False
  have "attr_size [] = 4" by (simp add: attr_size_def)
  then have "encodeAttributes_scan m 4 [] \<noteq> Inr r" for r
    using assms(2) False encodeAttributes_scan_Inr_iff [of m "[]" "[]" "fst r" "snd r"]
    by (auto simp: valid_attributes_def)
  then obtain e where e: "encodeAttributes_scan m 4 [] = Inl e"
    by (cases "encodeAttributes_scan m 4 []") auto
  then have "encodeAttributes m = Inl e" using False by (auto simp: encodeAttributes_def)
  with encodeAttributes_scan_errors [OF e] show ?thesis by auto
qed

lemma valid_attributes_entry_ok:
  assumes "valid_attributes m"
  shows "\<forall>kv \<in> set m. entry_ok kv"
  using assms attr_size_ge [of _ m] by (fastforce simp: valid_attributes_def entry_ok_def limits)

lemma valid_attributes_by_name: "go_map m \<Longrightarrow> valid_attributes (by_name m) \<longleftrightarrow> valid_attributes m"
  by (simp add: valid_attributes_def by_name_props)

lemma decodeAttributes_by_name:
  assumes "go_map m" "valid_attributes m"
  shows "decodeAttributes (attr_block (by_name m)) = Inr (by_name m)"
  using assms valid_attributes_entry_ok [of "by_name m"]
  by (intro decodeAttributes_attr_block)
    (simp_all add: valid_attributes_by_name by_name_props valid_attributes_def)

text \<open>
  C18. Attribute round trip: for every map within the limits the encoder
  succeeds, its output has exactly the computed size, and decoding it gives the
  map back, visited in name order.
\<close>

theorem attributes_roundtrip:
  assumes "go_map m" "valid_attributes m"
  shows "\<exists>b. encodeAttributes m = Inr b \<and> length b = attr_size m \<and>
    decodeAttributes b = Inr (by_name m) \<and> map_of (by_name m) = map_of m"
  using assms by (simp add: encodeAttributes_Inr_iff length_attr_block by_name_props decodeAttributes_by_name)

theorem attributes_roundtrip_witness:
  "\<exists>b. encodeAttributes [(''b'', ''1''), (''a'', '''')] = Inr b \<and> length b = 19 \<and>
    decodeAttributes b = Inr [(''a'', ''''), (''b'', ''1'')]"
  using attributes_roundtrip [of "[(''b'', ''1''), (''a'', '''')]"]
  by (auto simp: valid_attributes_def limits attr_size_def by_name_def attr_get_def)

text \<open>
  C19. Every input of the attribute encoder either is within the limits and is
  encoded, or is refused with \<^verbatim>\<open>ErrInvalidAttribute\<close> or \<^verbatim>\<open>ErrAttributesTooLarge\<close>;
  two maps with the same contents give the same bytes whatever the iteration
  order.
\<close>

theorem encodeAttributes_outcome:
  assumes "go_map m" "go_map m'" "map_of m' = map_of m"
  shows "(case encodeAttributes m of
       Inr b \<Rightarrow> valid_attributes m \<and> encodeAttributes m' = Inr b
     | Inl e \<Rightarrow> \<not> valid_attributes m \<and> (e = ErrInvalidAttribute \<or> errors_Is e ErrAttributesTooLarge))"
proof (cases "valid_attributes m")
  case True
  have same: "set m' = set m" using assms by (simp add: go_map_eq_iff)
  have "attr_size m' = attr_size m" "length m' = length m"
    using by_name_order [of m' m] assms same by (metis by_name_props(5), metis by_name_props(2))
  then have "valid_attributes m'" using True same by (simp add: valid_attributes_def)
  then show ?thesis
    using True assms same by_name_order [of m' m] encodeAttributes_Inr_iff [of m "attr_block (by_name m)"]
      encodeAttributes_Inr_iff [of m' "attr_block (by_name m')"] by simp
next
  case False
  then show ?thesis using encodeAttributes_invalid [OF assms(1)] by auto
qed

theorem encodeAttributes_outcome_witness:
  "(case encodeAttributes [(''a'', ''x''), (''b'', '''')] of
      Inr b \<Rightarrow> encodeAttributes [(''b'', ''''), (''a'', ''x'')] = Inr b | Inl e \<Rightarrow> False)"
proof -
  have "map_of [(''b'', ''''), (''a'', ''x'')] = map_of [(''a'', ''x''), (''b'', '''')]"
    by (auto simp: fun_eq_iff)
  then show ?thesis
    using encodeAttributes_outcome [of "[(''a'', ''x''), (''b'', '''')]" "[(''b'', ''''), (''a'', ''x'')]"]
    by (auto simp: valid_attributes_def limits attr_size_def split: sum.splits)
qed

text \<open>
  C20. The attribute decoder accepts exactly the blocks the format describes: a
  count of at most \<^verbatim>\<open>maxAttributeCount\<close> followed by that many entries, with
  non-empty distinct names and no byte left over. It never panics.
\<close>

theorem decodeAttributes_exact:
  "(decodeAttributes b = Inr m \<longleftrightarrow>
      b = attr_block m \<and> go_map m \<and> (\<forall>kv \<in> set m. entry_ok kv) \<and> length m \<le> maxAttributeCount)
   \<and> decodeAttributes b \<noteq> Inl Panic"
  by (simp add: decodeAttributes_Inr_iff decodeAttributes_no_panic)

theorem decodeAttributes_exact_witness:
  "decodeAttributes [1, 0, 0, 0, 1, 0, 2, 0, 0, 0, 97, 98, 99] = Inr [(''a'', ''bc'')]"
  using decodeAttributes_exact [of "[1, 0, 0, 0, 1, 0, 2, 0, 0, 0, 97, 98, 99]" "[(''a'', ''bc'')]"]
  by (simp add: attr_block_def attr_entry_def PutUint32_def PutUint16_def bytes_of_def entry_ok_def limits)

end
