(* ===== verification/Checksum.thy ===== *)
theory Checksum
  imports GoStd
begin

text \<open>
  The checksum of a stored record: \<^verbatim>\<open>crc32\<close> with the Castagnoli polynomial
  (\<^verbatim>\<open>checksumTable\<close> in \<^verbatim>\<open>log.go\<close>), in the bit-reflected form of the
  standard library. Shown here: hashing in pieces is hashing in one go, the
  update is injective in the running state, and two messages that differ only
  inside a window of at most four bytes never share a checksum.
\<close>

section \<open>Definition\<close>

definition checksumTable :: "32 word" where
  "checksumTable = 0x82F63B78"

definition crc_bit :: "32 word \<Rightarrow> 32 word" where
  "crc_bit c = (if bit c 0 then drop_bit 1 c XOR checksumTable else drop_bit 1 c)"

definition crc_bits8 :: "32 word \<Rightarrow> 32 word" where
  "crc_bits8 c =
     crc_bit (crc_bit (crc_bit (crc_bit (crc_bit (crc_bit (crc_bit (crc_bit c)))))))"

definition crc_byte :: "32 word \<Rightarrow> byte \<Rightarrow> 32 word" where
  "crc_byte c b = crc_bits8 (c XOR ucast b)"

definition crc32_Update :: "32 word \<Rightarrow> bytes \<Rightarrow> 32 word" where
  "crc32_Update crc p = NOT (foldl crc_byte (NOT crc) p)"

definition crc32_Checksum :: "bytes \<Rightarrow> 32 word" where
  "crc32_Checksum p = crc32_Update 0 p"

lemmas crc_eval = crc32_Checksum_def crc32_Update_def crc_byte_def crc_bits8_def
  crc_bit_def checksumTable_def

section \<open>Hashing in pieces\<close>

lemma crc32_Update_Nil [simp]: "crc32_Update c [] = c"
  by (simp add: crc32_Update_def)

lemma crc32_Update_append: "crc32_Update c (p @ q) = crc32_Update (crc32_Update c p) q"
  by (simp add: crc32_Update_def)

section \<open>Injectivity\<close>

lemma crc_bit_msb: "bit (crc_bit c) 31 \<longleftrightarrow> bit c 0"
  using bit_imp_le_length [of c 32]
  by (auto simp: crc_bit_def checksumTable_def bit_xor_iff bit_drop_bit_eq)

lemma drop_bit_1_inj:
  fixes c d :: "32 word"
  assumes "drop_bit 1 c = drop_bit 1 d" "bit c 0 = bit d 0"
  shows "c = d"
proof (rule bit_eqI)
  fix n
  show "bit c n = bit d n"
  proof (cases n)
    case (Suc m)
    then show ?thesis
      using arg_cong [OF assms(1), of "\<lambda>w. bit w m"] by (simp add: bit_drop_bit_eq)
  qed (use assms(2) in simp)
qed

lemma crc_bit_inj: "crc_bit c = crc_bit d \<Longrightarrow> c = d"
proof (rule drop_bit_1_inj)
  assume eq: "crc_bit c = crc_bit d"
  then show b: "bit c 0 = bit d 0" by (metis crc_bit_msb)
  have "(drop_bit 1 c XOR checksumTable) XOR checksumTable = drop_bit 1 c" for c
    by (simp add: xor.assoc)
  then show "drop_bit 1 c = drop_bit 1 d"
    using eq b by (auto simp: crc_bit_def split: if_splits) (metis)
qed

lemma crc_bits8_inj: "crc_bits8 c = crc_bits8 d \<Longrightarrow> c = d"
  by (auto simp: crc_bits8_def dest!: crc_bit_inj)

lemma xor_cancel_right: "(a XOR c = b XOR c) \<longleftrightarrow> a = (b :: 'a::len word)"
  by (metis xor.assoc xor.right_neutral xor_self_eq)

lemma xor_cancel_left: "(c XOR a = c XOR b) \<longleftrightarrow> a = (b :: 'a::len word)"
  by (metis xor.commute xor_cancel_right)

lemma crc_fold_inj: "foldl crc_byte c p = foldl crc_byte d p \<Longrightarrow> c = d"
proof (induction p arbitrary: c d)
  case (Cons b p)
  then have "crc_byte c b = crc_byte d b" by simp
  then show ?case by (auto simp: crc_byte_def xor_cancel_right dest: crc_bits8_inj)
qed simp

section \<open>Bursts of at most four bytes\<close>

lemma crc_bit_xor: "crc_bit (c XOR d) = crc_bit c XOR crc_bit d"
  by (simp add: crc_bit_def bit_xor_iff xor.assoc xor.commute xor.left_commute)

lemma crc_bits8_xor: "crc_bits8 (c XOR d) = crc_bits8 c XOR crc_bits8 d"
  by (simp add: crc_bits8_def crc_bit_xor)

lemma crc_bit_push:
  assumes "n < 31" "\<And>i. 31 - n \<le> i \<Longrightarrow> \<not> bit z i"
  shows "crc_bit (push_bit (Suc n) z) = push_bit n z"
proof -
  have "drop_bit 1 (push_bit (Suc n) z) = push_bit n z"
  proof (rule bit_word_eqI)
    fix i assume "i < LENGTH(32)"
    then have "i < 32" by simp
    then consider "i = 31" | "Suc i < 32" by linarith
    then show "bit (drop_bit 1 (push_bit (Suc n) z)) i = bit (push_bit n z) i"
    proof cases
      case 1
      then show ?thesis using assms by (simp add: bit_drop_bit_eq bit_push_bit_iff)
    next
      case 2
      then show ?thesis by (simp add: bit_drop_bit_eq bit_push_bit_iff del: push_bit_Suc)
    qed
  qed
  then show ?thesis by (simp add: crc_bit_def bit_push_bit_iff del: push_bit_Suc)
qed

lemma crc_bits8_funpow: "crc_bits8 c = (crc_bit ^^ 8) c"
  by (simp add: crc_bits8_def eval_nat_numeral)

lemma crc_bits8_push:
  assumes "\<And>i. 24 \<le> i \<Longrightarrow> \<not> bit z i"
  shows "crc_bits8 (push_bit 8 z) = z"
proof -
  have "(crc_bit ^^ k) (push_bit k z) = z" if "k \<le> 8" for k
    using that
  proof (induction k)
    case (Suc k)
    then have "crc_bit (push_bit (Suc k) z) = push_bit k z"
      by (intro crc_bit_push assms) simp_all
    with Suc show ?case by (simp add: funpow_swap1 del: push_bit_Suc)
  qed simp
  from this [of 8] show ?thesis by (simp add: crc_bits8_funpow)
qed

text \<open>The bytes of a window, laid out from the low end of one word.\<close>

fun crc_window :: "bytes \<Rightarrow> 32 word" where
  "crc_window [] = 0"
| "crc_window (b # bs) = ucast b XOR push_bit 8 (crc_window bs)"

lemma bit_crc_window: "8 * length p \<le> i \<Longrightarrow> \<not> bit (crc_window p) i"
proof (induction p arbitrary: i)
  case (Cons b p)
  have "\<not> bit (ucast b :: 32 word) i"
    using Cons.prems bit_imp_le_length [of b i] by (auto simp: bit_ucast_iff)
  moreover have "\<not> bit (crc_window p) (i - 8)"
    using Cons.prems by (intro Cons.IH) simp
  ultimately show ?case by (simp add: bit_xor_iff bit_push_bit_iff)
qed simp

lemma crc_fold_window:
  "length p \<le> 4 \<Longrightarrow> foldl crc_byte c p = (crc_bits8 ^^ length p) (c XOR crc_window p)"
proof (induction p arbitrary: c)
  case (Cons b p)
  have push: "crc_bits8 (push_bit 8 (crc_window p)) = crc_window p"
    using Cons.prems by (intro crc_bits8_push bit_crc_window) simp
  have "foldl crc_byte c (b # p) = (crc_bits8 ^^ length p) (crc_byte c b XOR crc_window p)"
    using Cons by simp
  also have "\<dots> = (crc_bits8 ^^ length p) (crc_bits8 (c XOR ucast b) XOR crc_bits8 (push_bit 8 (crc_window p)))"
    by (simp add: push crc_byte_def)
  also have "\<dots> = (crc_bits8 ^^ length (b # p)) (c XOR crc_window (b # p))"
    by (simp add: crc_bits8_xor [symmetric] xor.assoc funpow_swap1)
  finally show ?case .
qed simp

lemma crc_bits8_funpow_inj: "(crc_bits8 ^^ n) c = (crc_bits8 ^^ n) d \<Longrightarrow> c = d"
  by (induction n) (auto dest: crc_bits8_inj)

lemma crc_window_inj:
  "length p = length q \<Longrightarrow> length p \<le> 4 \<Longrightarrow> crc_window p = crc_window q \<Longrightarrow> p = q"
proof (induction p q rule: list_induct2)
  case (Cons b p c q)
  have low: "bit (crc_window (x # r)) i = bit x i" if "i < 8" for x r i
    using that by (simp add: bit_xor_iff bit_ucast_iff bit_push_bit_iff)
  have "b = c"
  proof (rule bit_word_eqI)
    fix i assume "i < LENGTH(8)"
    then have "i < 8" by simp
    then show "bit b i = bit c i" using Cons.prems(2) low by metis
  qed
  moreover have "crc_window p = crc_window q"
  proof -
    have "push_bit 8 (crc_window p) = push_bit 8 (crc_window q)"
      using Cons.prems(2) \<open>b = c\<close> by (simp add: xor_cancel_left)
    then have "crc_bits8 (push_bit 8 (crc_window p)) = crc_bits8 (push_bit 8 (crc_window q))"
      by simp
    then show ?thesis
      using Cons.prems(1) Cons.hyps by (simp add: crc_bits8_push bit_crc_window)
  qed
  ultimately show ?case using Cons by simp
qed simp

lemma crc32_Checksum_burst:
  assumes "length u = length v" "length u \<le> 4" "u \<noteq> v"
  shows "crc32_Checksum (a @ u @ z) \<noteq> crc32_Checksum (a @ v @ z)"
proof
  assume "crc32_Checksum (a @ u @ z) = crc32_Checksum (a @ v @ z)"
  then have "foldl crc_byte (foldl crc_byte (NOT 0) a) u = foldl crc_byte (foldl crc_byte (NOT 0) a) v"
    by (auto simp: crc32_Checksum_def crc32_Update_def dest: crc_fold_inj)
  with assms have "crc_window u = crc_window v"
    by (auto simp: crc_fold_window xor_cancel_left dest: crc_bits8_funpow_inj)
  with assms show False using crc_window_inj by blast
qed

end
