(* ===== verification/Records.thy ===== *)
theory Records
  imports Attributes Checksum
begin

text \<open>
  One stored record of log format version 4 or 5 (\<^verbatim>\<open>log.go\<close>): the extension
  area, the encoder inside \<^verbatim>\<open>Append\<close>, the sequential reader
  \<open>readRecordFrom\<close> used by a scan, and \<open>validateStoredRecord\<close> used by
  random access. \<open>record_bytes\<close> is the layout of the format comment, written
  as one concatenation; the encoder is shown to produce it and both readers to
  invert it.
\<close>

definition recordFixedBodySize :: nat where "recordFixedBodySize = 16"
definition recordMinimumLength :: nat where "recordMinimumLength = recordFixedBodySize + 4"
definition recordFieldsOffset :: nat where "recordFieldsOffset = 4 + recordFixedBodySize"
definition extensionHeaderSize :: nat where "extensionHeaderSize = 6"

lemmas layout = recordFixedBodySize_def recordMinimumLength_def recordFieldsOffset_def
  extensionHeaderSize_def

record logRecord =
  lr_Key :: string
  lr_Offset :: nat
  lr_Size :: "32 word"
  lr_RecordOffset :: nat
  lr_StoredSize :: nat
  lr_Deleted :: bool
  lr_Attributes :: attributes

record recordBounds =
  valueStart :: nat
  valueLen :: nat
  extensionsStart :: nat
  extensionsLen :: nat

section \<open>The extension area\<close>

function validateExtensions_from :: "bytes \<Rightarrow> nat \<Rightarrow> error + unit" where
  "validateExtensions_from ext pos =
     (if pos < length ext then
        if length ext - pos < extensionHeaderSize then Inl (Errorf ''extension entry is truncated'')
        else
          bindE (bindE (go_slice ext (pos + 2) (length ext)) Uint32) (\<lambda>len.
          let pos = pos + extensionHeaderSize in
          if unat len > length ext - pos then Inl (Errorf ''extension entry claims too many bytes'')
          else validateExtensions_from ext (pos + unat len))
      else Inr ())"
  by pat_completeness auto
termination
  by (relation "measure (\<lambda>(ext, pos). length ext - pos)") (auto simp: extensionHeaderSize_def)

declare validateExtensions_from.simps [simp del]

definition validateExtensions :: "bytes \<Rightarrow> error + unit" where
  "validateExtensions ext = validateExtensions_from ext 0"

section \<open>Encoding\<close>

text \<open>
  The part of \<^verbatim>\<open>Append\<close> that fills the buffer, whose length is the size of
  the record and whose content is left over from an earlier record. The result
  is the filled buffer and the position of the value in it.
\<close>

definition encodeRecord ::
  "bytes \<Rightarrow> nat \<Rightarrow> bytes \<Rightarrow> bytes \<Rightarrow> bool \<Rightarrow> bytes \<Rightarrow> bytes \<Rightarrow> error + (bytes \<times> nat)" where
  "encodeRecord buf recordLength keyBytes attributesBytes deleted val extensions =
     bindE (go_put buf 0 (PutUint32 (of_nat recordLength))) (\<lambda>buf.
     bindE (go_put buf 4 [0]) (\<lambda>buf.
     bindE (if deleted then go_put buf 4 [1] else Inr buf) (\<lambda>buf.
     bindE (go_put buf 5 [0, 0, 0]) (\<lambda>buf.
     bindE (go_put buf 8 (PutUint32 (of_nat (length keyBytes)))) (\<lambda>buf.
     bindE (go_put buf 12 (PutUint32 (of_nat (length attributesBytes)))) (\<lambda>buf.
     bindE (go_put buf 16 (PutUint32 (of_nat (length val)))) (\<lambda>buf.
     let pos = 20 in
     bindE (go_copy buf pos keyBytes) (\<lambda>buf.
     let pos = pos + length keyBytes in
     bindE (go_copy buf pos attributesBytes) (\<lambda>buf.
     let pos = pos + length attributesBytes; valuePos = pos in
     bindE (go_copy buf pos val) (\<lambda>buf.
     let pos = pos + length val in
     bindE (go_copy buf pos extensions) (\<lambda>buf.
     let pos = pos + length extensions in
     bindE (go_slice buf 4 pos) (\<lambda>body.
     bindE (go_put buf pos (PutUint32 (crc32_Checksum body))) (\<lambda>buf.
     Inr (buf, valuePos))))))))))))))"

section \<open>Sequential reading\<close>

definition readRecordFrom :: "reader \<Rightarrow> nat \<Rightarrow> error + (logRecord \<times> nat \<times> reader)" where
  "readRecordFrom r startPos =
     (let pos = startPos in
      bindE (io_ReadFull r 4) (\<lambda>(fixed, r).
      let pos = pos + 4 in
      bindE (Uint32 fixed) (\<lambda>recordLength.
      if unat recordLength < recordMinimumLength then Inl (Errorf ''invalid record length'')
      else
      bindE (io_ReadFull r recordFixedBodySize) (\<lambda>(fixed, r).
      let pos = pos + recordFixedBodySize;
          hash = crc32_Update 0 fixed;
          flags = fixed ! 0 in
      bindE (bindE (go_slice fixed 4 8) Uint32) (\<lambda>keyLen.
      bindE (bindE (go_slice fixed 8 12) Uint32) (\<lambda>attributesLen.
      bindE (bindE (go_slice fixed 12 16) Uint32) (\<lambda>vLen.
      if unat keyLen > maxKeySize \<or> unat attributesLen > maxAttributesSize \<or> unat vLen > maxValueSize
      then Inl (Errorf ''record field exceeds configured limit'')
      else
      let knownLength = recordMinimumLength + unat keyLen + unat attributesLen + unat vLen in
      if knownLength > unat recordLength
      then Inl (Errorf ''record length is smaller than its fields'')
      else
      let extLen = unat recordLength - knownLength in
      if extLen > maxExtensionsSize then Inl (Errorf ''extension area is too large'')
      else
      bindE (io_ReadFull r (unat keyLen)) (\<lambda>(keyBytes, r).
      let hash = crc32_Update hash keyBytes; pos = pos + unat keyLen in
      bindE (io_ReadFull r (unat attributesLen)) (\<lambda>(attributesBytes, r).
      let hash = crc32_Update hash attributesBytes; pos = pos + unat attributesLen;
          valueOffset = pos in
      bindE (io_CopyLimit r (unat vLen)) (\<lambda>(copied, r).
      let hash = crc32_Update hash copied in
      if length copied \<noteq> unat vLen then Inl ErrUnexpectedEOF
      else
      let pos = pos + unat vLen in
      bindE (io_ReadFull r extLen) (\<lambda>(extensionBytes, r).
      let hash = crc32_Update hash extensionBytes; pos = pos + extLen in
      bindE (io_ReadFull r 4) (\<lambda>(fixed, r).
      let pos = pos + 4 in
      bindE (Uint32 fixed) (\<lambda>wantChecksum.
      if hash \<noteq> wantChecksum then Inl (Errorf ''checksum mismatch'')
      else
      bindE (validateExtensions extensionBytes) (\<lambda>_.
      case decodeAttributes attributesBytes of
        Inl e \<Rightarrow> Inl (Wrap ''decode attributes'' [e])
      | Inr attrs \<Rightarrow>
          Inr (\<lparr>lr_Key = string_of keyBytes, lr_Offset = valueOffset, lr_Size = vLen,
                 lr_RecordOffset = startPos, lr_StoredSize = unat recordLength + 4,
                 lr_Deleted = bit flags 0, lr_Attributes = attrs\<rparr>, pos, r)))))))))))))))"

section \<open>Random access\<close>

definition checkStoredSize :: "nat \<Rightarrow> error + unit" where
  "checkStoredSize storedSize =
     guardE (storedSize < 4 + recordMinimumLength \<or> storedSize > 2 ^ 63 - 1)
       (Wrap ''invalid stored record size'' [ErrCorruptedData])"

definition validateStoredRecord :: "bytes \<Rightarrow> error + recordBounds" where
  "validateStoredRecord rec =
     bindE (bindE (go_slice rec 0 4) Uint32) (\<lambda>rl.
     let recordLength = unat rl in
     if recordLength + 4 \<noteq> length rec then Inl (Wrap ''record length mismatch'' [ErrCorruptedData])
     else
     bindE (bindE (go_slice rec (length rec - 4) (length rec)) Uint32) (\<lambda>wantChecksum.
     bindE (go_slice rec 4 (length rec - 4)) (\<lambda>body.
     if crc32_Checksum body \<noteq> wantChecksum then Inl (Wrap ''checksum mismatch'' [ErrCorruptedData])
     else
     bindE (bindE (go_slice rec 8 12) Uint32) (\<lambda>kl.
     bindE (bindE (go_slice rec 12 16) Uint32) (\<lambda>al.
     bindE (bindE (go_slice rec 16 20) Uint32) (\<lambda>vl.
     let known = recordMinimumLength + unat kl + unat al + unat vl in
     if known > recordLength then Inl (Wrap ''invalid record field lengths'' [ErrCorruptedData])
     else
     let vs = recordFieldsOffset + unat kl + unat al in
     Inr \<lparr>valueStart = vs, valueLen = unat vl, extensionsStart = vs + unat vl,
          extensionsLen = recordLength - known\<rparr>))))))"

section \<open>The layout of a record\<close>

text \<open>
  \<open>f\<close> are the flag byte and the three reserved bytes, then the key, the
  encoded attributes, the value and the extension area.
\<close>

definition record_head :: "bytes \<Rightarrow> bytes \<Rightarrow> bytes \<Rightarrow> bytes \<Rightarrow> bytes" where
  "record_head f k a v = f @ PutUint32 (of_nat (length k)) @ PutUint32 (of_nat (length a))
     @ PutUint32 (of_nat (length v))"

definition record_body :: "bytes \<Rightarrow> bytes \<Rightarrow> bytes \<Rightarrow> bytes \<Rightarrow> bytes \<Rightarrow> bytes" where
  "record_body f k a v x = record_head f k a v @ k @ a @ v @ x"

definition record_bytes :: "bytes \<Rightarrow> bytes \<Rightarrow> bytes \<Rightarrow> bytes \<Rightarrow> bytes \<Rightarrow> bytes" where
  "record_bytes f k a v x = PutUint32 (of_nat (length (record_body f k a v x) + 4))
     @ record_body f k a v x @ PutUint32 (crc32_Checksum (record_body f k a v x))"

definition record_fits :: "bytes \<Rightarrow> bytes \<Rightarrow> bytes \<Rightarrow> bytes \<Rightarrow> bytes \<Rightarrow> bool" where
  "record_fits f k a v x \<longleftrightarrow> length f = 4 \<and> length k \<le> maxKeySize \<and> length a \<le> maxAttributesSize
     \<and> length v \<le> maxValueSize \<and> length x \<le> maxExtensionsSize"

definition record_size :: "bytes \<Rightarrow> bytes \<Rightarrow> bytes \<Rightarrow> bytes \<Rightarrow> nat" where
  "record_size k a v x = 24 + length k + length a + length v + length x"

definition the_record :: "bytes \<Rightarrow> bytes \<Rightarrow> bytes \<Rightarrow> bytes \<Rightarrow> bytes \<Rightarrow> attributes \<Rightarrow> nat \<Rightarrow> logRecord" where
  "the_record f k a v x m p =
     \<lparr>lr_Key = string_of k, lr_Offset = p + 20 + length k + length a, lr_Size = of_nat (length v),
      lr_RecordOffset = p, lr_StoredSize = record_size k a v x,
      lr_Deleted = bit (f ! 0) 0, lr_Attributes = m\<rparr>"

lemma length_record_head: "length f = 4 \<Longrightarrow> length (record_head f k a v) = 16"
  by (simp add: record_head_def)

lemma length_record_body: "length f = 4 \<Longrightarrow> length (record_body f k a v x) + 8 = record_size k a v x"
  by (simp add: record_body_def length_record_head record_size_def)

lemma length_record_bytes: "length f = 4 \<Longrightarrow> length (record_bytes f k a v x) = record_size k a v x"
  using length_record_body [of f k a v x] by (simp add: record_bytes_def)

lemma record_fits_unat:
  assumes "record_fits f k a v x"
  shows "unat (of_nat (length k) :: 32 word) = length k" "unat (of_nat (length a) :: 32 word) = length a"
    "unat (of_nat (length v) :: 32 word) = length v"
    "unat (of_nat (length (record_body f k a v x) + 4) :: 32 word) = record_size k a v x - 4"
proof -
  have "length (record_body f k a v x) + 4 = record_size k a v x - 4"
    using assms length_record_body [of f k a v x] by (simp add: record_fits_def)
  moreover have "record_size k a v x - 4 < 4294967296"
    using assms by (simp add: record_fits_def record_size_def limits)
  ultimately show "unat (of_nat (length (record_body f k a v x) + 4) :: 32 word) = record_size k a v x - 4"
    by (simp only: unat_of_nat32)
qed (use assms in \<open>simp_all add: unat_of_nat32 record_fits_def limits\<close>)

lemma record_head_slices:
  assumes "length f = 4"
  shows "go_slice (record_head f k a v) 4 8 = Inr (PutUint32 (of_nat (length k)))"
    "go_slice (record_head f k a v) 8 12 = Inr (PutUint32 (of_nat (length a)))"
    "go_slice (record_head f k a v) 12 16 = Inr (PutUint32 (of_nat (length v)))"
    "record_head f k a v ! 0 = f ! 0"
  using assms by (simp_all add: record_head_def go_slice_def nth_append)

subsection \<open>The encoder produces it\<close>

lemma fill_step:
  assumes "take i b = p" "length b = n" "length p = i" "i + length s \<le> n"
  obtains b' where "go_put b i s = Inr b'" "go_copy b i s = Inr b'"
    "take (i + length s) b' = p @ s" "take i b' = p" "length b' = n"
proof
  show "go_put b i s = Inr (overwrite b i s)" "go_copy b i s = Inr (overwrite b i s)"
    using assms by (simp_all add: go_put_ok go_copy_ok)
  show "take (i + length s) (overwrite b i s) = p @ s" "take i (overwrite b i s) = p"
    "length (overwrite b i s) = n"
    using assms by (simp_all add: take_overwrite_eq take_overwrite_before)
qed

lemma encodeRecord_eq:
  assumes "length buf = record_size k a v x"
  shows "encodeRecord buf (record_size k a v x - 4) k a d v x =
    Inr (record_bytes [if d then 1 else 0, 0, 0, 0] k a v x, 20 + length k + length a)"
proof -
  define L where "L = PutUint32 (of_nat (record_size k a v x - 4))"
  define n where "n = record_size k a v x"
  define fl :: byte where "fl = (if d then 1 else 0)"
  let ?f = "[fl, 0, 0, 0] :: bytes"
  let ?K = "PutUint32 (of_nat (length k))" and ?A = "PutUint32 (of_nat (length a))"
    and ?V = "PutUint32 (of_nat (length v))"
  have L: "length L = 4" by (simp add: L_def)
  have n: "n = 24 + length k + length a + length v + length x" by (simp add: n_def record_size_def)
  obtain b0 where b0: "go_put buf 0 L = Inr b0" "take 4 b0 = L" "length b0 = n"
    using fill_step [of 0 buf "[]" n L] assms L n by (auto simp: n_def)
  obtain b1 where b1: "go_put b0 4 [0] = Inr b1" "take 5 b1 = L @ [0]" "take 4 b1 = L" "length b1 = n"
    using fill_step [of 4 b0 L n "[0]"] b0 L n by auto
  obtain b2 where b2: "(if d then go_put b1 4 [1] else Inr b1) = Inr b2" "take 5 b2 = L @ [fl]" "length b2 = n"
  proof (cases d)
    case True
    then show ?thesis
      using that fill_step [OF b1(3,4) L, of "[1]"] n by (auto simp: fl_def)
  next
    case False
    then show ?thesis using that [of b1] b1 by (simp add: fl_def)
  qed
  obtain b3 where b3: "go_put b2 5 [0, 0, 0] = Inr b3" "take 8 b3 = L @ ?f" "length b3 = n"
    using fill_step [of 5 b2 "L @ [fl]" n "[0, 0, 0]"] b2 L n by auto
  obtain b4 where b4: "go_put b3 8 ?K = Inr b4" "take 12 b4 = (L @ ?f) @ ?K" "length b4 = n"
    using fill_step [of 8 b3 "L @ ?f" n ?K] b3 L n by auto
  obtain b5 where b5: "go_put b4 12 ?A = Inr b5" "take 16 b5 = ((L @ ?f) @ ?K) @ ?A" "length b5 = n"
    using fill_step [OF b4(2,3), of ?A] L n by auto
  obtain b6 where b6: "go_put b5 16 ?V = Inr b6" "take 20 b6 = (((L @ ?f) @ ?K) @ ?A) @ ?V" "length b6 = n"
    using fill_step [OF b5(2,3), of ?V] L n by auto
  let ?h = "L @ record_head ?f k a v"
  have h: "take 20 b6 = ?h" "length ?h = 20" using b6 L by (simp_all add: record_head_def)
  obtain b7 where b7: "go_copy b6 20 k = Inr b7" "take (20 + length k) b7 = ?h @ k" "length b7 = n"
    using fill_step [OF h(1) b6(3) h(2), of k] n by auto
  obtain b8 where b8: "go_copy b7 (20 + length k) a = Inr b8"
    "take (20 + length k + length a) b8 = (?h @ k) @ a" "length b8 = n"
    using fill_step [OF b7(2,3), of a] h(2) n by auto
  obtain b9 where b9: "go_copy b8 (20 + length k + length a) v = Inr b9"
    "take (20 + length k + length a + length v) b9 = ((?h @ k) @ a) @ v" "length b9 = n"
    using fill_step [OF b8(2,3), of v] h(2) n by auto
  let ?p = "20 + length k + length a + length v + length x"
  obtain b10 where b10: "go_copy b9 (20 + length k + length a + length v) x = Inr b10"
    "take ?p b10 = (((?h @ k) @ a) @ v) @ x" "length b10 = n"
    using fill_step [OF b9(2,3), of x] h(2) n by auto
  have t: "take ?p b10 = L @ record_body ?f k a v x" using b10(2) by (simp add: record_body_def)
  have "take (?p - 4) (drop 4 b10) = drop 4 (take ?p b10)" by (simp only: drop_take)
  then have sl: "go_slice b10 4 ?p = Inr (record_body ?f k a v x)"
    using b10(3) n L unfolding t by (simp add: go_slice_def)
  let ?C = "PutUint32 (crc32_Checksum (record_body ?f k a v x))"
  obtain b11 where b11: "go_put b10 ?p ?C = Inr b11" "take (?p + 4) b11 = (L @ record_body ?f k a v x) @ ?C"
    "length b11 = n"
    using fill_step [OF t b10(3), of ?C] L n length_record_body [of ?f k a v x]
    by (auto simp: record_size_def)
  have "b11 = L @ record_body ?f k a v x @ ?C" using b11(2,3) n by simp
  moreover have "record_size k a v x - 4 = length (record_body ?f k a v x) + 4"
    using length_record_body [of ?f k a v x] by simp
  ultimately have "b11 = record_bytes ?f k a v x" by (simp only: record_bytes_def L_def)
  then show ?thesis
    by (simp add: encodeRecord_def Let_def b0 b1 b2 b3 b4 b5 b6 b7 b8 b9 b10 sl b11
        flip: L_def fl_def del: of_nat_diff)
qed

subsection \<open>The sequential reader inverts it\<close>

lemma crc_pieces:
  "crc32_Update (crc32_Update (crc32_Update (crc32_Update (crc32_Update 0 h) k) a) v) x
     = crc32_Checksum (h @ k @ a @ v @ x)"
  by (simp add: crc32_Checksum_def crc32_Update_append)

lemma readRecordFrom_record:
  assumes fits: "record_fits f k a v x"
  shows "readRecordFrom \<lparr>rbuf = record_bytes f k a v x @ rest, rerr = e\<rparr> p =
    bindE (validateExtensions x) (\<lambda>_.
      case decodeAttributes a of
        Inl err \<Rightarrow> Inl (Wrap ''decode attributes'' [err])
      | Inr m \<Rightarrow> Inr (the_record f k a v x m p, p + record_size k a v x, \<lparr>rbuf = rest, rerr = e\<rparr>))"
proof -
  have f: "length f = 4" using fits by (simp add: record_fits_def)
  note u = record_fits_unat [OF fits]
  define L where "L = (of_nat (length (record_body f k a v x) + 4) :: 32 word)"
  define C where "C = crc32_Checksum (record_body f k a v x)"
  define h where "h = record_head f k a v"
  have h: "length h = 16" "go_slice h 4 8 = Inr (PutUint32 (of_nat (length k)))"
    "go_slice h 8 12 = Inr (PutUint32 (of_nat (length a)))"
    "go_slice h 12 16 = Inr (PutUint32 (of_nat (length v)))" "h ! 0 = f ! 0"
    using record_head_slices [OF f] length_record_head [OF f] by (simp_all add: h_def)
  have buf: "record_bytes f k a v x @ rest = PutUint32 L @ h @ k @ a @ v @ x @ PutUint32 C @ rest"
    by (simp add: record_bytes_def record_body_def L_def C_def h_def)
  have uL: "unat L = 20 + length k + length a + length v + length x"
    using u(4) by (simp add: L_def record_size_def)
  have C: "crc32_Checksum (h @ k @ a @ v @ x) = C" by (simp add: C_def record_body_def h_def)
  have lim: "length k \<le> maxKeySize" "length a \<le> maxAttributesSize" "length v \<le> maxValueSize"
    "length x \<le> maxExtensionsSize"
    using fits by (simp_all add: record_fits_def)
  show ?thesis
    unfolding buf readRecordFrom_def
    using lim
    by (simp add: Let_def uL u(1-3) layout h crc_pieces C the_record_def record_size_def add.assoc
        cong: sum.case_cong)
qed

lemma io_ReadFull_Inr: "io_ReadFull r n = Inr (b, r') \<Longrightarrow> r = \<lparr>rbuf = b @ rbuf r', rerr = rerr r'\<rparr> \<and> length b = n"
  by (auto simp: io_ReadFull_Inr_iff)

lemma io_CopyLimit_Inr:
  "io_CopyLimit r n = Inr (b, r') \<Longrightarrow> r = \<lparr>rbuf = b @ rbuf r', rerr = rerr r'\<rparr>"
  by (auto simp: io_CopyLimit_def split: if_splits)

lemma Uint32_exact: "length b = 4 \<Longrightarrow> Uint32 b = Inr v \<Longrightarrow> b = PutUint32 v"
  using Uint32_Inr [of b v] by simp

lemma record_head_inv:
  assumes "length h = 16" "bindE (go_slice h 4 8) Uint32 = Inr kl"
    "bindE (go_slice h 8 12) Uint32 = Inr al" "bindE (go_slice h 12 16) Uint32 = Inr vl"
  shows "h = take 4 h @ PutUint32 kl @ PutUint32 al @ PutUint32 vl"
proof -
  have "PutUint32 kl = take 4 (drop 4 h)" "PutUint32 al = take 4 (drop 8 h)" "PutUint32 vl = drop 12 h"
    using assms by (auto simp: go_slice_def intro!: Uint32_exact [symmetric])
  moreover have "h = take 4 h @ take 4 (drop 4 h) @ take 4 (drop 8 h) @ drop 12 h"
    using append_take_drop_id [of 4 h] append_take_drop_id [of 4 "drop 4 h"]
      append_take_drop_id [of 4 "drop 8 h"] by simp
  ultimately show ?thesis by simp
qed

text \<open>What the reader has consumed once the checksum agrees.\<close>

lemma readRecordFrom_frame:
  assumes rd: "io_ReadFull r 4 = Inr (b1, r1)" "Uint32 b1 = Inr L" "io_ReadFull r1 16 = Inr (h, r2)"
    and sl: "go_slice h 4 8 = Inr s1" "Uint32 s1 = Inr kl" "go_slice h 8 12 = Inr s2" "Uint32 s2 = Inr al"
      "go_slice h 12 16 = Inr s3" "Uint32 s3 = Inr vl"
    and lim: "unat kl \<le> maxKeySize" "unat al \<le> maxAttributesSize" "unat vl \<le> maxValueSize"
      "20 + unat kl + unat al + unat vl \<le> unat L"
      "unat L - (20 + unat kl + unat al + unat vl) \<le> maxExtensionsSize"
    and rd2: "io_ReadFull r2 (unat kl) = Inr (k, r3)" "io_ReadFull r3 (unat al) = Inr (a, r4)"
      "io_CopyLimit r4 (unat vl) = Inr (v, r5)" "length v = unat vl"
      "io_ReadFull r5 (unat L - (20 + unat kl + unat al + unat vl)) = Inr (x, r6)"
      "io_ReadFull r6 4 = Inr (b6, r')" "Uint32 b6 = Inr C"
    and ok: "crc32_Checksum (h @ k @ a @ v @ x) = C"
  shows "record_fits (take 4 h) k a v x" "rbuf r = record_bytes (take 4 h) k a v x @ rbuf r'"
    "rerr r' = rerr r" "record_size k a v x = unat L + 4" "h ! 0 = take 4 h ! 0"
    "length k = unat kl" "length a = unat al" "length v = unat vl"
proof -
  have h16: "length h = 16" using io_ReadFull_Inr [OF rd(3)] by simp
  have "h = take 4 h @ PutUint32 kl @ PutUint32 al @ PutUint32 vl"
    using h16 sl by (intro record_head_inv) simp_all
  moreover have lens: "length k = unat kl" "length a = unat al" "length v = unat vl"
    "length x = unat L - (20 + unat kl + unat al + unat vl)"
    using io_ReadFull_Inr [OF rd2(1)] io_ReadFull_Inr [OF rd2(2)] rd2(4) io_ReadFull_Inr [OF rd2(5)]
    by simp_all
  ultimately have h: "h = record_head (take 4 h) k a v"
    by (simp add: record_head_def)
  have b1: "b1 = PutUint32 L" and b6: "b6 = PutUint32 C"
    using Uint32_exact io_ReadFull_Inr [OF rd(1)] rd(2) io_ReadFull_Inr [OF rd2(6)] rd2(7) by auto
  show "record_fits (take 4 h) k a v x"
    using lim lens h16 by (simp add: record_fits_def)
  show size: "record_size k a v x = unat L + 4" using lens lim by (simp add: record_size_def)
  have body: "record_body (take 4 h) k a v x = h @ k @ a @ v @ x"
    using h by (simp add: record_body_def)
  have "length (record_body (take 4 h) k a v x) + 4 = unat L"
    using length_record_body [of "take 4 h" k a v x] h16 size by simp
  then have "of_nat (length (record_body (take 4 h) k a v x) + 4) = L"
    by (simp only: of_nat_unat ucast_id)
  then have bytes: "record_bytes (take 4 h) k a v x = PutUint32 L @ (h @ k @ a @ v @ x) @ PutUint32 C"
    by (simp only: record_bytes_def body ok)
  have "rbuf r = b1 @ h @ k @ a @ v @ x @ b6 @ rbuf r'" and err: "rerr r' = rerr r"
    using io_ReadFull_Inr [OF rd(1)] io_ReadFull_Inr [OF rd(3)] io_ReadFull_Inr [OF rd2(1)]
      io_ReadFull_Inr [OF rd2(2)] io_CopyLimit_Inr [OF rd2(3)] io_ReadFull_Inr [OF rd2(5)]
      io_ReadFull_Inr [OF rd2(6)]
    by (metis reader.select_convs)+
  then show "rbuf r = record_bytes (take 4 h) k a v x @ rbuf r'" by (simp add: bytes b1 b6)
  show "rerr r' = rerr r" by (fact err)
  show "h ! 0 = take 4 h ! 0" by simp
qed (use io_ReadFull_Inr [OF rd2(1)] io_ReadFull_Inr [OF rd2(2)] rd2(4) in simp_all)

lemma readRecordFrom_inv:
  assumes "readRecordFrom r p = Inr (rec, n, r')"
  obtains f k a v x m where "record_fits f k a v x" "rbuf r = record_bytes f k a v x @ rbuf r'"
    "rerr r' = rerr r" "validateExtensions x = Inr ()" "decodeAttributes a = Inr m"
    "rec = the_record f k a v x m p" "n = p + record_size k a v x"
proof -
  from assms obtain b1 r1 L h r2 s1 kl s2 al s3 vl k r3 a r4 v r5 x r6 b6 C m where
    rd: "io_ReadFull r 4 = Inr (b1, r1)" "Uint32 b1 = Inr L" "io_ReadFull r1 16 = Inr (h, r2)"
    and sl: "go_slice h 4 8 = Inr s1" "Uint32 s1 = Inr kl" "go_slice h 8 12 = Inr s2" "Uint32 s2 = Inr al"
      "go_slice h 12 16 = Inr s3" "Uint32 s3 = Inr vl"
    and lim: "unat kl \<le> maxKeySize" "unat al \<le> maxAttributesSize" "unat vl \<le> maxValueSize"
      "20 + unat kl + unat al + unat vl \<le> unat L"
      "unat L - (20 + unat kl + unat al + unat vl) \<le> maxExtensionsSize"
    and rd2: "io_ReadFull r2 (unat kl) = Inr (k, r3)" "io_ReadFull r3 (unat al) = Inr (a, r4)"
      "io_CopyLimit r4 (unat vl) = Inr (v, r5)" "length v = unat vl"
      "io_ReadFull r5 (unat L - (20 + unat kl + unat al + unat vl)) = Inr (x, r6)"
      "io_ReadFull r6 4 = Inr (b6, r')" "Uint32 b6 = Inr C"
    and ok: "crc32_Checksum (h @ k @ a @ v @ x) = C"
    and dec: "validateExtensions x = Inr ()" "decodeAttributes a = Inr m"
    and rec: "rec = \<lparr>lr_Key = string_of k, lr_Offset = p + 4 + 16 + unat kl + unat al, lr_Size = vl,
                 lr_RecordOffset = p, lr_StoredSize = unat L + 4,
                 lr_Deleted = bit (h ! 0) 0, lr_Attributes = m\<rparr>"
    and n: "n = p + 4 + 16 + unat kl + unat al + unat vl + (unat L - (20 + unat kl + unat al + unat vl)) + 4"
    by (auto simp: readRecordFrom_def Let_def bindE_Inr_iff layout crc_pieces not_less
        split: if_splits sum.splits)
  note fr = readRecordFrom_frame [OF rd sl lim rd2 ok]
  have eq: "rec = the_record (take 4 h) k a v x m p" "n = p + record_size k a v x"
    using rec n lim(4) fr(4,6-8) by (simp_all add: the_record_def)
  show thesis by (rule that [OF fr(1-3) dec eq])
qed

text \<open>
  An error other than those of a short input, once the input holds as many
  bytes as the length field announces: the reader reports a malformed record,
  or it has read a frame with a correct checksum and rejects its attributes.
\<close>

lemma validateExtensions_from_errors:
  "validateExtensions_from ext pos = Inl e \<Longrightarrow> \<exists>msg. e = Errorf msg"
proof (induction ext pos rule: validateExtensions_from.induct)
  case (1 ext pos)
  show ?case
  proof (cases "pos < length ext \<and> \<not> length ext - pos < extensionHeaderSize")
    case True
    then have "6 \<le> length ext - pos" by (simp add: extensionHeaderSize_def)
    then have "4 \<le> length (drop (pos + 2) ext)" by simp
    then obtain l where "Uint32 (drop (pos + 2) ext) = Inr l" using Uint32_ok by blast
    then show ?thesis
      using True "1.prems" "1.IH" [of "pos + extensionHeaderSize" l]
      by (auto simp: validateExtensions_from.simps [of ext pos] go_slice_def Let_def
          extensionHeaderSize_def split: if_splits)
  next
    case False
    then show ?thesis
      using "1.prems" by (auto simp: validateExtensions_from.simps [of ext pos] split: if_splits)
  qed
qed

lemma validateExtensions_errors: "validateExtensions ext = Inl e \<Longrightarrow> \<exists>msg. e = Errorf msg"
  by (simp add: validateExtensions_def validateExtensions_from_errors)

subsection \<open>A torn record\<close>

text \<open>The two errors a scan takes for an incomplete trailing record.\<close>

definition torn :: "error + 'a \<Rightarrow> bool" where
  "torn res \<longleftrightarrow> res = Inl EOF \<or> res = Inl ErrUnexpectedEOF"

lemma torn_simps [simp]:
  "torn (Inl EOF)" "torn (Inl ErrUnexpectedEOF)" "\<not> torn (Inr x)"
  by (simp_all add: torn_def)

text \<open>
  What a reader may report when the input ends, with the error \<open>e\<close>, inside
  what it wants to read: an incomplete record at the end of the file, and any
  other error of the input as it is.
\<close>

definition cut_short :: "error \<Rightarrow> error + 'a \<Rightarrow> bool" where
  "cut_short e res \<longleftrightarrow> (if e = EOF then torn res else res = Inl e)"

lemma cut_simps [simp]: "cut_short e (Inl e)" "\<not> cut_short e (Inr x)" "cut_short EOF = torn" "cut_short e (Inl ErrUnexpectedEOF) \<longleftrightarrow> e = EOF \<or> e = ErrUnexpectedEOF"
  by (auto simp: cut_short_def fun_eq_iff)

lemma cut_ReadFull:
  assumes "n = length b"
  shows "cut_short e (bindE (io_ReadFull \<lparr>rbuf = take m (b @ c), rerr = e\<rparr> n) g) \<longleftrightarrow>
    (n \<le> m \<longrightarrow> cut_short e (g (b, \<lparr>rbuf = take (m - n) c, rerr = e\<rparr>)))"
proof (cases "n \<le> m")
  case True
  then have "take m (b @ c) = b @ take (m - n) c" using assms(1) by simp
  with assms True show ?thesis by simp
qed (use assms in \<open>auto simp: io_ReadFull_def\<close>)

lemmas cut_ReadFull_last = cut_ReadFull [where c = "[]", simplified]

lemma cut_CopyLimit:
  assumes "n = length b"
  shows "cut_short e (bindE (io_CopyLimit \<lparr>rbuf = take m (b @ c), rerr = e\<rparr> n) g) \<longleftrightarrow>
    (n \<le> m \<longrightarrow> cut_short e (g (b, \<lparr>rbuf = take (m - n) c, rerr = e\<rparr>))) \<and>
    (m < n \<longrightarrow> e = EOF \<longrightarrow> cut_short e (g (take m b, \<lparr>rbuf = [], rerr = e\<rparr>)))"
proof (cases "n \<le> m")
  case True
  then have "take m (b @ c) = b @ take (m - n) c" using assms(1) by simp
  with assms True show ?thesis by simp
qed (use assms in \<open>auto simp: io_CopyLimit_def\<close>)

lemma readRecordFrom_cut:
  assumes fits: "record_fits f k a v x" and m: "m < record_size k a v x"
  shows "cut_short e (readRecordFrom \<lparr>rbuf = take m (record_bytes f k a v x), rerr = e\<rparr> p)"
proof -
  have f: "length f = 4" using fits by (simp add: record_fits_def)
  note u = record_fits_unat [OF fits]
  define L where "L = (of_nat (length (record_body f k a v x) + 4) :: 32 word)"
  define C where "C = crc32_Checksum (record_body f k a v x)"
  define h where "h = record_head f k a v"
  have h: "length h = 16" "go_slice h 4 8 = Inr (PutUint32 (of_nat (length k)))"
    "go_slice h 8 12 = Inr (PutUint32 (of_nat (length a)))"
    "go_slice h 12 16 = Inr (PutUint32 (of_nat (length v)))"
    using record_head_slices [OF f] length_record_head [OF f] by (simp_all add: h_def)
  have buf: "record_bytes f k a v x = PutUint32 L @ h @ k @ a @ v @ x @ PutUint32 C @ []"
    by (simp add: record_bytes_def record_body_def L_def C_def h_def)
  have uL: "unat L = 20 + length k + length a + length v + length x"
    using u(4) by (simp add: L_def record_size_def)
  have lim: "length k \<le> maxKeySize" "length a \<le> maxAttributesSize" "length v \<le> maxValueSize"
    "length x \<le> maxExtensionsSize"
    using fits by (simp_all add: record_fits_def)
  have no: "\<not> 4 \<le> m - (20 + length k + length a + length v + length x)"
    using m by (simp add: record_size_def)
  show ?thesis
    unfolding buf readRecordFrom_def Let_def
    using lim
    by (simp add: cut_ReadFull cut_ReadFull_last cut_CopyLimit uL u(1-3) layout h no del: take_append)
qed

lemmas readRecordFrom_torn = readRecordFrom_cut [where e = EOF, simplified]

subsection \<open>Random access inverts it\<close>

definition the_bounds :: "bytes \<Rightarrow> bytes \<Rightarrow> bytes \<Rightarrow> bytes \<Rightarrow> recordBounds" where
  "the_bounds k a v x = \<lparr>valueStart = 20 + length k + length a, valueLen = length v,
     extensionsStart = 20 + length k + length a + length v, extensionsLen = length x\<rparr>"

lemma validateStoredRecord_record:
  assumes f: "length f = 4" and sz: "record_size k a v x - 4 < 4294967296"
  shows "validateStoredRecord (record_bytes f k a v x) = Inr (the_bounds k a v x)"
proof -
  define L where "L = (of_nat (length (record_body f k a v x) + 4) :: 32 word)"
  define C where "C = crc32_Checksum (record_body f k a v x)"
  let ?K = "PutUint32 (of_nat (length k))" and ?A = "PutUint32 (of_nat (length a))"
    and ?V = "PutUint32 (of_nat (length v))"
  let ?rec = "record_bytes f k a v x"
  have b: "?rec = PutUint32 L @ record_body f k a v x @ PutUint32 C"
    "?rec = PutUint32 L @ f @ ?K @ ?A @ ?V @ k @ a @ v @ x @ PutUint32 C"
    by (simp_all add: record_bytes_def L_def C_def record_body_def record_head_def)
  have len: "length ?rec = record_size k a v x" by (rule length_record_bytes [OF f])
  have "length (record_body f k a v x) + 4 = record_size k a v x - 4"
    using length_record_body [OF f, of k a v x] by simp
  then have uL: "unat L = 20 + length k + length a + length v + length x"
    using sz by (simp only: L_def unat_of_nat32) (simp add: record_size_def)
  have u: "unat (of_nat (length k) :: 32 word) = length k" "unat (of_nat (length a) :: 32 word) = length a"
    "unat (of_nat (length v) :: 32 word) = length v"
    using sz by (simp_all add: unat_of_nat32 record_size_def)
  have sl: "go_slice ?rec 0 4 = Inr (PutUint32 L)"
    "go_slice ?rec 4 (length ?rec - 4) = Inr (record_body f k a v x)"
    "go_slice ?rec (length ?rec - 4) (length ?rec) = Inr (PutUint32 C)"
    using f len by (simp_all add: b(1) go_slice_def)
  have sl2: "go_slice ?rec 8 12 = Inr ?K" "go_slice ?rec 12 16 = Inr ?A" "go_slice ?rec 16 20 = Inr ?V"
    using f by (simp_all add: b(2) go_slice_def)
  have szL: "unat L + 4 = length ?rec" using uL len by (simp add: record_size_def)
  show ?thesis
    unfolding validateStoredRecord_def
    by (simp add: sl sl2 szL u Let_def layout the_bounds_def uL flip: C_def)
      (simp add: len record_size_def)
qed

lemma validateStoredRecord_parts:
  assumes "length l = 4" "length c = 4"
  shows "validateStoredRecord (l @ b @ c) =
    (if unat (of_nat (le_nat l) :: 32 word) \<noteq> 4 + length b
     then Inl (Wrap ''record length mismatch'' [ErrCorruptedData])
     else if crc32_Checksum b \<noteq> of_nat (le_nat c)
     then Inl (Wrap ''checksum mismatch'' [ErrCorruptedData])
     else
     bindE (bindE (go_slice (l @ b @ c) 8 12) Uint32) (\<lambda>kl.
     bindE (bindE (go_slice (l @ b @ c) 12 16) Uint32) (\<lambda>al.
     bindE (bindE (go_slice (l @ b @ c) 16 20) Uint32) (\<lambda>vl.
     let known = recordMinimumLength + unat kl + unat al + unat vl in
     if known > 4 + length b then Inl (Wrap ''invalid record field lengths'' [ErrCorruptedData])
     else
     let vs = recordFieldsOffset + unat kl + unat al in
     Inr \<lparr>valueStart = vs, valueLen = unat vl, extensionsStart = vs + unat vl,
          extensionsLen = 4 + length b - known\<rparr>))))"
proof -
  have "go_slice (l @ b @ c) 0 4 = Inr l" "go_slice (l @ b @ c) (length (l @ b @ c) - 4) (length (l @ b @ c)) = Inr c"
    "go_slice (l @ b @ c) 4 (length (l @ b @ c) - 4) = Inr b"
    using assms by (simp_all add: go_slice_def)
  moreover have "Uint32 l = Inr (of_nat (le_nat l))" "Uint32 c = Inr (of_nat (le_nat c))"
    using assms by (simp_all add: Uint32_def)
  ultimately show ?thesis
    using assms by (simp add: validateStoredRecord_def Let_def cong: if_cong)
qed

lemma of_nat_le_nat_inject:
  "length b = 4 \<Longrightarrow> length c = 4 \<Longrightarrow> (of_nat (le_nat b) :: 32 word) = of_nat (le_nat c) \<longleftrightarrow> b = c"
  using Uint32_inject [of b c] by (auto simp: Uint32_def)

lemma split_record:
  fixes R :: bytes
  assumes "8 \<le> length R"
  obtains l m c where "R = l @ m @ c" "length l = 4" "length c = 4"
proof
  show "R = take 4 R @ take (length R - 8) (drop 4 R) @ drop (length R - 8) (drop 4 R)"
    by (simp only: append_take_drop_id)
qed (use assms in simp_all)

lemma crc_burst_mismatch:
  assumes eq: "p @ u @ q = l @ m @ c" and len: "length l = 4" "length c = 4"
    and crc: "crc32_Checksum m = of_nat (le_nat c)"
    and u: "length u' = length u" "length u \<le> 4" "u' \<noteq> u"
    and win: "4 \<le> length p" "4 \<le> length q \<or> length q + length u \<le> 4"
  obtains m' c' where "p @ u' @ q = l @ m' @ c'" "length m' = length m" "length c' = 4"
    "crc32_Checksum m' \<noteq> of_nat (le_nat c')"
proof -
  define p2 where "p2 = drop 4 p"
  have "take 4 (p @ u @ q) = take 4 (l @ m @ c)" "drop 4 (p @ u @ q) = drop 4 (l @ m @ c)"
    by (simp_all only: eq)
  then have p: "p = l @ p2" and rest: "p2 @ u @ q = m @ c"
    using win(1) len append_take_drop_id [of 4 p] by (simp_all add: p2_def)
  from win(2) consider (body) "4 \<le> length q" | (tail) "length q + length u \<le> 4" by blast
  then show thesis
  proof cases
    case body
    define q2 where "q2 = take (length q - 4) q"
    have q: "q = q2 @ drop (length q - 4) q" by (simp add: q2_def)
    have "(p2 @ u @ q2) @ drop (length q - 4) q = m @ c" using rest q by simp
    then have m: "m = p2 @ u @ q2" and c: "drop (length q - 4) q = c"
      using len(2) body append_eq_append_conv [of "p2 @ u @ q2" m "drop (length q - 4) q" c]
      by simp_all
    have "crc32_Checksum (p2 @ u' @ q2) \<noteq> of_nat (le_nat c)"
      using crc32_Checksum_burst [of u' u p2 q2] u crc m by simp
    then show thesis using that [of "p2 @ u' @ q2" c] p q c m u(1) len by simp
  next
    case tail
    define p3 where "p3 = drop (length m) p2"
    have ln: "length p2 + length u + length q = length m + 4"
      using arg_cong [OF rest, of length] len(2) by simp
    have "take (length m) (p2 @ u @ q) = m" "drop (length m) (p2 @ u @ q) = c"
      using rest len(2) by simp_all
    then have m: "p2 = m @ p3" and c: "c = p3 @ u @ q"
      using ln tail append_take_drop_id [of "length m" p2] by (simp_all add: p3_def)
    have lc: "length (p3 @ u' @ q) = 4" using c u(1) len(2) by simp
    have "(of_nat (le_nat (p3 @ u' @ q)) :: 32 word) \<noteq> of_nat (le_nat c)"
      using of_nat_le_nat_inject [OF lc len(2)] c u(3) by simp
    then show thesis using that [of m "p3 @ u' @ q"] p m lc crc by simp
  qed
qed

text \<open>
  A window of at most four bytes that lies inside the length field, inside the
  checksummed area, or inside the checksum.
\<close>

lemma validateStoredRecord_burst:
  assumes ok: "validateStoredRecord (p @ u @ q) = Inr b"
    and u: "length u' = length u" "length u \<le> 4" "u' \<noteq> u"
    and win: "length p + length u \<le> 4 \<or> 4 \<le> length p \<and> (4 \<le> length q \<or> length q + length u \<le> 4)"
  shows "\<exists>msg. validateStoredRecord (p @ u' @ q) = Inl (Wrap msg [ErrCorruptedData])"
proof -
  let ?R = "p @ u @ q"
  have len8: "8 \<le> length ?R"
    using ok by (auto simp: validateStoredRecord_def bindE_Inr_iff go_slice_Inr_iff Let_def split: if_splits)
  obtain l m c where R: "?R = l @ m @ c" "length l = 4" "length c = 4"
    by (rule split_record [OF len8])
  have good: "unat (of_nat (le_nat l) :: 32 word) = 4 + length m"
    "crc32_Checksum m = of_nat (le_nat c)"
    using ok validateStoredRecord_parts [OF R(2,3), of m] R(1) by (auto split: if_splits)
  from win consider (len) "length p + length u \<le> 4"
    | (body) "4 \<le> length p" "4 \<le> length q \<or> length q + length u \<le> 4" by blast
  then show ?thesis
  proof cases
    case len
    define l' where "l' = p @ u' @ take (4 - length (p @ u)) q"
    have "take 4 ?R = l" "drop 4 ?R = m @ c" using R by simp_all
    then have l: "l = p @ u @ take (4 - length (p @ u)) q" and mc: "drop (4 - length (p @ u)) q = m @ c"
      using len by simp_all
    have "take (4 - length (p @ u)) q @ m @ c = q" by (metis mc append_take_drop_id)
    then have R': "p @ u' @ q = l' @ m @ c" "length l' = 4"
      using len len8 u(1) by (simp_all add: l'_def)
    have "(of_nat (le_nat l') :: 32 word) \<noteq> of_nat (le_nat l)"
      using of_nat_le_nat_inject [OF R'(2) R(2)] l u(3) by (simp add: l'_def)
    then have "unat (of_nat (le_nat l') :: 32 word) \<noteq> 4 + length m"
      using good(1) by (metis word_unat_eq_iff)
    then show ?thesis
      using validateStoredRecord_parts [OF R'(2) R(3), of m] unfolding R'(1) by simp
  next
    case body
    obtain m' c' where "p @ u' @ q = l @ m' @ c'" "length m' = length m" "length c' = 4"
      "crc32_Checksum m' \<noteq> of_nat (le_nat c')"
      by (rule crc_burst_mismatch [OF R good(2) u body])
    then show ?thesis
      using validateStoredRecord_parts [OF R(2), of c' m'] good(1) by simp
  qed
qed

lemma the_bounds_slices:
  assumes "length f = 4"
  shows "go_slice (record_bytes f k a v x) (valueStart (the_bounds k a v x))
      (valueStart (the_bounds k a v x) + valueLen (the_bounds k a v x)) = Inr v"
    "go_slice (record_bytes f k a v x) (extensionsStart (the_bounds k a v x))
      (extensionsStart (the_bounds k a v x) + extensionsLen (the_bounds k a v x)) = Inr x"
proof -
  let ?p = "PutUint32 (of_nat (length (record_body f k a v x) + 4)) @ record_head f k a v"
  let ?C = "PutUint32 (crc32_Checksum (record_body f k a v x))"
  have b: "record_bytes f k a v x = (?p @ k @ a) @ v @ (x @ ?C)"
    "record_bytes f k a v x = (?p @ k @ a @ v) @ x @ ?C"
    by (simp_all add: record_bytes_def record_body_def)
  show "go_slice (record_bytes f k a v x) (valueStart (the_bounds k a v x))
      (valueStart (the_bounds k a v x) + valueLen (the_bounds k a v x)) = Inr v"
    unfolding b(1) by (rule go_slice_mid) (simp_all add: the_bounds_def length_record_head assms)
  show "go_slice (record_bytes f k a v x) (extensionsStart (the_bounds k a v x))
      (extensionsStart (the_bounds k a v x) + extensionsLen (the_bounds k a v x)) = Inr x"
    unfolding b(2) by (rule go_slice_mid) (simp_all add: the_bounds_def length_record_head assms)
qed

lemma validateStoredRecord_inv:
  assumes "validateStoredRecord R = Inr bd"
  obtains f k a v x where "R = record_bytes f k a v x" "length f = 4"
    "record_size k a v x - 4 < 4294967296" "bd = the_bounds k a v x"
proof -
  from assms obtain L C b kl al vl where
    len: "unat L + 4 = length R" and b: "b = take (length R - 4 - 4) (drop 4 R)" "4 \<le> length R - 4"
    and LC: "Uint32 (take 4 R) = Inr L" "Uint32 (drop (length R - 4) R) = Inr C"
    and crc: "crc32_Checksum b = C"
    and flds: "20 \<le> length R" "Uint32 (take 4 (drop 8 R)) = Inr kl" "Uint32 (take 4 (drop 12 R)) = Inr al"
      "Uint32 (take 4 (drop 16 R)) = Inr vl"
    and fit: "20 + unat kl + unat al + unat vl \<le> unat L"
    and bd: "bd = \<lparr>valueStart = 20 + unat kl + unat al, valueLen = unat vl,
      extensionsStart = 20 + unat kl + unat al + unat vl,
      extensionsLen = unat L - (20 + unat kl + unat al + unat vl)\<rparr>"
    by (auto simp: validateStoredRecord_def bindE_Inr_iff go_slice_Inr_iff Let_def layout not_less
        split: if_splits)
  have len24: "24 \<le> length R" using len fit by linarith
  have R: "R = PutUint32 L @ b @ PutUint32 C"
  proof -
    have "take 4 R = PutUint32 L" "drop (length R - 4) R = PutUint32 C"
      using Uint32_exact LC len24 by simp_all
    moreover have "drop 4 R = b @ drop (length R - 4) R"
      using append_take_drop_id [of "length R - 4 - 4" "drop 4 R"] len24 by (simp add: b(1))
    ultimately show ?thesis by (metis append_take_drop_id)
  qed
  have lb: "length b + 8 = length R" using len24 by (simp add: b(1))
  define h where "h = take 16 b"
  have sl: "take 4 (drop 8 R) = take 4 (drop 4 h)" "take 4 (drop 12 R) = take 4 (drop 8 h)"
    "take 4 (drop 16 R) = drop 12 h"
    using lb len24 by (simp_all add: R h_def take_drop)
  have h16: "length h = 16" using lb len24 by (simp add: h_def)
  have h: "h = take 4 h @ PutUint32 kl @ PutUint32 al @ PutUint32 vl"
    using flds sl h16 by (intro record_head_inv) (simp_all add: go_slice_def)
  define k a v x where "k = take (unat kl) (drop 16 b)" and "a = take (unat al) (drop (16 + unat kl) b)"
    and "v = take (unat vl) (drop (16 + unat kl + unat al) b)"
    and "x = drop (16 + unat kl + unat al + unat vl) b"
  have lens: "length k = unat kl" "length a = unat al" "length v = unat vl"
    "length x = unat L - (20 + unat kl + unat al + unat vl)"
    using lb len fit by (simp_all add: k_def a_def v_def x_def)
  have cut: "drop i b = take n (drop i b) @ drop (i + n) b" for i n
    by (metis append_take_drop_id drop_drop add.commute)
  have "b = h @ drop 16 b" by (simp add: h_def)
  also have "drop 16 b = k @ a @ v @ x"
    using cut [of 16 "unat kl"] cut [of "16 + unat kl" "unat al"] cut [of "16 + unat kl + unat al" "unat vl"]
    by (simp only: k_def a_def v_def x_def)
  finally have body: "b = record_body (take 4 h) k a v x"
    using h lens by (simp add: record_body_def record_head_def)
  have f4: "length (take 4 h) = 4" using h16 by simp
  have "length (record_body (take 4 h) k a v x) + 4 = unat L" using lb len body by simp
  then have "of_nat (length (record_body (take 4 h) k a v x) + 4) = L"
    by (simp only: of_nat_unat ucast_id)
  then have rec: "R = record_bytes (take 4 h) k a v x"
    using R crc body by (simp only: record_bytes_def)
  have size: "record_size k a v x = unat L + 4" using lens fit by (simp add: record_size_def)
  show thesis
  proof
    show "record_size k a v x - 4 < 4294967296"
      using unsigned_less [of L, where ?'a = nat] size by simp
    show "bd = the_bounds k a v x" using bd lens by (simp add: the_bounds_def)
  qed (fact rec f4)+
qed

section \<open>Framing of the extension area\<close>

definition ext_entry :: "16 word \<times> bytes \<Rightarrow> bytes" where
  "ext_entry tp = PutUint16 (fst tp) @ PutUint32 (of_nat (length (snd tp))) @ snd tp"

lemma length_ext_entry [simp]: "length (ext_entry tp) = 6 + length (snd tp)"
  by (simp add: ext_entry_def)

lemma validateExtensions_from_step:
  assumes "length d < 4294967296"
  shows "validateExtensions_from (p @ ext_entry (t, d) @ q) (length p) =
    validateExtensions_from ((p @ ext_entry (t, d)) @ q) (length (p @ ext_entry (t, d)))"
proof -
  let ?e = "p @ ext_entry (t, d) @ q"
  have "go_slice ?e (length p + 2) (length ?e) = Inr (PutUint32 (of_nat (length d)) @ d @ q)"
    by (simp add: go_slice_def ext_entry_def)
  then show ?thesis
    using assms
    by (subst validateExtensions_from.simps)
      (simp add: Let_def extensionHeaderSize_def unat_of_nat32 add.assoc)
qed

lemma validateExtensions_from_entries:
  "\<forall>tp \<in> set es. length (snd tp) < 4294967296 \<Longrightarrow>
     validateExtensions_from (p @ concat (map ext_entry es)) (length p) = Inr ()"
proof (induction es arbitrary: p)
  case Nil
  then show ?case by (simp add: validateExtensions_from.simps)
next
  case (Cons tp es)
  then show ?case
    using validateExtensions_from_step [of "snd tp" p "fst tp" "concat (map ext_entry es)"]
      Cons.IH [of "p @ ext_entry tp"] by simp
qed

lemma validateExtensions_from_inv:
  assumes "validateExtensions_from ext pos = Inr ()" "pos \<le> length ext"
  shows "\<exists>es. drop pos ext = concat (map ext_entry es) \<and> (\<forall>tp \<in> set es. length (snd tp) < 4294967296)"
  using assms
proof (induction ext pos rule: validateExtensions_from.induct)
  case (1 ext pos)
  show ?case
  proof (cases "pos < length ext")
    case False
    then have "drop pos ext = concat (map ext_entry [])" by simp
    then show ?thesis by (metis empty_iff list.set(1))
  next
    case True
    from "1.prems" True obtain l where six: "6 \<le> length ext - pos"
      and l: "Uint32 (drop (pos + 2) ext) = Inr l" "unat l \<le> length ext - (pos + 6)"
      and rest: "validateExtensions_from ext (pos + 6 + unat l) = Inr ()"
      by (subst (asm) validateExtensions_from.simps)
        (auto simp: bindE_Inr_iff go_slice_Inr_iff Let_def extensionHeaderSize_def split: if_splits)
    have "pos + 6 + unat l \<le> length ext" using six l(2) by linarith
    then obtain es where es: "drop (pos + 6 + unat l) ext = concat (map ext_entry es)"
      "\<forall>tp \<in> set es. length (snd tp) < 4294967296"
      using "1.IH" [of "pos + 6" l] True six l rest by (auto simp: extensionHeaderSize_def)
    obtain t where t: "Uint16 (drop pos ext) = Inr t" using Uint16_ok [of "drop pos ext"] six by auto
    define d where "d = take (unat l) (drop (pos + 6) ext)"
    have ld: "length d = unat l" using l(2) six by (simp add: d_def)
    have "drop pos ext = PutUint16 t @ PutUint32 l @ drop (pos + 6) ext"
      using Uint16_Inr [OF t] Uint32_Inr [OF l(1)] by (simp add: add.commute)
    also have "drop (pos + 6) ext = d @ drop (pos + 6 + unat l) ext"
      by (simp add: d_def add.commute flip: drop_drop)
    finally have "drop pos ext = concat (map ext_entry ((t, d) # es))"
      using es(1) ld by (simp add: ext_entry_def)
    moreover have "unat l < 4294967296" using unsigned_less [of l, where ?'a = nat] by simp
    ultimately show ?thesis using es(2) ld by (metis set_ConsD snd_conv)
  qed
qed

lemma validateExtensions_iff:
  "validateExtensions ext = Inr () \<longleftrightarrow>
     (\<exists>es. ext = concat (map ext_entry es) \<and> (\<forall>tp \<in> set es. length (snd tp) < 4294967296))"
  using validateExtensions_from_entries [where p = "[]"] validateExtensions_from_inv [of ext 0]
  by (auto simp: validateExtensions_def)

section \<open>A damaged record never scans\<close>

lemma readRecordFrom_parts:
  assumes h: "length h = 16" "bindE (go_slice h 4 8) Uint32 = Inr kl"
      "bindE (go_slice h 8 12) Uint32 = Inr al" "bindE (go_slice h 12 16) Uint32 = Inr vl"
    and len: "length k = unat kl" "length a = unat al" "length v = unat vl" "length c = 4"
      "unat L = 20 + length k + length a + length v + length x"
    and crc: "crc32_Checksum (h @ k @ a @ v @ x) \<noteq> of_nat (le_nat c)"
  shows "\<exists>msg. readRecordFrom \<lparr>rbuf = PutUint32 L @ h @ k @ a @ v @ x @ c @ rest, rerr = e\<rparr> p = Inl (Errorf msg)"
proof -
  have c: "Uint32 c = Inr (of_nat (le_nat c))" using len(4) by (simp add: Uint32_def)
  show ?thesis
    unfolding readRecordFrom_def Let_def
    using len crc
    by (auto simp: h layout crc_pieces c add.assoc split: if_splits)
qed

lemma readRecordFrom_overfull:
  assumes h: "length h = 16" "bindE (go_slice h 4 8) Uint32 = Inr kl"
      "bindE (go_slice h 8 12) Uint32 = Inr al" "bindE (go_slice h 12 16) Uint32 = Inr vl"
    and big: "unat L < 20 + unat kl + unat al + unat vl"
  shows "\<exists>msg. readRecordFrom \<lparr>rbuf = PutUint32 L @ h @ rest, rerr = e\<rparr> p = Inl (Errorf msg)"
  using big by (auto simp: readRecordFrom_def Let_def h layout split: if_splits)

lemma readRecordFrom_burst:
  assumes fits: "record_fits f k a v x" and R: "record_bytes f k a v x = p @ u @ q"
    and u: "length u' = length u" "length u \<le> 4" "u' \<noteq> u"
    and win: "4 \<le> length p" "4 \<le> length q \<or> length q + length u \<le> 4"
  shows "\<exists>msg. readRecordFrom \<lparr>rbuf = (p @ u' @ q) @ rest, rerr = e\<rparr> pos = Inl (Errorf msg)"
proof -
  define L where "L = (of_nat (length (record_body f k a v x) + 4) :: 32 word)"
  have f: "length f = 4" using fits by (simp add: record_fits_def)
  let ?m = "record_body f k a v x"
  let ?c = "PutUint32 (crc32_Checksum ?m)"
  have eq: "p @ u @ q = PutUint32 L @ ?m @ ?c" using R by (simp add: record_bytes_def L_def)
  have "Uint32 ?c = Inr (of_nat (le_nat ?c))" by (simp add: Uint32_def)
  then have crc: "crc32_Checksum ?m = of_nat (le_nat ?c)" by simp
  obtain m' c' where R': "p @ u' @ q = PutUint32 L @ m' @ c'" "length m' = length ?m" "length c' = 4"
    "crc32_Checksum m' \<noteq> of_nat (le_nat c')"
    by (rule crc_burst_mismatch [OF eq _ _ crc u win]) simp_all
  have uL: "unat L = length m' + 4"
    using record_fits_unat(4) [OF fits] length_record_body [OF f, of k a v x] R'(2) by (simp add: L_def)
  have "16 \<le> length m'" using R'(2) length_record_body [OF f, of k a v x] by (simp add: record_size_def)
  define h where "h = take 16 m'"
  have h16: "length h = 16" using \<open>16 \<le> length m'\<close> by (simp add: h_def)
  have "\<exists>w. bindE (go_slice h i (i + 4)) Uint32 = Inr w" if "i + 4 \<le> 16" for i
    using that h16 by (simp add: go_slice_def Uint32_ok)
  from this [of 4] this [of 8] this [of 12] obtain kl al vl where
    w: "bindE (go_slice h 4 8) Uint32 = Inr kl" "bindE (go_slice h 8 12) Uint32 = Inr al"
      "bindE (go_slice h 12 16) Uint32 = Inr vl"
    by auto
  show ?thesis
  proof (cases "unat L < 20 + unat kl + unat al + unat vl")
    case True
    have "(p @ u' @ q) @ rest = PutUint32 L @ h @ (drop 16 m' @ c' @ rest)"
      unfolding R'(1) by (simp add: h_def)
    then show ?thesis using readRecordFrom_overfull [OF h16 w True] by (simp only:)
  next
    case False
    define k' a' v' x' where "k' = take (unat kl) (drop 16 m')"
      and "a' = take (unat al) (drop (16 + unat kl) m')"
      and "v' = take (unat vl) (drop (16 + unat kl + unat al) m')"
      and "x' = drop (16 + unat kl + unat al + unat vl) m'"
    have cut: "drop i m' = take n (drop i m') @ drop (i + n) m'" for i n
      by (metis append_take_drop_id drop_drop add.commute)
    have "drop 16 m' = k' @ a' @ v' @ x'"
      using cut [of 16 "unat kl"] cut [of "16 + unat kl" "unat al"] cut [of "16 + unat kl + unat al" "unat vl"]
      by (simp only: k'_def a'_def v'_def x'_def)
    then have m': "m' = h @ k' @ a' @ v' @ x'" by (metis append_take_drop_id h_def)
    have lens: "length k' = unat kl" "length a' = unat al" "length v' = unat vl"
      "unat L = 20 + length k' + length a' + length v' + length x'"
      using False uL by (simp_all add: k'_def a'_def v'_def x'_def)
    have "(p @ u' @ q) @ rest = PutUint32 L @ h @ k' @ a' @ v' @ x' @ c' @ rest"
      unfolding R'(1) m' by simp
    moreover have "crc32_Checksum (h @ k' @ a' @ v' @ x') \<noteq> of_nat (le_nat c')"
      using R'(4) m' by simp
    note readRecordFrom_parts [OF h16 w lens(1-3) R'(3) lens(4) this]
    ultimately show ?thesis by (simp only:)
  qed
qed

section \<open>No slice expression of a reader is out of range\<close>

lemma io_errors:
  "io_ReadFull r n = Inl err \<Longrightarrow> err = rerr r \<or> err = ErrUnexpectedEOF"
  "io_CopyLimit r n = Inl err \<Longrightarrow> err = rerr r"
  by (auto simp: io_ReadFull_def io_CopyLimit_def split: if_splits)

lemma no_panic_ReadFull:
  assumes "rerr r = e" "e \<noteq> Panic"
    "\<And>b r'. length b = n \<Longrightarrow> rerr r' = e \<Longrightarrow> g (b, r') \<noteq> Inl Panic"
  shows "bindE (io_ReadFull r n) g \<noteq> Inl Panic"
  using assms by (auto simp: io_ReadFull_def)

lemma no_panic_CopyLimit:
  assumes "rerr r = e" "e \<noteq> Panic" "\<And>b r'. rerr r' = e \<Longrightarrow> g (b, r') \<noteq> Inl Panic"
  shows "bindE (io_CopyLimit r n) g \<noteq> Inl Panic"
  using assms by (auto simp: io_CopyLimit_def)

lemma no_panic_steps:
  "4 \<le> length s \<Longrightarrow> (\<And>w. g w \<noteq> Inl Panic) \<Longrightarrow> bindE (Uint32 s) g \<noteq> Inl Panic"
  "i + 4 \<le> length h \<Longrightarrow> j = i + 4 \<Longrightarrow> (\<And>w. g w \<noteq> Inl Panic) \<Longrightarrow> bindE (bindE (go_slice h i j) Uint32) g \<noteq> Inl Panic"
  "(c \<Longrightarrow> y \<noteq> Inl Panic) \<Longrightarrow> (\<not> c \<Longrightarrow> z \<noteq> Inl Panic) \<Longrightarrow> (if c then y else z) \<noteq> Inl Panic"
  "F b r \<noteq> Inl Panic \<Longrightarrow> (case (b, r) of (b, r) \<Rightarrow> F b r) \<noteq> Inl Panic"
  "(\<And>w. g' w \<noteq> Inl Panic) \<Longrightarrow> bindE (validateExtensions ext) g' \<noteq> Inl Panic"
  by (auto simp: Uint32_def go_slice_def bindE_iffs dest: validateExtensions_errors)

lemma readRecordFrom_no_panic:
  assumes "rerr r \<noteq> Panic"
  shows "readRecordFrom r p \<noteq> Inl Panic"
  unfolding readRecordFrom_def Let_def layout
  by (intro no_panic_ReadFull [where e = "rerr r"] no_panic_CopyLimit [where e = "rerr r"] no_panic_steps)
    (auto simp: assms split: sum.split)

lemma validateStoredRecord_no_panic: "24 \<le> length R \<Longrightarrow> validateStoredRecord R \<noteq> Inl Panic"
proof -
  assume "24 \<le> length R"
  then show ?thesis
    by (auto simp: validateStoredRecord_def go_slice_def Uint32_def Let_def)
qed

section \<open>Properties\<close>

text \<open>The flag byte and the three reserved bytes \<^verbatim>\<open>Append\<close> writes.\<close>

abbreviation record_flags :: "bool \<Rightarrow> bytes" where
  "record_flags deleted \<equiv> [if deleted then 1 else 0, 0, 0, 0]"

lemma record_fits_size: "record_fits f k a v x \<Longrightarrow> record_size k a v x - 4 < 4294967296"
  by (simp add: record_fits_def record_size_def limits)

lemma record_flags_bit [simp]: "bit (record_flags d ! 0) 0 = d"
  by simp

text \<open>
  C21. Record round trip: the bytes the encoder writes into its reused buffer,
  whatever the buffer held, are read back by the scan as the same key, value
  position, flags and attributes, and the reader stops exactly behind them.
\<close>

theorem record_roundtrip:
  assumes "record_fits (record_flags d) k a v x" "length buf = record_size k a v x"
    "decodeAttributes a = Inr m" "validateExtensions x = Inr ()"
  shows "\<exists>r. encodeRecord buf (record_size k a v x - 4) k a d v x = Inr (r, 20 + length k + length a) \<and>
    readRecordFrom \<lparr>rbuf = r @ rest, rerr = e\<rparr> p =
      Inr (\<lparr>lr_Key = string_of k, lr_Offset = p + 20 + length k + length a,
            lr_Size = of_nat (length v), lr_RecordOffset = p, lr_StoredSize = length r,
            lr_Deleted = d, lr_Attributes = m\<rparr>, p + length r, \<lparr>rbuf = rest, rerr = e\<rparr>)"
  using assms
  by (simp add: encodeRecord_eq readRecordFrom_record the_record_def length_record_bytes)

theorem record_roundtrip_witness:
  "\<exists>r. encodeRecord (replicate 30 7) 26 [107] [0, 0, 0, 0] True [118] [] = Inr (r, 25) \<and>
    readRecordFrom \<lparr>rbuf = r @ [9], rerr = EOF\<rparr> 16 =
      Inr (\<lparr>lr_Key = ''k'', lr_Offset = 41, lr_Size = 1, lr_RecordOffset = 16, lr_StoredSize = 30,
            lr_Deleted = True, lr_Attributes = []\<rparr>, 46, \<lparr>rbuf = [9], rerr = EOF\<rparr>)"
proof -
  have "decodeAttributes [0, 0, 0, 0] = Inr []"
    by (simp add: decodeAttributes_def go_slice_def Uint32_def limits)
  moreover have "validateExtensions [] = Inr ()"
    by (simp add: validateExtensions_def validateExtensions_from.simps)
  moreover have "string_of [107] = ''k''" using string_of_bytes_of [of "''k''"] by (simp add: bytes_of_def)
  moreover have "encodeRecord (replicate 30 7) 26 [107] [0, 0, 0, 0] True [118] [] =
      Inr (record_bytes (record_flags True) [107] [0, 0, 0, 0] [118] [], 25)"
    using encodeRecord_eq [of "replicate 30 7" "[107]" "[0, 0, 0, 0]" "[118]" "[]" True]
    by (simp add: record_size_def)
  moreover have "length (record_bytes (record_flags True) [107] [0, 0, 0, 0] [118] []) = 30"
    by (simp add: length_record_bytes record_size_def)
  ultimately show ?thesis
    using record_roundtrip [of True "[107]" "[0, 0, 0, 0]" "[118]" "[]" "replicate 30 7" "[]" "[9]" EOF 16]
    by (simp add: record_fits_def record_size_def limits)
qed

text \<open>
  C22. The scan and random access agree: where the scan reads a record, the
  bytes it consumed pass \<^verbatim>\<open>validateStoredRecord\<close>, and the bounds that returns
  select the value at the offset and of the size the scan reported.
\<close>

theorem scan_agrees_with_random_access:
  assumes "readRecordFrom r p = Inr (rec, n, r')"
  shows "\<exists>bd v. n = p + lr_StoredSize rec \<and>
    rbuf r = take (lr_StoredSize rec) (rbuf r) @ rbuf r' \<and>
    checkStoredSize (lr_StoredSize rec) = Inr () \<and>
    validateStoredRecord (take (lr_StoredSize rec) (rbuf r)) = Inr bd \<and>
    lr_Offset rec = p + valueStart bd \<and> unat (lr_Size rec) = valueLen bd \<and>
    go_slice (take (lr_StoredSize rec) (rbuf r)) (valueStart bd) (valueStart bd + valueLen bd) = Inr v"
proof -
  obtain f k a v x m where fits: "record_fits f k a v x" and r: "rbuf r = record_bytes f k a v x @ rbuf r'"
    and rec: "rec = the_record f k a v x m p" "n = p + record_size k a v x"
    using readRecordFrom_inv [OF assms] by metis
  have f: "length f = 4" using fits by (simp add: record_fits_def)
  have sz: "lr_StoredSize rec = length (record_bytes f k a v x)"
    using f by (simp add: rec the_record_def length_record_bytes)
  have chk: "checkStoredSize (lr_StoredSize rec) = Inr ()"
    using fits by (simp add: checkStoredSize_def rec the_record_def record_size_def record_fits_def limits layout)
  have tk: "take (lr_StoredSize rec) (rbuf r) = record_bytes f k a v x" by (simp add: r sz)
  show ?thesis
    using validateStoredRecord_record [OF f record_fits_size [OF fits]] the_bounds_slices(1) [OF f, of k a v x]
      record_fits_unat(3) [OF fits] f
    by (intro exI [of _ "the_bounds k a v x"] exI [of _ v])
      (simp add: tk chk, simp add: rec r the_record_def length_record_bytes the_bounds_def)
qed

text \<open>A small record, and what both readers make of it, for the witnesses.\<close>

definition sample_record :: bytes where
  "sample_record = record_bytes [0, 0, 0, 0] [107] [0, 0, 0, 0] [118] []"

lemma sample_fits: "record_fits [0, 0, 0, 0] [107] [0, 0, 0, 0] [118] []"
  by (simp add: record_fits_def limits)

lemma length_sample: "length sample_record = 30"
  by (simp add: sample_record_def length_record_bytes record_size_def)

lemma sample_attributes: "decodeAttributes [0, 0, 0, 0] = Inr []"
  by (simp add: decodeAttributes_def go_slice_def Uint32_def limits)

lemma sample_scan:
  "readRecordFrom \<lparr>rbuf = sample_record @ rest, rerr = e\<rparr> p =
     Inr (the_record [0, 0, 0, 0] [107] [0, 0, 0, 0] [118] [] [] p, p + 30, \<lparr>rbuf = rest, rerr = e\<rparr>)"
  using readRecordFrom_record [OF sample_fits]
  by (simp add: sample_record_def sample_attributes validateExtensions_def validateExtensions_from.simps
      record_size_def)

lemma sample_stored: "validateStoredRecord sample_record = Inr (the_bounds [107] [0, 0, 0, 0] [118] [])"
  using validateStoredRecord_record [OF _ record_fits_size [OF sample_fits]] by (simp add: sample_record_def)

theorem scan_agrees_with_random_access_witness:
  "\<exists>bd v. validateStoredRecord sample_record = Inr bd \<and> 41 = 16 + valueStart bd \<and> valueLen bd = 1 \<and>
     go_slice sample_record (valueStart bd) (valueStart bd + valueLen bd) = Inr v"
  using scan_agrees_with_random_access [OF sample_scan [of "[]" EOF 16]] length_sample
  by (auto simp: the_record_def record_size_def)


lemma sample_split:
  "i < 30 \<Longrightarrow> sample_record = take i sample_record @ [sample_record ! i] @ drop (Suc i) sample_record"
  using id_take_nth_drop [of i sample_record] length_sample by simp




text \<open>
  C25. A torn tail is recognised: on any proper prefix of a well-formed record,
  the reader returns \<^verbatim>\<open>io.EOF\<close> or \<^verbatim>\<open>io.ErrUnexpectedEOF\<close>, which the scan repairs by
  cutting the log there.
\<close>

theorem torn_record_recognised:
  assumes "record_fits f k a v x" "m < record_size k a v x"
  shows "readRecordFrom \<lparr>rbuf = take m (record_bytes f k a v x), rerr = EOF\<rparr> p \<in> {Inl EOF, Inl ErrUnexpectedEOF}"
  using readRecordFrom_torn [OF assms] by (auto simp: torn_def)

theorem torn_record_recognised_witness:
  "readRecordFrom \<lparr>rbuf = take 29 sample_record, rerr = EOF\<rparr> 16 \<in> {Inl EOF, Inl ErrUnexpectedEOF}"
  unfolding sample_record_def by (rule torn_record_recognised [OF sample_fits]) (simp add: record_size_def)

text \<open>
  C26. The extension area is accepted exactly when it is a sequence of
  entries, each a type, a length and that many bytes.
\<close>

theorem validateExtensions_exact:
  "validateExtensions ext = Inr () \<longleftrightarrow>
     (\<exists>es. ext = concat (map ext_entry es) \<and> (\<forall>tp \<in> set es. length (snd tp) < 4294967296))"
  by (rule validateExtensions_iff)

theorem validateExtensions_exact_witness:
  "validateExtensions [7, 0, 2, 0, 0, 0, 5, 6, 8, 0, 0, 0, 0, 0] = Inr ()"
  unfolding validateExtensions_exact
  by (rule exI [of _ "[(7, [5, 6]), (8, [])]"]) (simp add: ext_entry_def PutUint16_def PutUint32_def)



end
