(* ===== verification/Legacy.thy ===== *)
theory Legacy
  imports Records
begin

text \<open>
  Records of log versions 1 to 3: the reader \<open>readLegacyRecordFrom\<close> of
  \<^verbatim>\<open>log.go\<close>, with what it uses of \<^verbatim>\<open>strconv\<close>. It reads a record front to
  back, reports a torn input on every proper prefix, and what it accepts is within
  the limits of the current format.
\<close>

section \<open>strconv\<close>

definition digit :: "nat \<Rightarrow> char" where
  "digit d = char_of (48 + d)"

fun nat_digits :: "nat \<Rightarrow> string" where
  "nat_digits n = (if n < 10 then [digit n] else nat_digits (n div 10) @ [digit (n mod 10)])"

declare nat_digits.simps [simp del]

definition FormatInt :: "int \<Rightarrow> string" where
  "FormatInt i = (if i < 0 then ''-'' @ nat_digits (nat (- i)) else nat_digits (nat i))"

definition FormatBool :: "bool \<Rightarrow> string" where
  "FormatBool b = (if b then ''true'' else ''false'')"

definition is_digit :: "char \<Rightarrow> bool" where
  "is_digit c \<longleftrightarrow> 48 \<le> (of_char c :: nat) \<and> (of_char c :: nat) \<le> 57"

definition digits_value :: "string \<Rightarrow> nat" where
  "digits_value s = foldl (\<lambda>n c. 10 * n + (of_char c - 48)) 0 s"

text \<open>
  \<^verbatim>\<open>strconv.ParseInt(s, 10, 64)\<close>: an optional sign and at least one digit, in
  the range of \<^verbatim>\<open>int64\<close>.
\<close>

definition ParseInt :: "string \<Rightarrow> error + int" where
  "ParseInt s =
     (let neg = (case s of c # _ \<Rightarrow> c = CHR ''-'' | [] \<Rightarrow> False);
          body = (case s of c # t \<Rightarrow> if c = CHR ''-'' \<or> c = CHR ''+'' then t else s | [] \<Rightarrow> s);
          v = digits_value body in
      if body = [] \<or> \<not> list_all is_digit body then Inl (Errorf ''invalid syntax'')
      else if neg then
        if v > 2 ^ 63 then Inl (Errorf ''value out of range'') else Inr (- int v)
      else if v \<ge> 2 ^ 63 then Inl (Errorf ''value out of range'')
      else Inr (int v))"

definition ParseBool :: "string \<Rightarrow> error + bool" where
  "ParseBool s =
     (if s \<in> set [''1'', ''t'', ''T'', ''TRUE'', ''true'', ''True''] then Inr True
      else if s \<in> set [''0'', ''f'', ''F'', ''FALSE'', ''false'', ''False''] then Inr False
      else Inl (Errorf ''invalid syntax''))"

lemma of_char_digit: "d < 10 \<Longrightarrow> of_char (digit d) = 48 + d"
  by (simp add: digit_def)

lemma digits_value_append: "digits_value (s @ [c]) = 10 * digits_value s + (of_char c - 48)"
  by (simp add: digits_value_def)

lemma nat_digits_props:
  "nat_digits n \<noteq> [] \<and> list_all is_digit (nat_digits n) \<and> digits_value (nat_digits n) = n"
proof (induction n rule: nat_digits.induct)
  case (1 n)
  show ?case
  proof (cases "n < 10")
    case True
    then show ?thesis
      by (simp add: nat_digits.simps [of n] is_digit_def of_char_digit digits_value_def)
  next
    case False
    then show ?thesis
      using "1.IH" by (simp add: nat_digits.simps [of n] is_digit_def of_char_digit digits_value_append)
  qed
qed

lemma hd_is_digit_not_sign:
  "list_all is_digit s \<Longrightarrow> s = c # t \<Longrightarrow> c \<noteq> CHR ''-'' \<and> c \<noteq> CHR ''+''"
  by (auto simp: is_digit_def)

lemma ParseInt_FormatInt:
  assumes "- (2 ^ 63) \<le> i" "i < 2 ^ 63"
  shows "ParseInt (FormatInt i) = Inr i"
proof -
  note p = nat_digits_props [of "nat i"] nat_digits_props [of "nat (- i)"]
  show ?thesis
  proof (cases "i < 0")
    case True
    then show ?thesis using p assms by (auto simp: ParseInt_def FormatInt_def Let_def)
  next
    case False
    obtain c t where ct: "nat_digits (nat i) = c # t" using p(1) by (cases "nat_digits (nat i)") auto
    then have "c \<noteq> CHR ''-'' \<and> c \<noteq> CHR ''+''" using p(1) hd_is_digit_not_sign by blast
    moreover have "nat i < 2 ^ 63" using assms False by (simp add: nat_less_iff)
    ultimately show ?thesis using p(1) ct False by (simp add: ParseInt_def FormatInt_def)
  qed
qed

lemma ParseBool_FormatBool [simp]: "ParseBool (FormatBool b) = Inr b"
  by (simp add: ParseBool_def FormatBool_def)

lemma ParseInt_range: "ParseInt s = Inr i \<Longrightarrow> - (2 ^ 63) \<le> i \<and> i < 2 ^ 63"
proof -
  have "int v \<le> 2 ^ 63 \<longleftrightarrow> v \<le> 2 ^ 63" "int v < 2 ^ 63 \<longleftrightarrow> v < 2 ^ 63" for v
    by (metis of_nat_le_iff of_nat_less_iff of_nat_numeral of_nat_power)+
  moreover assume "ParseInt s = Inr i"
  ultimately show ?thesis
    by (auto simp: ParseInt_def Let_def not_less not_le split: if_splits)
qed

section \<open>The legacy reader\<close>

definition legacyCategoryAttribute :: string where "legacyCategoryAttribute = ''category''"
definition legacyProviderAttribute :: string where "legacyProviderAttribute = ''provider''"
definition legacyStatusAttribute :: string where "legacyStatusAttribute = ''status''"
definition legacyNameAttribute :: string where "legacyNameAttribute = ''name''"
definition legacyTotalSizeAttribute :: string where "legacyTotalSizeAttribute = ''total_size''"
definition legacyProtocolAttribute :: string where "legacyProtocolAttribute = ''protocol''"
definition legacyBadAttribute :: string where "legacyBadAttribute = ''bad''"
definition legacyAddedOnAttribute :: string where "legacyAddedOnAttribute = ''added_on''"

lemmas legacy_names = legacyCategoryAttribute_def legacyProviderAttribute_def
  legacyStatusAttribute_def legacyNameAttribute_def legacyTotalSizeAttribute_def
  legacyProtocolAttribute_def legacyBadAttribute_def legacyAddedOnAttribute_def

text \<open>The closures of the reader; each also advances the position.\<close>

definition legacy_readU32 :: "reader \<Rightarrow> nat \<Rightarrow> error + (32 word \<times> nat \<times> reader)" where
  "legacy_readU32 r pos =
     bindE (io_ReadFull r 4) (\<lambda>(b, r). bindE (Uint32 b) (\<lambda>v. Inr (v, pos + 4, r)))"

definition legacy_readU16 :: "reader \<Rightarrow> nat \<Rightarrow> error + (16 word \<times> nat \<times> reader)" where
  "legacy_readU16 r pos =
     bindE (io_ReadFull r 2) (\<lambda>(b, r). bindE (Uint16 b) (\<lambda>v. Inr (v, pos + 2, r)))"

definition legacy_readU64 :: "reader \<Rightarrow> nat \<Rightarrow> error + (int \<times> nat \<times> reader)" where
  "legacy_readU64 r pos =
     bindE (io_ReadFull r 8) (\<lambda>(b, r). bindE (Uint64 b) (\<lambda>v. Inr (sint v, pos + 8, r)))"

definition legacy_readString :: "nat \<Rightarrow> reader \<Rightarrow> nat \<Rightarrow> error + (string \<times> nat \<times> reader)" where
  "legacy_readString n r pos =
     bindE (io_ReadFull r n) (\<lambda>(b, r). Inr (string_of b, pos + n, r))"

definition legacy_readField :: "reader \<Rightarrow> nat \<Rightarrow> error + (string \<times> nat \<times> reader)" where
  "legacy_readField r pos =
     bindE (legacy_readU16 r pos) (\<lambda>(n, pos, r). legacy_readString (unat n) r pos)"

definition readLegacyRecordFrom :: "reader \<Rightarrow> nat \<Rightarrow> 32 word \<Rightarrow> error + (logRecord \<times> nat \<times> reader)" where
  "readLegacyRecordFrom r startPos version =
     (let pos = startPos in
      bindE (legacy_readU32 r pos) (\<lambda>(keyLen, pos, r).
      if unat keyLen > maxKeySize then Inl (Errorf ''invalid key length'')
      else
      bindE (legacy_readString (unat keyLen) r pos) (\<lambda>(key, pos, r).
      bindE (legacy_readU32 r pos) (\<lambda>(vLen, pos, r).
      if unat vLen > maxValueSize then Inl (Errorf ''invalid value length'')
      else
      let valueOffset = pos in
      bindE (bufio_Discard r (unat vLen)) (\<lambda>r.
      let pos = pos + unat vLen in
      bindE (io_ReadFull r 1) (\<lambda>(fixed, r).
      let pos = pos + 1; flags = fixed ! 0 in
      bindE (legacy_readField r pos) (\<lambda>(category, pos, r).
      bindE (legacy_readField r pos) (\<lambda>(provider, pos, r).
      bindE (legacy_readField r pos) (\<lambda>(status, pos, r).
      bindE (legacy_readField r pos) (\<lambda>(name, pos, r).
      bindE (legacy_readU64 r pos) (\<lambda>(totalSize, pos, r).
      let attributes =
            [(legacyCategoryAttribute, category), (legacyProviderAttribute, provider),
             (legacyStatusAttribute, status), (legacyNameAttribute, name),
             (legacyTotalSizeAttribute, FormatInt totalSize)] in
      bindE
        (if version \<ge> 3 then
           bindE (legacy_readField r pos) (\<lambda>(protocol, pos, r).
           bindE (legacy_readU64 r pos) (\<lambda>(addedOn, pos, r).
           let attributes = AList.update legacyProtocolAttribute protocol attributes;
               attributes = AList.update legacyBadAttribute (FormatBool (bit flags 1)) attributes;
               attributes = AList.update legacyAddedOnAttribute (FormatInt addedOn) attributes in
           Inr (attributes, pos, r)))
         else Inr (attributes, pos, r)) (\<lambda>(attributes, pos, r).
      Inr (\<lparr>lr_Key = key, lr_Offset = valueOffset, lr_Size = vLen, lr_RecordOffset = startPos,
             lr_StoredSize = pos - startPos, lr_Deleted = bit flags 0,
             lr_Attributes = attributes\<rparr>, pos, r)))))))))))))"

section \<open>Framing\<close>

text \<open>
  What a step that reads from a stream promises. On success it consumed a
  block of bytes and advanced the position by its length; the outcome depends
  on those bytes alone; and on any proper prefix of them, at the end of the
  file, it reports a torn input, and any other error of the input as it is. It does not panic.
\<close>

definition framed :: "nat \<Rightarrow> (reader \<Rightarrow> error + ('a \<times> nat \<times> reader)) \<Rightarrow> bool" where
  "framed p g \<longleftrightarrow>
     (\<forall>r x n r'. g r = Inr (x, n, r') \<longrightarrow>
        (\<exists>b. rbuf r = b @ rbuf r' \<and> rerr r' = rerr r \<and> n = p + length b \<and>
           (\<forall>rest e. g \<lparr>rbuf = b @ rest, rerr = e\<rparr> = Inr (x, n, \<lparr>rbuf = rest, rerr = e\<rparr>)) \<and>
           (\<forall>m < length b. \<forall>e. cut_short e (g \<lparr>rbuf = take m b, rerr = e\<rparr>)))) \<and>
     (\<forall>r. rerr r \<noteq> Panic \<longrightarrow> g r \<noteq> Inl Panic)"

lemma framedE:
  assumes "framed p g" "g r = Inr (x, n, r')"
  obtains b where "rbuf r = b @ rbuf r'" "rerr r' = rerr r" "n = p + length b"
    "\<And>rest e. g \<lparr>rbuf = b @ rest, rerr = e\<rparr> = Inr (x, n, \<lparr>rbuf = rest, rerr = e\<rparr>)"
    "\<And>m e. m < length b \<Longrightarrow> cut_short e (g \<lparr>rbuf = take m b, rerr = e\<rparr>)"
proof -
  have "\<exists>b. rbuf r = b @ rbuf r' \<and> rerr r' = rerr r \<and> n = p + length b \<and>
      (\<forall>rest e. g \<lparr>rbuf = b @ rest, rerr = e\<rparr> = Inr (x, n, \<lparr>rbuf = rest, rerr = e\<rparr>)) \<and>
      (\<forall>m < length b. \<forall>e. cut_short e (g \<lparr>rbuf = take m b, rerr = e\<rparr>))"
    using assms unfolding framed_def by blast
  then show ?thesis using that by blast
qed

lemma framedI:
  assumes "\<And>r x n r'. g r = Inr (x, n, r') \<Longrightarrow>
        rbuf r = b r @ rbuf r' \<and> rerr r' = rerr r \<and> n = p + length (b r) \<and>
           (\<forall>rest e. g \<lparr>rbuf = b r @ rest, rerr = e\<rparr> = Inr (x, n, \<lparr>rbuf = rest, rerr = e\<rparr>)) \<and>
           (\<forall>m < length (b r). \<forall>e. cut_short e (g \<lparr>rbuf = take m (b r), rerr = e\<rparr>))"
    and "\<And>r. rerr r \<noteq> Panic \<Longrightarrow> g r \<noteq> Inl Panic"
  shows "framed p g"
  unfolding framed_def using assms by blast

lemma framed_no_panic: "framed p g \<Longrightarrow> rerr r \<noteq> Panic \<Longrightarrow> g r \<noteq> Inl Panic"
  unfolding framed_def by blast

lemma framed_return: "framed p (\<lambda>r. Inr (c, p, r))"
  by (rule framedI [where b = "\<lambda>_. []"]) auto

lemma framed_fail: "e \<noteq> Panic \<Longrightarrow> framed p (\<lambda>r. Inl e)"
  unfolding framed_def by simp

lemma framed_if: "framed p g \<Longrightarrow> framed p h \<Longrightarrow> framed p (\<lambda>r. if c then g r else h r)"
  by (cases c) simp_all

lemma cut_bind: "cut_short e m \<Longrightarrow> cut_short e (bindE m f)"
  by (auto simp: cut_short_def torn_def split: if_splits)

lemma framed_bind:
  assumes g: "framed p g" and h: "\<And>x q. framed q (h x q)"
  shows "framed p (\<lambda>r. bindE (g r) (\<lambda>(x, q, r). h x q r))"
  unfolding framed_def
proof (intro conjI allI impI)
  fix r x n r'
  assume "bindE (g r) (\<lambda>(x, q, r). h x q r) = Inr (x, n, r')"
  then obtain y q s where gy: "g r = Inr (y, q, s)" and hy: "h y q s = Inr (x, n, r')"
    by (auto simp: bindE_iffs)
  obtain b where b: "rbuf r = b @ rbuf s" "rerr s = rerr r" "q = p + length b"
    and gb: "\<And>rest e. g \<lparr>rbuf = b @ rest, rerr = e\<rparr> = Inr (y, q, \<lparr>rbuf = rest, rerr = e\<rparr>)"
    and gt: "\<And>m e. m < length b \<Longrightarrow> cut_short e (g \<lparr>rbuf = take m b, rerr = e\<rparr>)"
    using framedE [OF g gy] by metis
  obtain c where c: "rbuf s = c @ rbuf r'" "rerr r' = rerr s" "n = q + length c"
    and hc: "\<And>rest e. h y q \<lparr>rbuf = c @ rest, rerr = e\<rparr> = Inr (x, n, \<lparr>rbuf = rest, rerr = e\<rparr>)"
    and ht: "\<And>m e. m < length c \<Longrightarrow> cut_short e (h y q \<lparr>rbuf = take m c, rerr = e\<rparr>)"
    using framedE [OF h hy] by metis
  have "cut_short e (bindE (g \<lparr>rbuf = take m (b @ c), rerr = e\<rparr>) (\<lambda>(x, q, r). h x q r))"
    if m: "m < length (b @ c)" for m e
  proof (cases "m < length b")
    case True
    then show ?thesis using gt [of m e] by (simp add: cut_bind)
  next
    case False
    then have "take m (b @ c) = b @ take (m - length b) c" by simp
    with False m show ?thesis using ht [of "m - length b" e] by (simp only: gb) (simp add: less_diff_conv2)
  qed
  then show "\<exists>b. rbuf r = b @ rbuf r' \<and> rerr r' = rerr r \<and> n = p + length b \<and>
      (\<forall>rest e. bindE (g \<lparr>rbuf = b @ rest, rerr = e\<rparr>) (\<lambda>(x, q, r). h x q r) = Inr (x, n, \<lparr>rbuf = rest, rerr = e\<rparr>)) \<and>
      (\<forall>m < length b. \<forall>e. cut_short e (bindE (g \<lparr>rbuf = take m b, rerr = e\<rparr>) (\<lambda>(x, q, r). h x q r)))"
    using b c hc gb by (intro exI [of _ "b @ c"]) simp
next
  fix r :: reader
  assume r: "rerr r \<noteq> Panic"
  show "bindE (g r) (\<lambda>(x, q, r). h x q r) \<noteq> Inl Panic"
  proof (cases "g r")
    case (Inl e)
    then show ?thesis using framed_no_panic [OF g r] by simp
  next
    case (Inr a)
    obtain y q s where a: "a = (y, q, s)" by (cases a)
    have "rerr s = rerr r" using framedE [OF g, of r y q s] Inr a by metis
    then show ?thesis using framed_no_panic [OF h, of s] r Inr a by simp
  qed
qed

lemma framed_ReadFull: "framed p (\<lambda>r. bindE (io_ReadFull r n) (\<lambda>(b, r). Inr (f b, p + n, r)))"
proof (rule framedI [where b = "\<lambda>r. take n (rbuf r)"])
  have "cut_short e (io_ReadFull \<lparr>rbuf = take m b, rerr = e\<rparr> n)" if "m < n" for m b e
    using that by (auto simp: io_ReadFull_def)
  then show "rbuf r = take n (rbuf r) @ rbuf r' \<and> rerr r' = rerr r \<and> n' = p + length (take n (rbuf r)) \<and>
      (\<forall>rest e. bindE (io_ReadFull \<lparr>rbuf = take n (rbuf r) @ rest, rerr = e\<rparr> n) (\<lambda>(b, r). Inr (f b, p + n, r))
         = Inr (x, n', \<lparr>rbuf = rest, rerr = e\<rparr>)) \<and>
      (\<forall>m < length (take n (rbuf r)). \<forall>e. cut_short e (bindE (io_ReadFull \<lparr>rbuf = take m (take n (rbuf r)), rerr = e\<rparr> n)
         (\<lambda>(b, r). Inr (f b, p + n, r))))"
    if "bindE (io_ReadFull r n) (\<lambda>(b, r). Inr (f b, p + n, r)) = Inr (x, n', r')" for r x n' r'
    using that by (auto simp: bindE_iffs io_ReadFull_Inr_iff cut_bind)
qed (auto simp: bindE_iffs dest!: io_errors(1))

lemma framed_Discard: "framed p (\<lambda>r. bindE (bufio_Discard r n) (\<lambda>r. Inr ((), p + n, r)))"
  by (rule framedI [where b = "\<lambda>r. take n (rbuf r)"])
    (auto simp: bindE_iffs bufio_Discard_def split: if_splits)

lemma framed_ReadFull_bind:
  assumes "\<And>b. framed (p + n) (h b)"
  shows "framed p (\<lambda>r. bindE (io_ReadFull r n) (\<lambda>(b, r). h b r))"
proof -
  have "(\<lambda>r. bindE (io_ReadFull r n) (\<lambda>(b, r). h b r)) =
      (\<lambda>r. bindE (bindE (io_ReadFull r n) (\<lambda>(b, r). Inr (b, p + n, r))) (\<lambda>(b, q, r). if q = p + n then h b r else Inl EOF))"
    by (auto simp: bindE_def fun_eq_iff split: sum.splits)
  moreover have "framed q (\<lambda>r. if q = p + n then h b r else Inl EOF)" for q b
    using assms by (cases "q = p + n") (simp_all add: framed_fail)
  ultimately show ?thesis by (simp only: framed_bind [OF framed_ReadFull [where f = "\<lambda>b. b"],
    of "\<lambda>b q r. if q = p + n then h b r else Inl EOF"])
qed

lemma framed_Discard_bind:
  assumes "framed (p + n) h"
  shows "framed p (\<lambda>r. bindE (bufio_Discard r n) h)"
proof -
  have "(\<lambda>r. bindE (bufio_Discard r n) h) =
      (\<lambda>r. bindE (bindE (bufio_Discard r n) (\<lambda>r. Inr ((), p + n, r))) (\<lambda>(u, q, r). if q = p + n then h r else Inl EOF))"
    by (auto simp: bindE_def fun_eq_iff split: sum.splits)
  moreover have "framed q (\<lambda>r. if q = p + n then h r else Inl EOF)" for q
    using assms by (cases "q = p + n") (simp_all add: framed_fail)
  ultimately show ?thesis by (simp only: framed_bind [OF framed_Discard,
    of "\<lambda>u q r. if q = p + n then h r else Inl EOF"])
qed

lemma legacy_steps:
  "legacy_readU32 r p = bindE (io_ReadFull r 4) (\<lambda>(b, r). Inr (of_nat (le_nat b), p + 4, r))"
  "legacy_readU16 r p = bindE (io_ReadFull r 2) (\<lambda>(b, r). Inr (of_nat (le_nat b), p + 2, r))"
  "legacy_readU64 r p = bindE (io_ReadFull r 8)
     (\<lambda>(b, r). Inr (sint (of_nat (le_nat b) :: 64 word), p + 8, r))"
  "legacy_readString n r p = bindE (io_ReadFull r n) (\<lambda>(b, r). Inr (string_of b, p + n, r))"
  by (auto simp: legacy_readU32_def legacy_readU16_def legacy_readU64_def legacy_readString_def
      io_ReadFull_def Uint16_def Uint32_def Uint64_def)

lemma framed_legacy:
  "framed p (\<lambda>r. legacy_readU32 r p)" "framed p (\<lambda>r. legacy_readU16 r p)"
  "framed p (\<lambda>r. legacy_readU64 r p)" "framed p (\<lambda>r. legacy_readString n r p)"
  "framed p (\<lambda>r. legacy_readField r p)"
  unfolding legacy_readField_def legacy_steps
  by (rule framed_ReadFull framed_bind)+

lemma readLegacyRecordFrom_framed: "framed p (\<lambda>r. readLegacyRecordFrom r p version)"
  unfolding readLegacyRecordFrom_def Let_def
  by (intro framed_ReadFull_bind framed_Discard_bind framed_legacy framed_bind framed_if framed_return
      framed_fail) simp_all

section \<open>What a legacy record holds\<close>

lemma length_nat_digits: "n < 10 ^ k \<Longrightarrow> 0 < k \<Longrightarrow> length (nat_digits n) \<le> k"
proof (induction n arbitrary: k rule: nat_digits.induct)
  case (1 n)
  show ?case
  proof (cases "n < 10")
    case False
    then obtain j where k: "k = Suc j" "0 < j"
      using 1(2,3) by (cases k) (auto, metis neq0_conv power_0 mult.right_neutral not_less)
    then have "n div 10 < 10 ^ j" using 1(2) by (simp add: less_mult_imp_div_less mult.commute)
    then show ?thesis using 1(1) [OF False, of j] k False by (simp add: nat_digits.simps [of n])
  qed (use 1(3) in \<open>simp add: nat_digits.simps [of n]\<close>)
qed

lemma length_FormatInt: "length (FormatInt (sint (w :: 64 word))) \<le> 20"
proof -
  have b: "- (2 ^ 63) \<le> sint w" "sint w < 2 ^ 63" using sint_range_size [of w] by (simp_all add: word_size)
  then have "nat (sint w) < 10 ^ 19" "nat (- sint w) < 10 ^ 19" by simp_all
  then show ?thesis using length_nat_digits [of _ 19] by (fastforce simp: FormatInt_def)
qed

lemma legacy_readField_Inr:
  assumes "legacy_readField r p = Inr (x, q, r')"
  shows "p \<le> q \<and> length x \<le> 65535"
proof -
  have "unat (w :: 16 word) \<le> 65535" for w using unsigned_less [where ?'a = nat and ?'b = 16, of w] by simp
  then show ?thesis
    using assms by (auto simp: legacy_readField_def legacy_steps bindE_iffs io_ReadFull_Inr_iff)
qed

lemma legacy_readU64_Inr: "legacy_readU64 r p = Inr (i, q, r') \<Longrightarrow> p \<le> q \<and> length (FormatInt i) \<le> 20"
  using length_FormatInt by (auto simp: legacy_steps bindE_iffs io_ReadFull_Inr_iff)

lemma legacy_attributes_ok:
  fixes c pr st nm ts :: string
  assumes "length c \<le> 65535" "length pr \<le> 65535" "length st \<le> 65535" "length nm \<le> 65535" "length ts \<le> 20"
    and as: "as = [(legacyCategoryAttribute, c), (legacyProviderAttribute, pr), (legacyStatusAttribute, st),
      (legacyNameAttribute, nm), (legacyTotalSizeAttribute, ts)]"
  shows "go_map as \<and> valid_attributes as"
    "length pt \<le> 65535 \<Longrightarrow> length ao \<le> 20 \<Longrightarrow>
      as' = AList.update legacyAddedOnAttribute ao (AList.update legacyBadAttribute (FormatBool b)
        (AList.update legacyProtocolAttribute pt as)) \<Longrightarrow> go_map as' \<and> valid_attributes as'"
  using assms by (auto simp: legacy_names valid_attributes_def attr_size_def limits FormatBool_def)

lemma legacy_head_Inr:
  "legacy_readU32 r p = Inr (n, q, r') \<Longrightarrow> p \<le> q"
  "legacy_readString m r p = Inr (x, q, r') \<Longrightarrow> p \<le> q \<and> length x = m"
  by (auto simp: legacy_steps bindE_iffs io_ReadFull_Inr_iff)

lemma legacy_v3_fields_Inr:
  assumes "(if version \<ge> (3 :: 32 word) then
      bindE (legacy_readField r pos) (\<lambda>(protocol, pos, r).
      bindE (legacy_readU64 r pos) (\<lambda>(addedOn, pos, r).
      Inr (AList.update legacyAddedOnAttribute (FormatInt addedOn) (AList.update legacyBadAttribute (FormatBool b)
        (AList.update legacyProtocolAttribute protocol as)), pos, r)))
    else Inr (as, pos, r)) = Inr (as', q, r')"
    and as: "as = [(legacyCategoryAttribute, c), (legacyProviderAttribute, pr), (legacyStatusAttribute, st),
      (legacyNameAttribute, nm), (legacyTotalSizeAttribute, ts)]"
    "length c \<le> 65535" "length pr \<le> 65535" "length st \<le> 65535" "length nm \<le> 65535" "length ts \<le> 20"
  shows "pos \<le> q \<and> go_map as' \<and> valid_attributes as'"
proof (cases "version \<ge> 3")
  case True
  then obtain pt p1 r1 i p2 where *: "legacy_readField r pos = Inr (pt, p1, r1)" "legacy_readU64 r1 p1 = Inr (i, q, p2)"
    "as' = AList.update legacyAddedOnAttribute (FormatInt i) (AList.update legacyBadAttribute (FormatBool b)
        (AList.update legacyProtocolAttribute pt as))"
    using assms(1) by (auto simp: bindE_iffs)
  show ?thesis
    using legacy_readField_Inr [OF *(1)] legacy_readU64_Inr [OF *(2)] legacy_attributes_ok(2) [OF as(2-6,1) _ _ *(3)] by simp
next
  case False
  then show ?thesis using assms(1) legacy_attributes_ok(1) [OF as(2-6,1)] by simp
qed

text \<open>Elimination rules that take a chain of steps apart one at a time.\<close>

lemma bindE_steps:
  "bindE m (\<lambda>(x, q, r). f x q r) = Inr z \<Longrightarrow> (\<And>x q r. m = Inr (x, q, r) \<Longrightarrow> f x q r = Inr z \<Longrightarrow> P) \<Longrightarrow> P"
  "bindE m' (\<lambda>(b, r). g b r) = Inr z \<Longrightarrow> (\<And>b r. m' = Inr (b, r) \<Longrightarrow> g b r = Inr z \<Longrightarrow> P) \<Longrightarrow> P"
  "bindE m'' h = Inr z \<Longrightarrow> (\<And>r. m'' = Inr r \<Longrightarrow> h r = Inr z \<Longrightarrow> P) \<Longrightarrow> P"
  "(if c then Inl e else k) = Inr z \<Longrightarrow> (\<not> c \<Longrightarrow> k = Inr z \<Longrightarrow> P) \<Longrightarrow> P"
  by (auto simp: bindE_Inr_iff split: if_splits)

lemma readLegacyRecordFrom_Inr:
  assumes "readLegacyRecordFrom r p version = Inr (rec, n, r')"
  shows "p \<le> lr_Offset rec \<and> lr_Offset rec + unat (lr_Size rec) \<le> n \<and> unat (lr_Size rec) \<le> maxValueSize \<and>
    length (lr_Key rec) \<le> maxKeySize \<and> go_map (lr_Attributes rec) \<and> valid_attributes (lr_Attributes rec)"
proof -
  obtain kl p1 r1 key p2 r2 vl p3 r3 r5 c p6 r6 pr p7 r7 st p8 r8 nm p9 r9 ts p10 r10 b as p11 r11 where
    head: "legacy_readU32 r p = Inr (kl, p1, r1)" "\<not> maxKeySize < unat kl" "legacy_readString (unat kl) r1 p1 = Inr (key, p2, r2)"
      "legacy_readU32 r2 p2 = Inr (vl, p3, r3)" "\<not> maxValueSize < unat vl"
    and fields: "legacy_readField r5 (p3 + unat vl + 1) = Inr (c, p6, r6)" "legacy_readField r6 p6 = Inr (pr, p7, r7)"
      "legacy_readField r7 p7 = Inr (st, p8, r8)" "legacy_readField r8 p8 = Inr (nm, p9, r9)" "legacy_readU64 r9 p9 = Inr (ts, p10, r10)"
    and v3: "(if version \<ge> 3 then
        bindE (legacy_readField r10 p10) (\<lambda>(protocol, pos, r).
        bindE (legacy_readU64 r pos) (\<lambda>(addedOn, pos, r).
        Inr (AList.update legacyAddedOnAttribute (FormatInt addedOn) (AList.update legacyBadAttribute (FormatBool b)
          (AList.update legacyProtocolAttribute protocol [(legacyCategoryAttribute, c), (legacyProviderAttribute, pr),
            (legacyStatusAttribute, st), (legacyNameAttribute, nm), (legacyTotalSizeAttribute, FormatInt ts)])), pos, r)))
      else Inr ([(legacyCategoryAttribute, c), (legacyProviderAttribute, pr), (legacyStatusAttribute, st),
        (legacyNameAttribute, nm), (legacyTotalSizeAttribute, FormatInt ts)], p10, r10)) = Inr (as, p11, r11)"
    and rec: "n = p11" "lr_Key rec = key" "lr_Offset rec = p3" "lr_Size rec = vl" "lr_Attributes rec = as"
    using assms unfolding readLegacyRecordFrom_def Let_def
    apply -
    apply (erule bindE_steps(1), erule bindE_steps(4))
    apply (erule bindE_steps(1), erule bindE_steps(1))
    apply (erule bindE_steps(4), erule bindE_steps(3), erule bindE_steps(2))
    apply (erule bindE_steps(1))+
    subgoal premises p
      using p(15) by (intro p(1) [OF p(2-6) p(9-14)]) auto
    done
  have f: "length c \<le> 65535" "length pr \<le> 65535" "length st \<le> 65535" "length nm \<le> 65535" "length (FormatInt ts) \<le> 20"
    "p3 + unat vl \<le> p10"
    using legacy_readField_Inr [OF fields(1)] legacy_readField_Inr [OF fields(2)] legacy_readField_Inr [OF fields(3)]
      legacy_readField_Inr [OF fields(4)] legacy_readU64_Inr [OF fields(5)] by auto
  show ?thesis
    using legacy_v3_fields_Inr [OF v3 refl f(1-5)] f(6) head rec legacy_head_Inr(1) [OF head(1)] legacy_head_Inr(2) [OF head(3)]
      legacy_head_Inr(1) [OF head(4)] by auto
qed

end
