(* ===== verification/OsModel.thy ===== *)
theory OsModel
  imports GoStd
begin

text \<open>
  The operating system the code runs on, as far as the code uses it: files
  under paths, advisory locks, and the calls of \<^verbatim>\<open>os\<close> and \<^verbatim>\<open>syscall\<close> on them. A
  call may succeed, fail with an error after part of its effect, or be the call
  during which the process dies; which of these happens is read from a list of
  faults, so that a theorem for every list covers every failure and every crash.

  A file has its current content and the content that reached stable storage
  with the last \<^verbatim>\<open>fsync\<close>. Directories exist; permissions are recorded but not
  checked (a refused call is a fault). No other process touches the files.
  Files are addressed by path: the code never renames or removes a file that it
  holds open for further use.
\<close>

section \<open>State\<close>

record os_file =
  content :: bytes
  durable :: bytes
  fmode :: "9 word"

text \<open>
  \<open>Failed n\<close>: the call returns an error of the system (\<open>IOError\<close>), after \<open>n\<close>
  bytes where it transfers bytes. \<open>Dies n\<close>: the process dies in the call, after
  \<open>n\<close> bytes.
\<close>

datatype fault = Good | Failed nat | Dies nat

record world =
  files :: "path \<Rightarrow> os_file option"
  locked :: "path set"
  umask :: "9 word"
  faults :: "fault list"

text \<open>
  A computation that talks to the system; the result is \<open>None\<close> when the
  process died in it.
\<close>

type_synonym 'a io = "world \<Rightarrow> 'a option \<times> world"

definition return :: "'a \<Rightarrow> 'a io" where
  "return x w = (Some x, w)"

definition bind_io :: "'a io \<Rightarrow> ('a \<Rightarrow> 'b io) \<Rightarrow> 'b io" where
  "bind_io m f w = (case m w of (None, w) \<Rightarrow> (None, w) | (Some x, w) \<Rightarrow> f x w)"

text \<open>The call followed by \<^verbatim>\<open>if err != nil { return ..., err }\<close>.\<close>

definition try_io :: "(error + 'a) io \<Rightarrow> ('a \<Rightarrow> (error + 'b) io) \<Rightarrow> (error + 'b) io" where
  "try_io m f = bind_io m (\<lambda>r. case r of Inl e \<Rightarrow> return (Inl e) | Inr x \<Rightarrow> f x)"

text \<open>A sequence of computations whose results are ignored (\<^verbatim>\<open>_ = f()\<close>).\<close>

definition ignore_io :: "(error + 'a) io \<Rightarrow> 'b io \<Rightarrow> 'b io" where
  "ignore_io m k = bind_io m (\<lambda>_. k)"

section \<open>System calls\<close>

text \<open>
  \<open>eff\<close> is the whole effect of the call, or the error it reports in this
  state; \<open>part n\<close> is the effect it has when it is cut short after \<open>n\<close> bytes.
\<close>

definition syscall :: "(world \<Rightarrow> error + ('a \<times> world)) \<Rightarrow> (nat \<Rightarrow> world \<Rightarrow> world) \<Rightarrow> (error + 'a) io" where
  "syscall eff part w =
     (let f = (case faults w of [] \<Rightarrow> Good | f # _ \<Rightarrow> f); w = w\<lparr>faults := tl (faults w)\<rparr> in
      case f of
        Good \<Rightarrow> (case eff w of Inl e \<Rightarrow> (Some (Inl e), w) | Inr (x, w) \<Rightarrow> (Some (Inr x), w))
      | Failed n \<Rightarrow> (Some (Inl IOError), part n w)
      | Dies n \<Rightarrow> (None, part n w))"

definition set_file :: "path \<Rightarrow> os_file option \<Rightarrow> world \<Rightarrow> world" where
  "set_file p f w = w\<lparr>files := (files w)(p := f)\<rparr>"

definition with_file :: "path \<Rightarrow> (os_file \<Rightarrow> world \<Rightarrow> error + ('a \<times> world)) \<Rightarrow> world \<Rightarrow> error + ('a \<times> world)" where
  "with_file p g w = (case files w p of None \<Rightarrow> Inl ErrNotExist | Some f \<Rightarrow> g f w)"

definition no_part :: "nat \<Rightarrow> world \<Rightarrow> world" where
  "no_part n w = w"

text \<open>
  \<^verbatim>\<open>os.OpenFile\<close> with \<^verbatim>\<open>O_RDWR|O_CREATE\<close>, with \<^verbatim>\<open>O_TRUNC\<close> when \<open>trunc\<close>; a new
  file gets the mode less the umask. \<^verbatim>\<open>os.Open\<close> needs the file to exist.
\<close>

definition os_OpenFile :: "path \<Rightarrow> bool \<Rightarrow> 9 word \<Rightarrow> (error + unit) io" where
  "os_OpenFile p trunc mode = syscall (\<lambda>w. case files w p of
       None \<Rightarrow> Inr ((), set_file p (Some \<lparr>content = [], durable = [], fmode = mode AND NOT (umask w)\<rparr>) w)
     | Some f \<Rightarrow> Inr ((), if trunc then set_file p (Some (f\<lparr>content := []\<rparr>)) w else w)) no_part"

definition os_Open :: "path \<Rightarrow> (error + unit) io" where
  "os_Open p = syscall (with_file p (\<lambda>f w. Inr ((), w))) no_part"

text \<open>\<^verbatim>\<open>os.Stat\<close> and \<^verbatim>\<open>File.Stat\<close>: the size and the permission bits.\<close>

definition os_Stat :: "path \<Rightarrow> (error + (nat \<times> 9 word)) io" where
  "os_Stat p = syscall (with_file p (\<lambda>f w. Inr ((length (content f), fmode f), w))) no_part"

definition os_Rename :: "path \<Rightarrow> path \<Rightarrow> (error + unit) io" where
  "os_Rename p q = syscall (with_file p (\<lambda>f w. Inr ((), set_file q (Some f) (set_file p None w)))) no_part"

definition os_Remove :: "path \<Rightarrow> (error + unit) io" where
  "os_Remove p = syscall (with_file p (\<lambda>f w. Inr ((), set_file p None w))) no_part"

text \<open>
  \<^verbatim>\<open>File.WriteAt\<close>: a write past the end fills the gap with zero bytes. Cut
  short, it has written a prefix.
\<close>

definition write_at :: "bytes \<Rightarrow> nat \<Rightarrow> bytes \<Rightarrow> bytes" where
  "write_at c off b = take off c @ replicate (off - length c) 0 @ b @ drop (off + length b) c"

definition file_WriteAt :: "path \<Rightarrow> nat \<Rightarrow> bytes \<Rightarrow> (error + unit) io" where
  "file_WriteAt p off b = syscall
     (with_file p (\<lambda>f w. Inr ((), set_file p (Some (f\<lparr>content := write_at (content f) off b\<rparr>)) w)))
     (\<lambda>n w. case files w p of None \<Rightarrow> w
        | Some f \<Rightarrow> if n = 0 then w else set_file p (Some (f\<lparr>content := write_at (content f) off (take n b)\<rparr>)) w)"

text \<open>\<^verbatim>\<open>File.ReadAt\<close>: all \<open>n\<close> bytes, or \<open>EOF\<close> when the file ends first.\<close>

definition file_ReadAt :: "path \<Rightarrow> nat \<Rightarrow> nat \<Rightarrow> (error + bytes) io" where
  "file_ReadAt p off n = syscall (with_file p (\<lambda>f w.
     if off + n \<le> length (content f) then Inr (take n (drop off (content f)), w) else Inl EOF)) no_part"

text \<open>
  \<^verbatim>\<open>File.Seek\<close> and a buffered reader from there: the rest of the file, ending
  in \<open>EOF\<close>, or, where a read fails, a prefix of it ending in that error.
\<close>

definition file_NewReader :: "path \<Rightarrow> nat \<Rightarrow> (error + reader) io" where
  "file_NewReader p off = bind_io (syscall (with_file p (\<lambda>f w. Inr ((), w))) no_part) (\<lambda>r. case r of
       Inl e \<Rightarrow> return (Inl e)
     | Inr _ \<Rightarrow> (\<lambda>w. case files w p of
           None \<Rightarrow> (Some (Inl ErrNotExist), w)
         | Some f \<Rightarrow>
             let rest = drop off (content f); w' = w\<lparr>faults := tl (faults w)\<rparr> in
             case (case faults w of [] \<Rightarrow> Good | f # _ \<Rightarrow> f) of
               Good \<Rightarrow> (Some (Inr \<lparr>rbuf = rest, rerr = EOF\<rparr>), w')
             | Failed n \<Rightarrow> (Some (Inr \<lparr>rbuf = take n rest, rerr = IOError\<rparr>), w')
             | Dies n \<Rightarrow> (None, w')))"

definition file_Truncate :: "path \<Rightarrow> nat \<Rightarrow> (error + unit) io" where
  "file_Truncate p n = syscall (with_file p (\<lambda>f w.
     Inr ((), set_file p (Some (f\<lparr>content := take n (content f) @ replicate (n - length (content f)) 0\<rparr>)) w))) no_part"

definition file_Sync :: "path \<Rightarrow> (error + unit) io" where
  "file_Sync p = syscall (with_file p (\<lambda>f w. Inr ((), set_file p (Some (f\<lparr>durable := content f\<rparr>)) w))) no_part"

text \<open>
  Closing a handle has no effect on files, whether or not it reports an error;
  the same goes for mapping a file and for syncing a directory here.
\<close>

definition file_Close :: "(error + unit) io" where
  "file_Close = syscall (\<lambda>w. Inr ((), w)) no_part"

definition os_Mmap :: "path \<Rightarrow> nat \<Rightarrow> (error + unit) io" where
  "os_Mmap p n = syscall (with_file p (\<lambda>f w. Inr ((), w))) no_part"

definition os_Munmap :: "(error + unit) io" where
  "os_Munmap = syscall (\<lambda>w. Inr ((), w)) no_part"

definition os_SyncDir :: "path \<Rightarrow> (error + unit) io" where
  "os_SyncDir p = try_io (syscall (\<lambda>w. Inr ((), w)) no_part) (\<lambda>_. syscall (\<lambda>w. Inr ((), w)) no_part)"

definition os_Flock :: "path \<Rightarrow> (error + unit) io" where
  "os_Flock p = syscall (\<lambda>w. if p \<in> locked w then Inl ErrWouldBlock
     else Inr ((), w\<lparr>locked := insert p (locked w)\<rparr>)) no_part"

definition os_Funlock :: "path \<Rightarrow> (error + unit) io" where
  "os_Funlock p = syscall (\<lambda>w. Inr ((), w\<lparr>locked := locked w - {p}\<rparr>)) no_part"

text \<open>Closing the handle that holds a lock gives the lock up, whatever the call reports.\<close>

definition os_CloseLock :: "path \<Rightarrow> (error + unit) io" where
  "os_CloseLock p = syscall (\<lambda>w. Inr ((), w\<lparr>locked := locked w - {p}\<rparr>)) (\<lambda>n w. w\<lparr>locked := locked w - {p}\<rparr>)"

text \<open>\<^verbatim>\<open>io.Copy\<close> into an empty file; cut short, it has copied a prefix.\<close>

definition io_Copy :: "path \<Rightarrow> path \<Rightarrow> (error + unit) io" where
  "io_Copy src dst = syscall
     (with_file src (\<lambda>f. with_file dst (\<lambda>g w. Inr ((), set_file dst (Some (g\<lparr>content := content f\<rparr>)) w))))
     (\<lambda>n w. case (files w src, files w dst) of
         (Some f, Some g) \<Rightarrow> set_file dst (Some (g\<lparr>content := take n (content f)\<rparr>)) w
       | _ \<Rightarrow> w)"

section \<open>Weakest preconditions\<close>

text \<open>
  \<open>wp m Q C w\<close>: if the process survives \<open>m\<close> started in \<open>w\<close>, its result and
  the final state satisfy \<open>Q\<close>; if it dies, the state it leaves satisfies
  \<open>C\<close>.
\<close>

definition wp :: "'a io \<Rightarrow> ('a \<Rightarrow> world \<Rightarrow> bool) \<Rightarrow> (world \<Rightarrow> bool) \<Rightarrow> world \<Rightarrow> bool" where
  "wp m Q C w = (case m w of (None, w') \<Rightarrow> C w' | (Some x, w') \<Rightarrow> Q x w')"

named_theorems wp_simps \<open>weakest preconditions of the control structures\<close>

lemma wp_return [wp_simps]: "wp (return x) Q C = Q x"
  by (simp add: wp_def return_def fun_eq_iff)

lemma wp_bind [wp_simps]: "wp (bind_io m f) Q C w \<longleftrightarrow> wp m (\<lambda>x. wp (f x) Q C) C w"
  by (auto simp: wp_def bind_io_def split: prod.splits option.splits)

lemma wp_try [wp_simps]:
  "wp (try_io m f) Q C w \<longleftrightarrow>
     wp m (\<lambda>r w. case r of Inl e \<Rightarrow> Q (Inl e) w | Inr x \<Rightarrow> wp (f x) Q C w) C w"
  by (auto simp: wp_def try_io_def bind_io_def return_def split: prod.splits option.splits sum.splits)

lemma wp_ignore [wp_simps]: "wp (ignore_io m k) Q C w \<longleftrightarrow> wp m (\<lambda>_. wp k Q C) C w"
  by (simp add: ignore_io_def wp_bind)

lemma wp_mono:
  assumes "wp m Q C w" "\<And>x w. Q x w \<Longrightarrow> Q' x w" "\<And>w. C w \<Longrightarrow> C' w"
  shows "wp m Q' C' w"
  using assms by (auto simp: wp_def split: prod.splits option.splits)

lemma wp_conj: "wp m Q C w \<Longrightarrow> wp m Q' C' w \<Longrightarrow> wp m (\<lambda>x w. Q x w \<and> Q' x w) (\<lambda>w. C w \<and> C' w) w"
  by (auto simp: wp_def split: prod.splits option.splits)

lemma wp_total: "wp m Q (\<lambda>_. False) w \<Longrightarrow> \<exists>x w'. m w = (Some x, w') \<and> Q x w'"
  by (auto simp: wp_def split: prod.splits option.splits)

lemma wp_runs: "wp m Q C w \<Longrightarrow> m w = (Some x, w') \<Longrightarrow> Q x w'"
  by (simp add: wp_def)

lemma wp_dies: "wp m Q C w \<Longrightarrow> m w = (None, w') \<Longrightarrow> C w'"
  by (simp add: wp_def)

text \<open>
  A calm state has no fault ahead: every call then does what it is asked to do,
  and the state stays calm. The rules below therefore allow a failure or a crash
  only in a state that is not calm; a specification proved with them says what
  happens under failures and, for a calm state, that the operation succeeds.
\<close>

abbreviation calm :: "world \<Rightarrow> bool" where
  "calm w \<equiv> faults w = []"

definition still :: "world \<Rightarrow> fault list \<Rightarrow> bool" where
  "still w fs \<longleftrightarrow> (faults w = [] \<longrightarrow> fs = [])"

lemma still_simps [simp]: "still w (faults w)" "still w []" "still (set_file p f w) fs = still w fs"
  by (simp_all add: still_def set_file_def)

lemma still_trans [dest]: "still w fs \<Longrightarrow> still (w\<lparr>faults := fs\<rparr>) fs' \<Longrightarrow> still w fs'"
  by (simp add: still_def)

lemma still_not_calm [dest]: "still w fs \<Longrightarrow> fs \<noteq> [] \<Longrightarrow> faults w \<noteq> []"
  by (auto simp: still_def)

lemma still_noisy [simp]: "faults w \<noteq> [] \<Longrightarrow> still w fs"
  by (simp add: still_def)

lemma calm_still: "faults w = [] \<Longrightarrow> still w fs \<Longrightarrow> fs = []"
  by (simp add: still_def)

lemma wp_syscall:
  assumes "\<And>fs. still w fs \<Longrightarrow> case eff (w\<lparr>faults := fs\<rparr>) of Inl e \<Rightarrow> Q (Inl e) (w\<lparr>faults := fs\<rparr>) | Inr (x, w') \<Rightarrow> Q (Inr x) w'"
    and "\<And>fs n. \<not> calm w \<Longrightarrow> Q (Inl IOError) (part n (w\<lparr>faults := fs\<rparr>))" "\<And>fs n. \<not> calm w \<Longrightarrow> C (part n (w\<lparr>faults := fs\<rparr>))"
  shows "wp (syscall eff part) Q C w"
  using assms(1) [of "tl (faults w)"] assms(2,3) [where fs = "tl (faults w)"]
  by (cases "faults w") (auto simp: still_def wp_def syscall_def Let_def split: fault.splits list.splits sum.splits prod.splits)

lemma syscall_good:
  "faults w = [] \<Longrightarrow> syscall eff part w =
     (case eff w of Inl e \<Rightarrow> (Some (Inl e), w) | Inr (x, w') \<Rightarrow> (Some (Inr x), w'))"
proof -
  assume "faults w = []"
  then have eq: "w\<lparr>faults := []\<rparr> = w" by (cases w) simp
  show ?thesis by (simp add: syscall_def Let_def \<open>faults w = []\<close> eq)
qed

lemma set_file_simps [simp]:
  "files (set_file p f w) = (files w)(p := f)" "locked (set_file p f w) = locked w"
  "faults (set_file p f w) = faults w" "umask (set_file p f w) = umask w"
  by (simp_all add: set_file_def)

lemma set_file_faults [simp]: "(set_file p f w)\<lparr>faults := fs\<rparr> = set_file p f (w\<lparr>faults := fs\<rparr>)"
  by (simp add: set_file_def)

lemma set_file_twice [simp]: "set_file p g (set_file p f w) = set_file p g w"
  by (simp add: set_file_def)

lemma set_file_same: "files w p = f \<Longrightarrow> set_file p f w = w"
  by (cases w) (auto simp: set_file_def)

lemma faults_self [simp]: "\<exists>fs. still w fs \<and> w = w\<lparr>faults := fs\<rparr>"
  by (rule exI [of _ "faults w"]) simp

lemma no_part [simp]: "no_part n w = w"
  by (simp add: no_part_def)

text \<open>
  The rules for the calls. The state after a call differs from the one before
  it also in the faults still to come.
\<close>

named_theorems wp_calls \<open>weakest preconditions of the system calls\<close>

lemma wp_OpenFile [wp_calls]:
  assumes "\<And>fs. still w fs \<Longrightarrow> files w p = None \<Longrightarrow>
      Q (Inr ()) (set_file p (Some \<lparr>content = [], durable = [], fmode = mode AND NOT (umask w)\<rparr>) (w\<lparr>faults := fs\<rparr>))"
    and "\<And>fs f. still w fs \<Longrightarrow> files w p = Some f \<Longrightarrow>
      Q (Inr ()) (if trunc then set_file p (Some (f\<lparr>content := []\<rparr>)) (w\<lparr>faults := fs\<rparr>) else w\<lparr>faults := fs\<rparr>)"
    and "\<And>fs. \<not> calm w \<Longrightarrow> Q (Inl IOError) (w\<lparr>faults := fs\<rparr>)" "\<And>fs. \<not> calm w \<Longrightarrow> C (w\<lparr>faults := fs\<rparr>)"
  shows "wp (os_OpenFile p trunc mode) Q C w"
  unfolding os_OpenFile_def using assms by (auto intro!: wp_syscall split: option.splits)

lemma wp_exists_call:
  assumes "\<And>fs f. still w fs \<Longrightarrow> files w p = Some f \<Longrightarrow> Q (Inr (g f)) (w\<lparr>faults := fs\<rparr>)"
    and "\<And>fs. still w fs \<Longrightarrow> files w p = None \<Longrightarrow> Q (Inl ErrNotExist) (w\<lparr>faults := fs\<rparr>)"
    and "\<And>fs. \<not> calm w \<Longrightarrow> Q (Inl IOError) (w\<lparr>faults := fs\<rparr>)" "\<And>fs. \<not> calm w \<Longrightarrow> C (w\<lparr>faults := fs\<rparr>)"
  shows "wp (syscall (with_file p (\<lambda>f w. Inr (g f, w))) no_part) Q C w"
  using assms by (auto intro!: wp_syscall simp: with_file_def split: option.splits)

lemmas wp_Open [wp_calls] = wp_exists_call [where g = "\<lambda>_. ()", folded os_Open_def]
lemmas wp_Stat [wp_calls] = wp_exists_call [where g = "\<lambda>f. (length (content f), fmode f)", folded os_Stat_def]

lemma wp_Mmap [wp_calls]:
  assumes "\<And>fs f. still w fs \<Longrightarrow> files w p = Some f \<Longrightarrow> Q (Inr ()) (w\<lparr>faults := fs\<rparr>)"
    and "\<And>fs. still w fs \<Longrightarrow> files w p = None \<Longrightarrow> Q (Inl ErrNotExist) (w\<lparr>faults := fs\<rparr>)"
    and "\<And>fs. \<not> calm w \<Longrightarrow> Q (Inl IOError) (w\<lparr>faults := fs\<rparr>)" "\<And>fs. \<not> calm w \<Longrightarrow> C (w\<lparr>faults := fs\<rparr>)"
  shows "wp (os_Mmap p n) Q C w"
  unfolding os_Mmap_def by (rule wp_exists_call) (use assms in auto)

lemma wp_Rename [wp_calls]:
  assumes "\<And>fs f. still w fs \<Longrightarrow> files w p = Some f \<Longrightarrow> Q (Inr ()) (set_file q (Some f) (set_file p None (w\<lparr>faults := fs\<rparr>)))"
    and "\<And>fs. still w fs \<Longrightarrow> files w p = None \<Longrightarrow> Q (Inl ErrNotExist) (w\<lparr>faults := fs\<rparr>)"
    and "\<And>fs. \<not> calm w \<Longrightarrow> Q (Inl IOError) (w\<lparr>faults := fs\<rparr>)" "\<And>fs. \<not> calm w \<Longrightarrow> C (w\<lparr>faults := fs\<rparr>)"
  shows "wp (os_Rename p q) Q C w"
  unfolding os_Rename_def using assms by (auto intro!: wp_syscall simp: with_file_def split: option.splits)

lemma wp_Remove [wp_calls]:
  assumes "\<And>fs f. still w fs \<Longrightarrow> files w p = Some f \<Longrightarrow> Q (Inr ()) (set_file p None (w\<lparr>faults := fs\<rparr>))"
    and "\<And>fs. still w fs \<Longrightarrow> files w p = None \<Longrightarrow> Q (Inl ErrNotExist) (w\<lparr>faults := fs\<rparr>)"
    and "\<And>fs. \<not> calm w \<Longrightarrow> Q (Inl IOError) (w\<lparr>faults := fs\<rparr>)" "\<And>fs. \<not> calm w \<Longrightarrow> C (w\<lparr>faults := fs\<rparr>)"
  shows "wp (os_Remove p) Q C w"
  unfolding os_Remove_def using assms by (auto intro!: wp_syscall simp: with_file_def split: option.splits)

lemma wp_WriteAt [wp_calls]:
  assumes "\<And>fs f. still w fs \<Longrightarrow> files w p = Some f \<Longrightarrow>
      Q (Inr ()) (set_file p (Some (f\<lparr>content := write_at (content f) off b\<rparr>)) (w\<lparr>faults := fs\<rparr>))"
    and "\<And>fs. still w fs \<Longrightarrow> files w p = None \<Longrightarrow> Q (Inl ErrNotExist) (w\<lparr>faults := fs\<rparr>)"
    and "\<And>fs. \<not> calm w \<Longrightarrow> Q (Inl IOError) (w\<lparr>faults := fs\<rparr>)" "\<And>fs. \<not> calm w \<Longrightarrow> C (w\<lparr>faults := fs\<rparr>)"
    and "\<And>fs f n. \<not> calm w \<Longrightarrow> files w p = Some f \<Longrightarrow> 0 < n \<Longrightarrow>
      Q (Inl IOError) (set_file p (Some (f\<lparr>content := write_at (content f) off (take n b)\<rparr>)) (w\<lparr>faults := fs\<rparr>))"
    and "\<And>fs f n. \<not> calm w \<Longrightarrow> files w p = Some f \<Longrightarrow> 0 < n \<Longrightarrow>
      C (set_file p (Some (f\<lparr>content := write_at (content f) off (take n b)\<rparr>)) (w\<lparr>faults := fs\<rparr>))"
  shows "wp (file_WriteAt p off b) Q C w"
  unfolding file_WriteAt_def using assms by (auto intro!: wp_syscall simp: with_file_def split: option.splits)

lemma wp_ReadAt [wp_calls]:
  assumes "\<And>fs f. still w fs \<Longrightarrow> files w p = Some f \<Longrightarrow> off + n \<le> length (content f) \<Longrightarrow>
      Q (Inr (take n (drop off (content f)))) (w\<lparr>faults := fs\<rparr>)"
    and "\<And>fs f. still w fs \<Longrightarrow> files w p = Some f \<Longrightarrow> length (content f) < off + n \<Longrightarrow> Q (Inl EOF) (w\<lparr>faults := fs\<rparr>)"
    and "\<And>fs. still w fs \<Longrightarrow> files w p = None \<Longrightarrow> Q (Inl ErrNotExist) (w\<lparr>faults := fs\<rparr>)"
    and "\<And>fs. \<not> calm w \<Longrightarrow> Q (Inl IOError) (w\<lparr>faults := fs\<rparr>)" "\<And>fs. \<not> calm w \<Longrightarrow> C (w\<lparr>faults := fs\<rparr>)"
  shows "wp (file_ReadAt p off n) Q C w"
  unfolding file_ReadAt_def using assms
  by (auto intro!: wp_syscall simp: with_file_def split: option.splits)

lemma wp_NewReader [wp_calls]:
  assumes "\<And>fs f. still w fs \<Longrightarrow> files w p = Some f \<Longrightarrow> Q (Inr \<lparr>rbuf = drop off (content f), rerr = EOF\<rparr>) (w\<lparr>faults := fs\<rparr>)"
    and "\<And>fs f n. \<not> calm w \<Longrightarrow> files w p = Some f \<Longrightarrow>
      Q (Inr \<lparr>rbuf = take n (drop off (content f)), rerr = IOError\<rparr>) (w\<lparr>faults := fs\<rparr>)"
    and "\<And>fs. still w fs \<Longrightarrow> files w p = None \<Longrightarrow> Q (Inl ErrNotExist) (w\<lparr>faults := fs\<rparr>)"
    and "\<And>fs. \<not> calm w \<Longrightarrow> Q (Inl IOError) (w\<lparr>faults := fs\<rparr>)" "\<And>fs. \<not> calm w \<Longrightarrow> C (w\<lparr>faults := fs\<rparr>)"
  shows "wp (file_NewReader p off) Q C w"
  unfolding file_NewReader_def wp_bind
  by (rule wp_exists_call) (use assms in \<open>auto simp: still_def wp_def return_def Let_def split: option.splits fault.splits list.splits\<close>)

lemma wp_Truncate [wp_calls]:
  assumes "\<And>fs f. still w fs \<Longrightarrow> files w p = Some f \<Longrightarrow> Q (Inr ())
      (set_file p (Some (f\<lparr>content := take n (content f) @ replicate (n - length (content f)) 0\<rparr>)) (w\<lparr>faults := fs\<rparr>))"
    and "\<And>fs. still w fs \<Longrightarrow> files w p = None \<Longrightarrow> Q (Inl ErrNotExist) (w\<lparr>faults := fs\<rparr>)"
    and "\<And>fs. \<not> calm w \<Longrightarrow> Q (Inl IOError) (w\<lparr>faults := fs\<rparr>)" "\<And>fs. \<not> calm w \<Longrightarrow> C (w\<lparr>faults := fs\<rparr>)"
  shows "wp (file_Truncate p n) Q C w"
  unfolding file_Truncate_def using assms by (auto intro!: wp_syscall simp: with_file_def split: option.splits)

lemma wp_Sync [wp_calls]:
  assumes "\<And>fs f. still w fs \<Longrightarrow> files w p = Some f \<Longrightarrow> Q (Inr ()) (set_file p (Some (f\<lparr>durable := content f\<rparr>)) (w\<lparr>faults := fs\<rparr>))"
    and "\<And>fs. still w fs \<Longrightarrow> files w p = None \<Longrightarrow> Q (Inl ErrNotExist) (w\<lparr>faults := fs\<rparr>)"
    and "\<And>fs. \<not> calm w \<Longrightarrow> Q (Inl IOError) (w\<lparr>faults := fs\<rparr>)" "\<And>fs. \<not> calm w \<Longrightarrow> C (w\<lparr>faults := fs\<rparr>)"
  shows "wp (file_Sync p) Q C w"
  unfolding file_Sync_def using assms by (auto intro!: wp_syscall simp: with_file_def split: option.splits)

lemma wp_quiet_call:
  assumes "\<And>fs. still w fs \<Longrightarrow> Q (Inr ()) (w\<lparr>faults := fs\<rparr>)" "\<And>fs. \<not> calm w \<Longrightarrow> Q (Inl IOError) (w\<lparr>faults := fs\<rparr>)" "\<And>fs. \<not> calm w \<Longrightarrow> C (w\<lparr>faults := fs\<rparr>)"
  shows "wp (syscall (\<lambda>w. Inr ((), w)) no_part) Q C w"
  using assms by (auto intro!: wp_syscall)

lemmas wp_Close [wp_calls] = wp_quiet_call [folded file_Close_def]
lemmas wp_Munmap [wp_calls] = wp_quiet_call [folded os_Munmap_def]

lemma wp_SyncDir [wp_calls]:
  assumes "\<And>fs. still w fs \<Longrightarrow> Q (Inr ()) (w\<lparr>faults := fs\<rparr>)" "\<And>fs. \<not> calm w \<Longrightarrow> Q (Inl IOError) (w\<lparr>faults := fs\<rparr>)" "\<And>fs. \<not> calm w \<Longrightarrow> C (w\<lparr>faults := fs\<rparr>)"
  shows "wp (os_SyncDir p) Q C w"
  unfolding os_SyncDir_def wp_try using assms by (auto simp: still_def intro!: wp_quiet_call)

text \<open>The locks. The conditions mention the set of locks that are held.\<close>

lemma wp_Flock [wp_calls]:
  assumes "\<And>fs. still w fs \<Longrightarrow> p \<notin> locked w \<Longrightarrow> Q (Inr ()) (w\<lparr>faults := fs, locked := insert p (locked w)\<rparr>)"
    and "\<And>fs. still w fs \<Longrightarrow> p \<in> locked w \<Longrightarrow> Q (Inl ErrWouldBlock) (w\<lparr>faults := fs\<rparr>)"
    and "\<And>fs. \<not> calm w \<Longrightarrow> Q (Inl IOError) (w\<lparr>faults := fs\<rparr>)" "\<And>fs. \<not> calm w \<Longrightarrow> C (w\<lparr>faults := fs\<rparr>)"
  shows "wp (os_Flock p) Q C w"
  unfolding os_Flock_def using assms by (auto intro!: wp_syscall)

lemma wp_Funlock [wp_calls]:
  assumes "\<And>fs. still w fs \<Longrightarrow> Q (Inr ()) (w\<lparr>faults := fs, locked := locked w - {p}\<rparr>)"
    and "\<And>fs. \<not> calm w \<Longrightarrow> Q (Inl IOError) (w\<lparr>faults := fs\<rparr>)" "\<And>fs. \<not> calm w \<Longrightarrow> C (w\<lparr>faults := fs\<rparr>)"
  shows "wp (os_Funlock p) Q C w"
  unfolding os_Funlock_def using assms by (auto intro!: wp_syscall)

lemma wp_CloseLock [wp_calls]:
  assumes "\<And>fs. still w fs \<Longrightarrow> Q (Inr ()) (w\<lparr>faults := fs, locked := locked w - {p}\<rparr>)"
    and "\<And>fs. \<not> calm w \<Longrightarrow> Q (Inl IOError) (w\<lparr>faults := fs, locked := locked w - {p}\<rparr>)"
    and "\<And>fs. \<not> calm w \<Longrightarrow> C (w\<lparr>faults := fs, locked := locked w - {p}\<rparr>)"
  shows "wp (os_CloseLock p) Q C w"
  unfolding os_CloseLock_def using assms by (auto intro!: wp_syscall)

lemma wp_Copy [wp_calls]:
  assumes "files w src = Some f" "files w dst = Some g"
    and "\<And>fs. still w fs \<Longrightarrow> Q (Inr ()) (set_file dst (Some (g\<lparr>content := content f\<rparr>)) (w\<lparr>faults := fs\<rparr>))"
    and "\<And>fs n. \<not> calm w \<Longrightarrow> Q (Inl IOError) (set_file dst (Some (g\<lparr>content := take n (content f)\<rparr>)) (w\<lparr>faults := fs\<rparr>))"
    and "\<And>fs n. \<not> calm w \<Longrightarrow> C (set_file dst (Some (g\<lparr>content := take n (content f)\<rparr>)) (w\<lparr>faults := fs\<rparr>))"
  shows "wp (io_Copy src dst) Q C w"
  unfolding io_Copy_def using assms by (auto intro!: wp_syscall simp: with_file_def)

end
