(* ===== verification/AppendLog.thy ===== *)
theory AppendLog
  imports Legacy OsModel
begin

text \<open>
  The append-only log file of \<^verbatim>\<open>log.go\<close>: header, opening and creating a log,
  appending, random access (through the memory map or the file), the sequential
  scan with its repair of a torn tail, and the recovery of the files an
  interrupted compaction leaves. Each method takes the log and returns it
  updated; the log's mutex makes the methods atomic.
\<close>

section \<open>Constants and state\<close>

definition logMagic :: string where "logMagic = ''HYBR''"
definition logVersion :: "32 word" where "logVersion = 5"
definition logHeaderSize :: nat where "logHeaderSize = 16"
definition knownIncompatibleFeatures :: "32 word" where "knownIncompatibleFeatures = 0"
definition knownReadOnlyFeatures :: "32 word" where "knownReadOnlyFeatures = 0"
definition maxRetainedScratch :: nat where "maxRetainedScratch = 1048576"
definition compactionTempSuffix :: string where "compactionTempSuffix = ''.compact.tmp''"
definition compactionReadySuffix :: string where "compactionReadySuffix = ''.compact.ready''"
definition compactionBackupSuffix :: string where "compactionBackupSuffix = ''.compact.backup''"
definition legacyCompactionSuffix :: string where "legacyCompactionSuffix = ''.compact''"
definition defaultMapSlack :: nat where "defaultMapSlack = 67108864"

text \<open>
  \<open>l_closed\<close> says that the handle \<^verbatim>\<open>file\<close> is closed; \<open>l_appendBuf\<close> is the whole
  backing array of the buffer; \<open>l_mapped\<close> is the length of the memory map, whose
  bytes are those of the file.
\<close>

record appendLog =
  l_path :: path
  l_closed :: bool
  l_writePos :: nat
  l_version :: "32 word"
  l_incompatibleFeatures :: "32 word"
  l_readOnlyFeatures :: "32 word"
  l_appendBuf :: bytes
  l_mapped :: "nat option"
  l_mapDisabled :: bool
  l_mapSlack :: nat

definition on_handle :: "appendLog \<Rightarrow> (error + 'a) io \<Rightarrow> (error + 'a) io" where
  "on_handle l m = (if l_closed l then return (Inl IOError) else m)"

definition fileExists :: "path \<Rightarrow> (error + bool) io" where
  "fileExists p = bind_io (os_Stat p) (\<lambda>r. return (case r of
       Inr _ \<Rightarrow> Inr True
     | Inl err \<Rightarrow> if errors_Is err ErrNotExist then Inr False else Inl (Wrap ''stat'' [err])))"

definition removeIfExists :: "path \<Rightarrow> (error + unit) io" where
  "removeIfExists p = bind_io (os_Remove p) (\<lambda>r. return (case r of
       Inl err \<Rightarrow> if errors_Is err ErrNotExist then Inr () else Inl (Wrap ''remove'' [err])
     | Inr _ \<Rightarrow> Inr ()))"

definition syncParentDirectory :: "path \<Rightarrow> (error + unit) io" where
  "syncParentDirectory p = os_SyncDir p"

section \<open>Recovery of compaction files\<close>

fun removeAll_io :: "path list \<Rightarrow> (error + unit) io" where
  "removeAll_io [] = return (Inr ())"
| "removeAll_io (p # ps) = try_io (removeIfExists p) (\<lambda>_. removeAll_io ps)"

definition wrap_error :: "string \<Rightarrow> (error + 'a) io \<Rightarrow> (error + 'a) io" where
  "wrap_error msg m = bind_io m (\<lambda>r. return (case r of Inl err \<Rightarrow> Inl (Wrap msg [err]) | Inr x \<Rightarrow> Inr x))"

text \<open>The \<^verbatim>\<open>switch\<close> on what was found.\<close>

definition recovery_switch :: "path \<Rightarrow> bool \<Rightarrow> bool \<Rightarrow> bool \<Rightarrow> bool \<Rightarrow> (error + unit) io" where
  "recovery_switch path mainExists readyExists backupExists legacyExists =
     (let readyPath = path @ compactionReadySuffix;
          backupPath = path @ compactionBackupSuffix;
          legacyPath = path @ legacyCompactionSuffix in
      if mainExists then
        try_io (removeIfExists readyPath) (\<lambda>_.
        try_io (removeIfExists backupPath) (\<lambda>_.
        removeIfExists legacyPath))
      else if readyExists then
        try_io (wrap_error ''complete interrupted compaction'' (os_Rename readyPath path)) (\<lambda>_.
        removeIfExists backupPath)
      else if backupExists then
        wrap_error ''restore interrupted compaction'' (os_Rename backupPath path)
      else if legacyExists then
        wrap_error ''restore legacy interrupted compaction'' (os_Rename legacyPath path)
      else return (Inr ()))"

definition recoverCompactionArtifacts :: "path \<Rightarrow> (error + unit) io" where
  "recoverCompactionArtifacts path =
     (let tempPath = path @ compactionTempSuffix;
          readyPath = path @ compactionReadySuffix;
          backupPath = path @ compactionBackupSuffix;
          legacyPath = path @ legacyCompactionSuffix in
      try_io (fileExists path) (\<lambda>mainExists.
      try_io (fileExists readyPath) (\<lambda>readyExists.
      try_io (fileExists backupPath) (\<lambda>backupExists.
      try_io (fileExists tempPath) (\<lambda>tempExists.
      try_io (fileExists legacyPath) (\<lambda>legacyExists.
      try_io (recovery_switch path mainExists readyExists backupExists legacyExists) (\<lambda>_.
      try_io (removeAll_io [tempPath, readyPath, backupPath, legacyPath]) (\<lambda>_.
      if readyExists \<or> backupExists \<or> tempExists \<or> legacyExists then
        wrap_error ''sync directory after compaction recovery'' (syncParentDirectory path)
      else return (Inr ())))))))))"

section \<open>Header\<close>

definition header_bytes :: "appendLog \<Rightarrow> bytes" where
  "header_bytes l = take 4 (bytes_of logMagic) @ PutUint32 (l_version l)
     @ PutUint32 (l_incompatibleFeatures l) @ PutUint32 (l_readOnlyFeatures l)"

definition writeHeader :: "appendLog \<Rightarrow> (error + unit) io" where
  "writeHeader l = on_handle l (file_WriteAt (l_path l) 0 (header_bytes l))"

fun strings_Join :: "string list \<Rightarrow> string \<Rightarrow> string" where
  "strings_Join [] sep = []"
| "strings_Join [s] sep = s"
| "strings_Join (s # ss) sep = s @ sep @ strings_Join ss sep"

definition unknownFeatureError :: "string \<Rightarrow> 32 word \<Rightarrow> error" where
  "unknownFeatureError kind unknown =
     (let bits = map nat_digits (filter (\<lambda>b. unknown AND push_bit b 1 \<noteq> 0) [0..<32]) in
      Wrap (kind @ '' mask sets bit '' @ strings_Join bits '', '') [ErrUnsupportedFeature])"

definition unknownReadOnly :: "appendLog \<Rightarrow> 32 word" where
  "unknownReadOnly l = l_readOnlyFeatures l AND NOT knownReadOnlyFeatures"

definition parse_header :: "appendLog \<Rightarrow> bytes \<Rightarrow> error + appendLog" where
  "parse_header l header =
     (if string_of (take 4 header) \<noteq> logMagic then Inl (Wrap ''invalid magic'' [ErrCorruptedData])
      else
      bindE (bindE (go_slice header 4 8) Uint32) (\<lambda>version.
      if version = 0 then Inl (Wrap ''invalid log version 0'' [ErrCorruptedData])
      else if version > logVersion then Inl (Wrap ''maximum version'' [ErrUnsupportedVersion])
      else
      let l = l\<lparr>l_version := version\<rparr> in
      bindE
        (if version \<ge> 5 then
           bindE (bindE (go_slice header 8 12) Uint32) (\<lambda>inc.
           bindE (bindE (go_slice header 12 16) Uint32) (\<lambda>ro.
           Inr (l\<lparr>l_incompatibleFeatures := inc, l_readOnlyFeatures := ro\<rparr>)))
         else Inr l) (\<lambda>l.
      let unknown = l_incompatibleFeatures l AND NOT knownIncompatibleFeatures in
      if unknown \<noteq> 0 then Inl (unknownFeatureError ''incompatible'' unknown) else Inr l)))"

definition readHeader :: "appendLog \<Rightarrow> (error + appendLog) io" where
  "readHeader l = bind_io (on_handle l (file_ReadAt (l_path l) 0 logHeaderSize)) (\<lambda>r. return (case r of
       Inl err \<Rightarrow> Inl (Wrap ''read header'' [ErrCorruptedData])
     | Inr header \<Rightarrow> parse_header l header))"

text \<open>\<^verbatim>\<open>setVersion\<close>: the version is put back when the header cannot be written.\<close>

definition file_sync :: "appendLog \<Rightarrow> (error + unit) io" where
  "file_sync l = on_handle l (file_Sync (l_path l))"

definition setVersion :: "appendLog \<Rightarrow> 32 word \<Rightarrow> ((error + unit) \<times> appendLog) io" where
  "setVersion l version =
     (let previous = l_version l; l = l\<lparr>l_version := version\<rparr> in
      bind_io (writeHeader l) (\<lambda>r. case r of
        Inl err \<Rightarrow> return (Inl err, l\<lparr>l_version := previous\<rparr>)
      | Inr _ \<Rightarrow> bind_io (file_sync l) (\<lambda>r. return (r, l))))"

section \<open>The memory map\<close>

definition remap :: "appendLog \<Rightarrow> appendLog io" where
  "remap l =
     (if l_mapDisabled l then return l
      else
      bind_io
        (case l_mapped l of
           Some _ \<Rightarrow> ignore_io os_Munmap (return (l\<lparr>l_mapped := None\<rparr>))
         | None \<Rightarrow> return l) (\<lambda>l.
      let len = l_writePos l + l_mapSlack l in
      if len = 0 \<or> len > 2 ^ 63 - 1 then return (l\<lparr>l_mapDisabled := True\<rparr>)
      else
      bind_io (on_handle l (os_Mmap (l_path l) len)) (\<lambda>r. return (case r of
        Inl err \<Rightarrow> l\<lparr>l_mapDisabled := True\<rparr>
      | Inr _ \<Rightarrow> l\<lparr>l_mapped := Some len\<rparr>))))"

definition mapped_len :: "appendLog \<Rightarrow> nat" where
  "mapped_len l = (case l_mapped l of None \<Rightarrow> 0 | Some n \<Rightarrow> n)"

text \<open>
  Reading the map reads the file. A page behind the end of the file would raise
  a bus error, which is a panic here.
\<close>

definition mappedRecord :: "appendLog \<Rightarrow> nat \<Rightarrow> nat \<Rightarrow> (error + bytes) option io" where
  "mappedRecord l recordOffset storedSize w =
     (let end = recordOffset + storedSize in
      if l_mapped l = None \<or> recordOffset < logHeaderSize \<or> end > l_writePos l \<or> end > mapped_len l
      then (Some None, w)
      else (Some (Some (case files w (l_path l) of
          None \<Rightarrow> Inl Panic
        | Some f \<Rightarrow> go_slice (content f) recordOffset end)), w))"

section \<open>Opening and creating\<close>

definition new_log :: "path \<Rightarrow> appendLog" where
  "new_log path = \<lparr>l_path = path, l_closed = False, l_writePos = 0, l_version = logVersion,
     l_incompatibleFeatures = 0, l_readOnlyFeatures = 0, l_appendBuf = [], l_mapped = None,
     l_mapDisabled = False, l_mapSlack = defaultMapSlack\<rparr>"

text \<open>\<^verbatim>\<open>_ = file.Close()\<close> before an error is returned.\<close>

definition close_and_fail :: "error \<Rightarrow> (error + 'a) io" where
  "close_and_fail err = ignore_io file_Close (return (Inl err))"

definition openAppendLogFile :: "path \<Rightarrow> (error + appendLog) io" where
  "openAppendLogFile path =
     try_io (os_OpenFile path False 420) (\<lambda>_.
     bind_io (os_Stat path) (\<lambda>r. case r of
       Inl err \<Rightarrow> close_and_fail err
     | Inr (sz, _) \<Rightarrow>
         let log = new_log path in
         if sz = 0 then
           bind_io (writeHeader log) (\<lambda>r. case r of
             Inl err \<Rightarrow> close_and_fail err
           | Inr _ \<Rightarrow> bind_io (remap (log\<lparr>l_writePos := logHeaderSize\<rparr>)) (\<lambda>log. return (Inr log)))
         else
           bind_io (readHeader log) (\<lambda>r. case r of
             Inl err \<Rightarrow> close_and_fail err
           | Inr log \<Rightarrow> bind_io (remap (log\<lparr>l_writePos := sz\<rparr>)) (\<lambda>log. return (Inr log)))))"

definition openAppendLog :: "path \<Rightarrow> (error + appendLog) io" where
  "openAppendLog path = try_io (recoverCompactionArtifacts path) (\<lambda>_. openAppendLogFile path)"

definition createAppendLogMode :: "path \<Rightarrow> 9 word \<Rightarrow> (error + appendLog) io" where
  "createAppendLogMode path mode =
     try_io (os_OpenFile path True mode) (\<lambda>_.
     let log = new_log path in
     bind_io (writeHeader log) (\<lambda>r. case r of
       Inl err \<Rightarrow> close_and_fail err
     | Inr _ \<Rightarrow> bind_io (remap (log\<lparr>l_writePos := logHeaderSize\<rparr>)) (\<lambda>log. return (Inr log))))"

definition createAppendLog :: "path \<Rightarrow> (error + appendLog) io" where
  "createAppendLog path = createAppendLogMode path 420"

section \<open>Append\<close>

text \<open>
  The result is the value's offset and size and the record's offset and size.
  The guards come in the order of the code. The buffer is reused between calls:
  \<open>keep\<close> says whether the array that was filled is the one the log retains.
\<close>

definition Append :: "appendLog \<Rightarrow> string \<Rightarrow> bytes \<Rightarrow> bool \<Rightarrow> attributes \<Rightarrow> bytes
    \<Rightarrow> ((error + (nat \<times> 32 word \<times> nat \<times> nat)) \<times> appendLog) io" where
  "Append l key val deleted attrs extensions =
     (if l_version l \<noteq> logVersion then return (Inl (Errorf ''cannot append to an older log''), l)
      else if unknownReadOnly l \<noteq> 0 then
        return (Inl (unknownFeatureError ''read-only'' (unknownReadOnly l)), l)
      else
      let keyBytes = bytes_of key in
      if length keyBytes > maxKeySize then return (Inl (Wrap ''key'' [ErrInvalidKey]), l)
      else if length val > maxValueSize then return (Inl (Wrap ''value'' [ErrValueTooLarge]), l)
      else if length extensions > maxExtensionsSize then
        return (Inl (Wrap ''extensions'' [ErrValueTooLarge]), l)
      else case validateExtensions extensions of Inl err \<Rightarrow> return (Inl err, l) | Inr _ \<Rightarrow>
      (case encodeAttributes attrs of Inl err \<Rightarrow> return (Inl err, l) | Inr attributesBytes \<Rightarrow>
      let recordLength = recordMinimumLength
            + (length keyBytes + length attributesBytes + length val + length extensions) in
      if recordLength > 4294967295 then return (Inl (Wrap ''encoded record'' [ErrValueTooLarge]), l)
      else
      let totalSize = 4 + recordLength;
          (buf, keep) = (if length (l_appendBuf l) < totalSize
             then (replicate totalSize 0, totalSize \<le> maxRetainedScratch) else (l_appendBuf l, True)) in
      case encodeRecord (take totalSize buf) recordLength keyBytes attributesBytes deleted val extensions of
        Inl err \<Rightarrow> return (Inl err, l)
      | Inr (rec, pos) \<Rightarrow>
          let l = (if keep then l\<lparr>l_appendBuf := rec @ drop totalSize buf\<rparr> else l);
              valueOffset = l_writePos l + pos;
              recordStart = l_writePos l in
          bind_io (on_handle l (file_WriteAt (l_path l) recordStart rec)) (\<lambda>r. case r of
            Inl err \<Rightarrow> return (Inl err, l)
          | Inr _ \<Rightarrow>
              let l = l\<lparr>l_writePos := l_writePos l + totalSize\<rparr>;
                  res = (valueOffset, of_nat (length val), recordStart, totalSize) in
              if l_writePos l > mapped_len l then bind_io (remap l) (\<lambda>l. return (Inr res, l))
              else return (Inr res, l))))"

section \<open>Random access\<close>

definition ReadAt :: "appendLog \<Rightarrow> nat \<Rightarrow> 32 word \<Rightarrow> (error + bytes) io" where
  "ReadAt l offset sz =
     (if sint sz < 0 then return (Inl Panic)
      else on_handle l (file_ReadAt (l_path l) offset (unat sz)))"

text \<open>The value a record's bounds select (\<^verbatim>\<open>record[start : start+len]\<close>).\<close>

definition bounds_value :: "bytes \<Rightarrow> recordBounds \<Rightarrow> error + bytes" where
  "bounds_value rec bounds = go_slice rec (valueStart bounds) (valueStart bounds + valueLen bounds)"

definition bounds_extensions :: "bytes \<Rightarrow> recordBounds \<Rightarrow> error + bytes" where
  "bounds_extensions rec bounds =
     go_slice rec (extensionsStart bounds) (extensionsStart bounds + extensionsLen bounds)"

text \<open>
  \<open>scratch\<close> is the backing array of the caller's buffer. The result is the value
  and the buffer to reuse.
\<close>

definition readRecordFromFile :: "appendLog \<Rightarrow> nat \<Rightarrow> nat \<Rightarrow> bytes \<Rightarrow> ((error + bytes) \<times> bytes) io" where
  "readRecordFromFile l recordOffset storedSize scratch =
     (let buf = (if length scratch < storedSize then replicate storedSize 0 else scratch) in
      bind_io (on_handle l (file_ReadAt (l_path l) recordOffset storedSize)) (\<lambda>r. return (case r of
        Inl err \<Rightarrow> (Inl err, buf)
      | Inr rec \<Rightarrow> (bindE (validateStoredRecord rec) (bounds_value rec), rec @ drop storedSize buf))))"

definition ReadRecordAt :: "appendLog \<Rightarrow> nat \<Rightarrow> nat \<Rightarrow> bytes \<Rightarrow> (error + bytes) io" where
  "ReadRecordAt l recordOffset storedSize pooled =
     (case checkStoredSize storedSize of Inl err \<Rightarrow> return (Inl err) | Inr _ \<Rightarrow>
      bind_io (mappedRecord l recordOffset storedSize) (\<lambda>m. case m of
        Some r \<Rightarrow> return (bindE r (\<lambda>rec. bindE (validateStoredRecord rec) (bounds_value rec)))
      | None \<Rightarrow> bind_io (readRecordFromFile l recordOffset storedSize pooled) (\<lambda>(v, scratch). return v)))"

definition ReadRecordAtInto :: "appendLog \<Rightarrow> nat \<Rightarrow> nat \<Rightarrow> bytes \<Rightarrow> ((error + bytes) \<times> bytes) io" where
  "ReadRecordAtInto l recordOffset storedSize scratch =
     (case checkStoredSize storedSize of Inl err \<Rightarrow> return (Inl err, scratch) | Inr _ \<Rightarrow>
      bind_io (mappedRecord l recordOffset storedSize) (\<lambda>m. case m of
        Some r \<Rightarrow> return (case bindE r (\<lambda>rec. bindE (validateStoredRecord rec) (bounds_value rec)) of
            Inl err \<Rightarrow> (Inl err, scratch)
          | Inr v \<Rightarrow> (Inr v, v @ drop (length v) scratch))
      | None \<Rightarrow> readRecordFromFile l recordOffset storedSize scratch))"

definition ReadRecordAndExtensionsAt :: "appendLog \<Rightarrow> nat \<Rightarrow> nat \<Rightarrow> (error + (bytes \<times> bytes)) io" where
  "ReadRecordAndExtensionsAt l recordOffset storedSize =
     (case checkStoredSize storedSize of Inl err \<Rightarrow> return (Inl err) | Inr _ \<Rightarrow>
      bind_io (mappedRecord l recordOffset storedSize) (\<lambda>m.
      try_io (case m of Some r \<Rightarrow> return r | None \<Rightarrow> on_handle l (file_ReadAt (l_path l) recordOffset storedSize)) (\<lambda>rec.
      return (bindE (validateStoredRecord rec) (\<lambda>bounds.
        bindE (bounds_value rec bounds) (\<lambda>val.
        bindE (bounds_extensions rec bounds) (\<lambda>extensions.
        Inr (val, extensions))))))))"

section \<open>The sequential scan\<close>

text \<open>
  What a reader of one record promises to the scan: it is framed, it makes
  progress, and the record it returns describes the bytes it consumed.
\<close>

locale record_format =
  fixes rd :: "reader \<Rightarrow> nat \<Rightarrow> error + (logRecord \<times> nat \<times> reader)"
  assumes rd_framed: "framed p (\<lambda>r. rd r p)"
    and rd_placed: "rd r p = Inr (rec, n, r') \<Longrightarrow>
      p < n \<and> lr_RecordOffset rec = p \<and> lr_StoredSize rec = n - p"
begin

lemma chunk:
  assumes "rd r p = Inr (rec, n, r')"
  obtains b where "b \<noteq> []" "rbuf r = b @ rbuf r'" "rerr r' = rerr r" "n = p + length b"
    "lr_RecordOffset rec = p" "lr_StoredSize rec = length b"
    "\<And>rest e. rd \<lparr>rbuf = b @ rest, rerr = e\<rparr> p = Inr (rec, n, \<lparr>rbuf = rest, rerr = e\<rparr>)"
    "\<And>m e. m < length b \<Longrightarrow> cut_short e (rd \<lparr>rbuf = take m b, rerr = e\<rparr> p)"
proof -
  obtain b where "rbuf r = b @ rbuf r'" "rerr r' = rerr r" "n = p + length b"
    "\<And>rest e. rd \<lparr>rbuf = b @ rest, rerr = e\<rparr> p = Inr (rec, n, \<lparr>rbuf = rest, rerr = e\<rparr>)"
    "\<And>m e. m < length b \<Longrightarrow> cut_short e (rd \<lparr>rbuf = take m b, rerr = e\<rparr> p)"
    using framedE [OF rd_framed assms] by metis
  with rd_placed [OF assms] show ?thesis by (intro that) auto
qed

lemma no_panic: "rerr r \<noteq> Panic \<Longrightarrow> rd r p \<noteq> Inl Panic"
  using framed_no_panic [OF rd_framed] .

end

lemma readRecordFrom_framed: "framed p (\<lambda>r. readRecordFrom r p)"
  unfolding framed_def
proof (intro conjI allI impI)
  fix r rec n r'
  assume "readRecordFrom r p = Inr (rec, n, r')"
  then obtain f k a v x m where *: "record_fits f k a v x" "rbuf r = record_bytes f k a v x @ rbuf r'"
    "rerr r' = rerr r" "validateExtensions x = Inr ()" "decodeAttributes a = Inr m"
    "rec = the_record f k a v x m p" "n = p + record_size k a v x"
    by (rule readRecordFrom_inv)
  have len: "length (record_bytes f k a v x) = record_size k a v x"
    using *(1) by (simp add: record_fits_def length_record_bytes)
  show "\<exists>b. rbuf r = b @ rbuf r' \<and> rerr r' = rerr r \<and> n = p + length b \<and>
      (\<forall>rest e. readRecordFrom \<lparr>rbuf = b @ rest, rerr = e\<rparr> p = Inr (rec, n, \<lparr>rbuf = rest, rerr = e\<rparr>)) \<and>
      (\<forall>m < length b. \<forall>e. cut_short e (readRecordFrom \<lparr>rbuf = take m b, rerr = e\<rparr> p))"
    using * by (intro exI [of _ "record_bytes f k a v x"])
      (simp add: len readRecordFrom_record readRecordFrom_cut)
next
  fix r :: reader
  assume "rerr r \<noteq> Panic"
  then show "readRecordFrom r p \<noteq> Inl Panic" by (rule readRecordFrom_no_panic)
qed

interpretation v5: record_format readRecordFrom
proof
  show "framed p (\<lambda>r. readRecordFrom r p)" for p by (rule readRecordFrom_framed)
  show "p < n \<and> lr_RecordOffset rec = p \<and> lr_StoredSize rec = n - p"
    if "readRecordFrom r p = Inr (rec, n, r')" for r p rec n r'
    using that by (rule readRecordFrom_inv) (simp add: the_record_def record_size_def)
qed

definition placed :: "nat \<Rightarrow> error + (logRecord \<times> nat \<times> reader) \<Rightarrow> bool" where
  "placed p m \<longleftrightarrow> (\<forall>rec n r'. m = Inr (rec, n, r') \<longrightarrow> lr_RecordOffset rec = p \<and> lr_StoredSize rec = n - p)"

lemma placed_intros:
  "(\<And>x. placed p (f x)) \<Longrightarrow> placed p (bindE m f)"
  "placed p (Inl e)"
  "placed p y \<Longrightarrow> placed p z \<Longrightarrow> placed p (if c then y else z)"
  "(\<And>a b. placed p (g a b)) \<Longrightarrow> placed p (case q of (a, b) \<Rightarrow> g a b)"
  by (auto simp: placed_def bindE_iffs split: prod.splits)

lemma readLegacyRecordFrom_placed:
  assumes "readLegacyRecordFrom r p version = Inr (rec, n, r')"
  shows "p < n \<and> lr_RecordOffset rec = p \<and> lr_StoredSize rec = n - p"
proof -
  have "placed p (readLegacyRecordFrom r p version)"
    unfolding readLegacyRecordFrom_def Let_def by (intro placed_intros) (simp add: placed_def)
  then have "lr_RecordOffset rec = p \<and> lr_StoredSize rec = n - p"
    using assms by (simp add: placed_def)
  moreover have "n \<noteq> p"
  proof
    assume "n = p"
    with framedE [OF readLegacyRecordFrom_framed assms]
    have "readLegacyRecordFrom \<lparr>rbuf = [], rerr = EOF\<rparr> p version = Inr (rec, n, \<lparr>rbuf = [], rerr = EOF\<rparr>)"
      by (metis add_cancel_left_right append_Nil length_0_conv)
    then show False by (simp add: readLegacyRecordFrom_def legacy_steps io_ReadFull_def)
  qed
  moreover have "p \<le> n" using framedE [OF readLegacyRecordFrom_framed assms] by (metis le_add1)
  ultimately show ?thesis by simp
qed

interpretation legacy: record_format "\<lambda>r p. readLegacyRecordFrom r p version" for version
  by unfold_locales (rule readLegacyRecordFrom_framed, rule readLegacyRecordFrom_placed)

text \<open>The reader that \<^verbatim>\<open>Iterate\<close> picks by the version of the log.\<close>

definition read_record :: "32 word \<Rightarrow> reader \<Rightarrow> nat \<Rightarrow> error + (logRecord \<times> nat \<times> reader)" where
  "read_record version r pos =
     (if version \<ge> 4 then readRecordFrom r pos else readLegacyRecordFrom r pos version)"

interpretation fmt: record_format "read_record version" for version
proof
  show "framed p (\<lambda>r. read_record version r p)" for p
    by (cases "version \<ge> 4") (simp_all add: read_record_def readRecordFrom_framed readLegacyRecordFrom_framed)
  show "p < n \<and> lr_RecordOffset rec = p \<and> lr_StoredSize rec = n - p"
    if "read_record version r p = Inr (rec, n, r')" for r p rec n r'
    using that v5.rd_placed legacy.rd_placed by (auto simp: read_record_def split: if_splits)
qed

text \<open>
  The loop of \<^verbatim>\<open>Iterate\<close>, with the state that the callback works on. It ends at
  the end of the file, at an incomplete record, which \<^verbatim>\<open>Iterate\<close> then cuts off, or
  with an error. It terminates because every record makes progress.
\<close>

datatype 's scan_end = ScanDone 's | ScanTorn nat error 's | ScanError error 's

function iterate_loop :: "32 word \<Rightarrow> (logRecord \<Rightarrow> 's \<Rightarrow> error option \<times> 's) \<Rightarrow> nat \<Rightarrow> reader \<Rightarrow> nat \<Rightarrow> 's
    \<Rightarrow> 's scan_end" where
  "iterate_loop version fn fileSize r pos s =
     (if pos < fileSize then
        case read_record version r pos of
          Inl err \<Rightarrow>
            if errors_Is err EOF \<or> errors_Is err ErrUnexpectedEOF then ScanTorn pos err s
            else ScanError (Wrap ''record'' [ErrCorruptedData]) s
        | Inr (rec, nextPos, r) \<Rightarrow>
            if nextPos > fileSize then ScanError (Wrap ''record exceeds file size'' [ErrCorruptedData]) s
            else case fn rec s of
              (Some err, s) \<Rightarrow> ScanError err s
            | (None, s) \<Rightarrow> iterate_loop version fn fileSize r nextPos s
      else ScanDone s)"
  by pat_completeness auto
termination
  by (relation "measure (\<lambda>(version, fn, fileSize, r, pos, s). fileSize - pos)")
    (auto dest!: fmt.rd_placed)

declare iterate_loop.simps [simp del]

text \<open>The code at the end of the loop: an incomplete record is cut off, unless the log is read-only.\<close>

definition iterate_end :: "appendLog \<Rightarrow> 's scan_end \<Rightarrow> ((error + unit) \<times> 's \<times> appendLog) io" where
  "iterate_end l res = (case res of
       ScanDone s \<Rightarrow> return (Inr (), s, l)
     | ScanError err s \<Rightarrow> return (Inl err, s, l)
     | ScanTorn pos err s \<Rightarrow>
         if unknownReadOnly l = 0 then
           bind_io (file_Truncate (l_path l) pos) (\<lambda>r. case r of
             Inl truncateErr \<Rightarrow>
               return (Inl (Wrap ''joined'' [err, Wrap ''truncate incomplete record'' [truncateErr]]), s, l)
           | Inr _ \<Rightarrow> return (Inr (), s, l\<lparr>l_writePos := pos\<rparr>))
         else return (Inr (), s, l\<lparr>l_writePos := pos\<rparr>))"

definition Iterate :: "appendLog \<Rightarrow> (logRecord \<Rightarrow> 's \<Rightarrow> error option \<times> 's) \<Rightarrow> 's
    \<Rightarrow> ((error + unit) \<times> 's \<times> appendLog) io" where
  "Iterate l fn s =
     bind_io (on_handle l (file_NewReader (l_path l) logHeaderSize)) (\<lambda>r. case r of
       Inl err \<Rightarrow> return (Inl err, s, l)
     | Inr r \<Rightarrow> iterate_end l (iterate_loop (l_version l) fn (l_writePos l) r logHeaderSize s))"

definition log_Sync :: "appendLog \<Rightarrow> (error + unit) io" where
  "log_Sync l = file_sync l"

definition log_Close :: "appendLog \<Rightarrow> ((error + unit) \<times> appendLog) io" where
  "log_Close l =
     bind_io (case l_mapped l of
         Some _ \<Rightarrow> ignore_io os_Munmap (return (l\<lparr>l_mapped := None\<rparr>))
       | None \<Rightarrow> return l) (\<lambda>l.
     bind_io (on_handle l file_Close) (\<lambda>r. return (r, l\<lparr>l_closed := True\<rparr>)))"

definition log_Size :: "appendLog \<Rightarrow> nat" where
  "log_Size l = l_writePos l"

end
