(* ===== verification/LogScan.thy ===== *)
theory LogScan
  imports AppendLog
begin

text \<open>
  Correctness of the sequential scan. A log is a sequence of chunks, one per
  record (\<open>accepts\<close>); on any bytes at all the loop of \<^verbatim>\<open>Iterate\<close> applies its
  callback to the longest sequence of whole records and then stops, for a reason
  that depends only on what follows them.
\<close>

section \<open>Sequences of records\<close>

fun accepts :: "32 word \<Rightarrow> nat \<Rightarrow> bytes list \<Rightarrow> logRecord list \<Rightarrow> bool" where
  "accepts version p [] [] \<longleftrightarrow> True"
| "accepts version p (b # bs) (rec # recs) \<longleftrightarrow>
     read_record version \<lparr>rbuf = b, rerr = EOF\<rparr> p = Inr (rec, p + length b, \<lparr>rbuf = [], rerr = EOF\<rparr>) \<and>
     accepts version (p + length b) bs recs"
| "accepts version p _ _ \<longleftrightarrow> False"

lemma read_chunk:
  assumes "read_record version \<lparr>rbuf = b, rerr = EOF\<rparr> p = Inr (rec, n, \<lparr>rbuf = [], rerr = EOF\<rparr>)"
  shows "read_record version \<lparr>rbuf = b @ rest, rerr = e\<rparr> p = Inr (rec, n, \<lparr>rbuf = rest, rerr = e\<rparr>)"
    "b \<noteq> []" "n = p + length b" "lr_RecordOffset rec = p" "lr_StoredSize rec = length b"
    "m < length b \<Longrightarrow> cut_short e (read_record version \<lparr>rbuf = take m b, rerr = e\<rparr> p)"
proof -
  obtain c where "c \<noteq> []" "b = c @ []" "n = p + length c" "lr_RecordOffset rec = p" "lr_StoredSize rec = length c"
    "\<And>rest e. read_record version \<lparr>rbuf = c @ rest, rerr = e\<rparr> p = Inr (rec, n, \<lparr>rbuf = rest, rerr = e\<rparr>)"
    "\<And>m e. m < length c \<Longrightarrow> cut_short e (read_record version \<lparr>rbuf = take m c, rerr = e\<rparr> p)"
    using fmt.chunk [OF assms] by (metis reader.select_convs(1))
  then show "read_record version \<lparr>rbuf = b @ rest, rerr = e\<rparr> p = Inr (rec, n, \<lparr>rbuf = rest, rerr = e\<rparr>)"
    "b \<noteq> []" "n = p + length b" "lr_RecordOffset rec = p" "lr_StoredSize rec = length b"
    "m < length b \<Longrightarrow> cut_short e (read_record version \<lparr>rbuf = take m b, rerr = e\<rparr> p)"
    by simp_all
qed

lemma accepts_append:
  "accepts version p bs recs \<Longrightarrow> accepts version (p + length (concat bs)) bs' recs' \<Longrightarrow>
     accepts version p (bs @ bs') (recs @ recs')"
  by (induction version p bs recs rule: accepts.induct) (simp_all add: add.assoc)

lemma accepts_length: "accepts version p bs recs \<Longrightarrow> length recs = length bs"
  by (induction version p bs recs rule: accepts.induct) simp_all

section \<open>The loop\<close>

lemma iterate_loop_accepts:
  assumes "accepts version p bs recs" "p + length (concat bs) \<le> fileSize"
    and fn: "\<And>rec s. fn rec s = (None, g rec s)"
  shows "iterate_loop version fn fileSize \<lparr>rbuf = concat bs @ rest, rerr = e\<rparr> p s =
    iterate_loop version fn fileSize \<lparr>rbuf = rest, rerr = e\<rparr> (p + length (concat bs)) (fold g recs s)"
  using assms(1,2)
proof (induction version p bs recs arbitrary: s rule: accepts.induct)
  case (2 version p b bs rec recs)
  have rd: "read_record version \<lparr>rbuf = b, rerr = EOF\<rparr> p = Inr (rec, p + length b, \<lparr>rbuf = [], rerr = EOF\<rparr>)"
    using "2.prems" by simp
  have "p + length b \<le> fileSize" using "2.prems" by simp
  moreover have "p < fileSize" using read_chunk(2) [OF rd] "2.prems" by (cases b) simp_all
  moreover note read_chunk(1) [OF rd, of "concat bs @ rest" e]
  ultimately have "iterate_loop version fn fileSize \<lparr>rbuf = concat (b # bs) @ rest, rerr = e\<rparr> p s =
      iterate_loop version fn fileSize \<lparr>rbuf = concat bs @ rest, rerr = e\<rparr> (p + length b) (g rec s)"
    by (simp add: iterate_loop.simps [of version fn fileSize "\<lparr>rbuf = b @ concat bs @ rest, rerr = e\<rparr>" p] fn)
  then show ?case using "2.IH" [of "g rec s"] "2.prems" by (simp add: add.assoc)
qed simp_all

text \<open>How the scan ends, given what is left behind the last whole record.\<close>

definition scan_tail :: "32 word \<Rightarrow> nat \<Rightarrow> bytes \<Rightarrow> 's \<Rightarrow> 's scan_end" where
  "scan_tail version q rest s =
     (if rest = [] then ScanDone s
      else case read_record version \<lparr>rbuf = rest, rerr = EOF\<rparr> q of
        Inl err \<Rightarrow>
          if errors_Is err EOF \<or> errors_Is err ErrUnexpectedEOF then ScanTorn q err s
          else ScanError (Wrap ''record'' [ErrCorruptedData]) s
      | Inr _ \<Rightarrow> ScanDone s)"

lemma scan_total:
  assumes fn: "\<And>rec s. fn rec s = (None, g rec s)"
  shows "\<exists>bs recs rest. b = concat bs @ rest \<and> accepts version p bs recs \<and>
    (\<forall>x. read_record version \<lparr>rbuf = rest, rerr = EOF\<rparr> (p + length (concat bs)) \<noteq> Inr x) \<and>
    iterate_loop version fn (p + length b) \<lparr>rbuf = b, rerr = EOF\<rparr> p s =
      scan_tail version (p + length (concat bs)) rest (fold g recs s)"
proof (induction "length b" arbitrary: b p s rule: less_induct)
  case less
  show ?case
  proof (cases "read_record version \<lparr>rbuf = b, rerr = EOF\<rparr> p")
    case (Inl err)
    then show ?thesis
      by (intro exI [of _ "[]"] exI [of _ b])
        (auto simp: scan_tail_def iterate_loop.simps [of _ _ _ "\<lparr>rbuf = b, rerr = EOF\<rparr>" p])
  next
    case (Inr x)
    obtain rec n r where x: "x = (rec, n, r)" by (cases x)
    obtain c where c: "c \<noteq> []" "b = c @ rbuf r" "rerr r = EOF" "n = p + length c"
      "\<And>rest e. read_record version \<lparr>rbuf = c @ rest, rerr = e\<rparr> p = Inr (rec, n, \<lparr>rbuf = rest, rerr = e\<rparr>)"
      using fmt.chunk [OF Inr [unfolded x]] by (metis reader.select_convs)
    obtain bs recs rest where ih: "rbuf r = concat bs @ rest" "accepts version n bs recs"
      "\<forall>x. read_record version \<lparr>rbuf = rest, rerr = EOF\<rparr> (n + length (concat bs)) \<noteq> Inr x"
      "iterate_loop version fn (n + length (rbuf r)) \<lparr>rbuf = rbuf r, rerr = EOF\<rparr> n (g rec s) =
        scan_tail version (n + length (concat bs)) rest (fold g recs (g rec s))"
      using less.hyps [of "rbuf r" n "g rec s"] c(1,2) by auto
    have "r = \<lparr>rbuf = rbuf r, rerr = EOF\<rparr>" using c(3) by (cases r) simp
    then have "iterate_loop version fn (p + length b) \<lparr>rbuf = b, rerr = EOF\<rparr> p s =
        iterate_loop version fn (n + length (rbuf r)) \<lparr>rbuf = rbuf r, rerr = EOF\<rparr> n (g rec s)"
      using Inr x c(1,2,4) fn
      by (simp add: iterate_loop.simps [of _ _ _ "\<lparr>rbuf = c @ rbuf r, rerr = EOF\<rparr>" p] add.assoc)
    then show ?thesis
      using ih c(1,2,4) c(5) [of "[]" EOF]
      by (intro exI [of _ "c # bs"] exI [of _ "rec # recs"] exI [of _ rest]) (simp add: add.assoc)
  qed
qed

text \<open>
  The same for an input that may end in any error. \<open>scan_ends\<close> relates the
  outcome to the position \<open>q\<close> behind the last whole record, the bytes left
  there, and the state the callback has reached.
\<close>

definition scan_ends :: "32 word \<Rightarrow> nat \<Rightarrow> error \<Rightarrow> nat \<Rightarrow> bytes \<Rightarrow> 's \<Rightarrow> 's scan_end \<Rightarrow> bool" where
  "scan_ends version fileSize e q rest s res \<longleftrightarrow> (case res of
       ScanDone s' \<Rightarrow> s' = s \<and> q = fileSize
     | ScanTorn q' err s' \<Rightarrow> s' = s \<and> q' = q \<and> q < fileSize \<and>
         read_record version \<lparr>rbuf = rest, rerr = e\<rparr> q = Inl err \<and>
         (errors_Is err EOF \<or> errors_Is err ErrUnexpectedEOF)
     | ScanError err s' \<Rightarrow> s' = s \<and> errors_Is err ErrCorruptedData)"

lemma scan_sound:
  assumes fn: "\<And>rec s. fn rec s = (None, g rec s)" and "p \<le> fileSize"
  shows "\<exists>bs recs rest. b = concat bs @ rest \<and> accepts version p bs recs \<and> p + length (concat bs) \<le> fileSize \<and>
    scan_ends version fileSize e (p + length (concat bs)) rest (fold g recs s)
      (iterate_loop version fn fileSize \<lparr>rbuf = b, rerr = e\<rparr> p s)"
  using assms(2)
proof (induction "length b" arbitrary: b p s rule: less_induct)
  case less
  note unfold = iterate_loop.simps [of version fn fileSize "\<lparr>rbuf = b, rerr = e\<rparr>" p s]
  show ?case
  proof (cases "p < fileSize \<and> (\<exists>rec n r. read_record version \<lparr>rbuf = b, rerr = e\<rparr> p = Inr (rec, n, r) \<and> n \<le> fileSize)")
    case False
    then have "scan_ends version fileSize e p b s (iterate_loop version fn fileSize \<lparr>rbuf = b, rerr = e\<rparr> p s)"
      using less.prems by (auto simp: unfold scan_ends_def fn split: sum.splits prod.splits)
    then show ?thesis
      using less.prems by (intro exI [of _ "[]"] exI [of _ b]) simp
  next
    case True
    then obtain rec n r where rd: "read_record version \<lparr>rbuf = b, rerr = e\<rparr> p = Inr (rec, n, r)"
      and n: "p < fileSize" "n \<le> fileSize" by auto
    obtain c where c: "c \<noteq> []" "b = c @ rbuf r" "rerr r = e" "n = p + length c"
      "\<And>rest e. read_record version \<lparr>rbuf = c @ rest, rerr = e\<rparr> p = Inr (rec, n, \<lparr>rbuf = rest, rerr = e\<rparr>)"
      using fmt.chunk [OF rd] by (metis reader.select_convs)
    have r: "r = \<lparr>rbuf = rbuf r, rerr = e\<rparr>" using c(3) by (cases r) simp
    have loop: "iterate_loop version fn fileSize \<lparr>rbuf = b, rerr = e\<rparr> p s =
        iterate_loop version fn fileSize \<lparr>rbuf = rbuf r, rerr = e\<rparr> n (g rec s)"
      using rd n fn r by (simp add: unfold)
    have "length (rbuf r) < length b" using c(1,2) by simp
    from less.hyps [OF this n(2), of "g rec s"]
    obtain bs recs rest where ih: "rbuf r = concat bs @ rest" "accepts version n bs recs" "n + length (concat bs) \<le> fileSize"
      "scan_ends version fileSize e (n + length (concat bs)) rest (fold g recs (g rec s))
         (iterate_loop version fn fileSize \<lparr>rbuf = rbuf r, rerr = e\<rparr> n (g rec s))"
      by blast
    show ?thesis
      using ih c(2,4) c(5) [of "[]" EOF] unfolding loop
      by (intro exI [of _ "c # bs"] exI [of _ "rec # recs"] exI [of _ rest]) (simp add: add.assoc)
  qed
qed

section \<open>Logs of version 4 and 5 as lists of entries\<close>

record ent =
  e_flags :: bytes
  e_key :: bytes
  e_attrs :: bytes
  e_value :: bytes
  e_ext :: bytes

definition ent_bytes :: "ent \<Rightarrow> bytes" where
  "ent_bytes e = record_bytes (e_flags e) (e_key e) (e_attrs e) (e_value e) (e_ext e)"

definition ent_attributes :: "ent \<Rightarrow> attributes" where
  "ent_attributes e = (case decodeAttributes (e_attrs e) of Inr m \<Rightarrow> m | Inl _ \<Rightarrow> [])"

definition ent_ok :: "ent \<Rightarrow> bool" where
  "ent_ok e \<longleftrightarrow> record_fits (e_flags e) (e_key e) (e_attrs e) (e_value e) (e_ext e) \<and>
     validateExtensions (e_ext e) = Inr () \<and> decodeAttributes (e_attrs e) = Inr (ent_attributes e)"

definition ent_record :: "nat \<times> ent \<Rightarrow> logRecord" where
  "ent_record pe = the_record (e_flags (snd pe)) (e_key (snd pe)) (e_attrs (snd pe)) (e_value (snd pe))
     (e_ext (snd pe)) (ent_attributes (snd pe)) (fst pe)"

fun places :: "nat \<Rightarrow> ent list \<Rightarrow> (nat \<times> ent) list" where
  "places p [] = []"
| "places p (e # es) = (p, e) # places (p + length (ent_bytes e)) es"

abbreviation log_body :: "ent list \<Rightarrow> bytes" where
  "log_body es \<equiv> concat (map ent_bytes es)"

lemma places_append: "places p (es @ es') = places p es @ places (p + length (log_body es)) es'"
  by (induction es arbitrary: p) (simp_all add: add.assoc)

lemma length_ent_bytes:
  "ent_ok e \<Longrightarrow> length (ent_bytes e) = record_size (e_key e) (e_attrs e) (e_value e) (e_ext e)"
  by (simp add: ent_ok_def ent_bytes_def record_fits_def length_record_bytes)

lemma read_ent:
  assumes "ent_ok e" "version \<ge> 4"
  shows "read_record version \<lparr>rbuf = ent_bytes e @ rest, rerr = err\<rparr> p =
    Inr (ent_record (p, e), p + length (ent_bytes e), \<lparr>rbuf = rest, rerr = err\<rparr>)"
  using assms length_ent_bytes [OF assms(1)]
  by (simp add: read_record_def ent_ok_def ent_bytes_def readRecordFrom_record ent_record_def)

lemma accepts_ents:
  assumes "\<forall>e \<in> set es. ent_ok e" "version \<ge> 4"
  shows "accepts version p (map ent_bytes es) (map ent_record (places p es))"
  using assms(1)
proof (induction es arbitrary: p)
  case (Cons e es)
  then show ?case using read_ent [of e version "[]" EOF p] assms(2) by simp
qed simp

lemma read_record_ent:
  assumes "read_record version r p = Inr (rec, n, r')" "version \<ge> 4"
  obtains e where "ent_ok e" "rbuf r = ent_bytes e @ rbuf r'" "rerr r' = rerr r" "rec = ent_record (p, e)"
    "n = p + length (ent_bytes e)"
proof -
  have "readRecordFrom r p = Inr (rec, n, r')" using assms by (simp add: read_record_def)
  then obtain f k a v x m where *: "record_fits f k a v x" "rbuf r = record_bytes f k a v x @ rbuf r'"
    "rerr r' = rerr r" "validateExtensions x = Inr ()" "decodeAttributes a = Inr m"
    "rec = the_record f k a v x m p" "n = p + record_size k a v x"
    by (rule readRecordFrom_inv)
  define e where "e = \<lparr>e_flags = f, e_key = k, e_attrs = a, e_value = v, e_ext = x\<rparr>"
  have at: "ent_attributes e = m" using *(5) by (simp add: ent_attributes_def e_def)
  have ok: "ent_ok e" using * at by (simp add: ent_ok_def e_def)
  show ?thesis
    using * at length_ent_bytes [OF ok] by (intro that [OF ok]) (simp_all add: e_def ent_bytes_def ent_record_def)
qed

lemma accepts_ents_iff:
  assumes "version \<ge> 4"
  shows "accepts version p bs recs \<longleftrightarrow>
    (\<exists>es. (\<forall>e \<in> set es. ent_ok e) \<and> bs = map ent_bytes es \<and> recs = map ent_record (places p es))"
proof
  show "accepts version p bs recs \<Longrightarrow>
      \<exists>es. (\<forall>e \<in> set es. ent_ok e) \<and> bs = map ent_bytes es \<and> recs = map ent_record (places p es)"
    using assms
  proof (induction version p bs recs rule: accepts.induct)
    case (2 version p b bs rec recs)
    then obtain es where es: "\<forall>e \<in> set es. ent_ok e" "bs = map ent_bytes es"
      "recs = map ent_record (places (p + length b) es)" by auto
    have "read_record version \<lparr>rbuf = b, rerr = EOF\<rparr> p = Inr (rec, p + length b, \<lparr>rbuf = [], rerr = EOF\<rparr>)"
      using "2.prems" by simp
    then obtain e where "ent_ok e" "b = ent_bytes e" "rec = ent_record (p, e)"
      using "2.prems"(2) by (rule read_record_ent) simp
    then show ?case using es by (intro exI [of _ "e # es"]) simp
  qed auto
qed (auto intro: accepts_ents assms)

lemma read_ent_cut:
  assumes "ent_ok e" "version \<ge> 4" "m < length (ent_bytes e)"
  shows "cut_short err (read_record version \<lparr>rbuf = take m (ent_bytes e), rerr = err\<rparr> p)"
  using read_chunk(6) [OF read_ent [OF assms(1,2), of "[]" EOF p, simplified] assms(3)] by simp

lemma ent_bytes_nonempty: "ent_ok e \<Longrightarrow> ent_bytes e \<noteq> []"
  using length_ent_bytes [of e] by (auto simp: record_size_def)

text \<open>
  A log that ends in an incomplete record: the whole records are delivered and
  the scan stops at the incomplete one. When a read of the file fails on the way,
  the scan reports an error or has read everything, and never takes the failure
  for a torn tail.
\<close>

definition cut_tail :: "32 word \<Rightarrow> nat \<Rightarrow> bytes \<Rightarrow> bool" where
  "cut_tail version q tail \<longleftrightarrow>
     tail = [] \<or> (\<forall>n e. cut_short e (read_record version \<lparr>rbuf = take n tail, rerr = e\<rparr> q))"

lemma cut_tail_chunk:
  assumes "read_record version \<lparr>rbuf = b, rerr = EOF\<rparr> q = Inr (rec, n, \<lparr>rbuf = [], rerr = EOF\<rparr>)" "m < length b"
  shows "cut_tail version q (take m b)"
  using read_chunk(6) [OF assms(1)] assms(2) by (auto simp: cut_tail_def)

lemma scan_torn_tail:
  assumes acc: "accepts version p bs recs" and tl: "cut_tail version q tail"
    and fn: "\<And>rec s. fn rec s = (None, g rec s)" and q: "q = p + length (concat bs)"
  shows "let res = iterate_loop version fn (q + length tail) \<lparr>rbuf = concat bs @ tail, rerr = EOF\<rparr> p s;
      s' = fold g recs s in
    if tail = [] then res = ScanDone s' else \<exists>err. res = ScanTorn q err s'"
proof -
  have loop: "iterate_loop version fn (q + length tail) \<lparr>rbuf = concat bs @ tail, rerr = EOF\<rparr> p s =
      iterate_loop version fn (q + length tail) \<lparr>rbuf = tail, rerr = EOF\<rparr> q (fold g recs s)"
    using iterate_loop_accepts [OF acc _ fn, of "q + length tail"] by (simp add: q)
  show ?thesis
  proof (cases "tail = []")
    case True
    then show ?thesis unfolding Let_def loop by (simp add: iterate_loop.simps)
  next
    case False
    then have "cut_short EOF (read_record version \<lparr>rbuf = take (length tail) tail, rerr = EOF\<rparr> q)"
      using tl unfolding cut_tail_def by blast
    then have "torn (read_record version \<lparr>rbuf = tail, rerr = EOF\<rparr> q)" by simp
    then show ?thesis
      using False by (auto simp: loop torn_def iterate_loop.simps [of _ _ _ "\<lparr>rbuf = tail, rerr = EOF\<rparr>"] Let_def)
  qed
qed

lemma scan_read_error:
  assumes acc: "accepts version p bs recs" and tl: "cut_tail version q tail"
    and fn: "\<And>rec s. fn rec s = (None, g rec s)" and q: "q = p + length (concat bs)"
  shows "tail = [] \<and> iterate_loop version fn (q + length tail) \<lparr>rbuf = take n (concat bs @ tail), rerr = IOError\<rparr> p s
        = ScanDone (fold g recs s)
    \<or> (\<exists>err s'. iterate_loop version fn (q + length tail) \<lparr>rbuf = take n (concat bs @ tail), rerr = IOError\<rparr> p s
        = ScanError err s')"
  using acc q tl
proof (induction version p bs recs arbitrary: n s rule: accepts.induct)
  case (1 version p)
  show ?case
  proof (cases "tail = []")
    case False
    then have "read_record version \<lparr>rbuf = take n tail, rerr = IOError\<rparr> p = Inl IOError"
      using 1 by (simp add: cut_tail_def cut_short_def)
    then show ?thesis using False 1 by (simp add: iterate_loop.simps [of _ _ _ "\<lparr>rbuf = _, rerr = IOError\<rparr>"])
  qed (use 1 in \<open>simp add: iterate_loop.simps\<close>)
next
  case (2 version p b bs rec recs)
  have rd: "read_record version \<lparr>rbuf = b, rerr = EOF\<rparr> p = Inr (rec, p + length b, \<lparr>rbuf = [], rerr = EOF\<rparr>)"
    using "2.prems" by simp
  have pq: "p < q + length tail" "p + length b \<le> q + length tail"
    using "2.prems"(2) read_chunk(2) [OF rd] by (cases b, auto)
  show ?case
  proof (cases "n < length b")
    case True
    then have "take n (concat (b # bs) @ tail) = take n b" by simp
    then show ?thesis
      using read_chunk(6) [OF rd True, of IOError] pq
      by (simp add: cut_short_def iterate_loop.simps [of _ _ _ "\<lparr>rbuf = _, rerr = IOError\<rparr>"] del: take_append)
  next
    case False
    then have "take n (concat (b # bs) @ tail) = b @ take (n - length b) (concat bs @ tail)" by simp
    then have "iterate_loop version fn (q + length tail) \<lparr>rbuf = take n (concat (b # bs) @ tail), rerr = IOError\<rparr> p s =
        iterate_loop version fn (q + length tail) \<lparr>rbuf = take (n - length b) (concat bs @ tail), rerr = IOError\<rparr>
          (p + length b) (g rec s)"
      using read_chunk(1) [OF rd] pq
      by (simp add: fn iterate_loop.simps [of _ _ _ "\<lparr>rbuf = b @ _, rerr = IOError\<rparr>"] del: take_append)
    then show ?thesis
      using "2.IH" [of "n - length b" "g rec s"] "2.prems"
      by (simp add: add.assoc del: take_append)
  qed
qed simp_all

section \<open>Iterate\<close>

lemma on_handle_open [simp]: "\<not> l_closed l \<Longrightarrow> on_handle l m = m"
  by (simp add: on_handle_def)

text \<open>
  The shape of a log file of version 4 or 5 that a crash may leave: a header,
  whole records, and a proper prefix of one more.
\<close>

definition log_file :: "bytes \<Rightarrow> ent list \<Rightarrow> bytes \<Rightarrow> os_file \<Rightarrow> bool" where
  "log_file hdr es tail f \<longleftrightarrow> content f = hdr @ log_body es @ tail \<and> length hdr = logHeaderSize \<and>
     (\<forall>e \<in> set es. ent_ok e) \<and> (\<exists>x m. ent_ok x \<and> m < length (ent_bytes x) \<and> tail = take m (ent_bytes x))"

lemma log_file_chunks:
  assumes "log_file hdr es tail f" "version \<ge> 4"
  shows "content f = hdr @ concat (map ent_bytes es) @ tail" "length hdr = logHeaderSize"
    "accepts version logHeaderSize (map ent_bytes es) (map ent_record (places logHeaderSize es))" "cut_tail version q tail"
proof -
  obtain x m where x: "ent_ok x" "m < length (ent_bytes x)" "tail = take m (ent_bytes x)"
    using assms(1) by (auto simp: log_file_def)
  show "content f = hdr @ concat (map ent_bytes es) @ tail" "length hdr = logHeaderSize"
    "accepts version logHeaderSize (map ent_bytes es) (map ent_record (places logHeaderSize es))"
    using assms accepts_ents by (auto simp: log_file_def)
  show "cut_tail version q tail"
    unfolding x(3) using read_ent [OF x(1) assms(2), of "[]" EOF q] by (intro cut_tail_chunk [OF _ x(2)]) simp
qed

text \<open>\<^verbatim>\<open>Iterate\<close> on a log of any version, under any failures.\<close>

lemma wp_Iterate_chunks:
  assumes l: "\<not> l_closed l" "l_writePos l = length (content f)"
    and w: "files w (l_path l) = Some f" "content f = hdr @ concat bs @ tail" "length hdr = logHeaderSize"
      "accepts (l_version l) logHeaderSize bs recs" "cut_tail (l_version l) (logHeaderSize + length (concat bs)) tail"
    and fn: "\<And>rec s. fn rec s = (None, g rec s)"
    and good: "\<And>fs. still w fs \<Longrightarrow> Q (Inr (), fold g recs s, l\<lparr>l_writePos := logHeaderSize + length (concat bs)\<rparr>)
        (if unknownReadOnly l = 0 then set_file (l_path l) (Some (f\<lparr>content := hdr @ concat bs\<rparr>)) (w\<lparr>faults := fs\<rparr>)
         else w\<lparr>faults := fs\<rparr>)"
    and bad: "\<And>fs err s'. \<not> calm w \<Longrightarrow> Q (Inl err, s', l) (w\<lparr>faults := fs\<rparr>)"
    and crash: "\<And>fs. \<not> calm w \<Longrightarrow> C (w\<lparr>faults := fs\<rparr>)"
  shows "wp (Iterate l fn s) Q C w"
proof -
  define q where "q = logHeaderSize + length (concat bs)"
  have pos: "l_writePos l = q + length tail" using l(2) w(2,3) by (simp add: q_def)
  have keep: "set_file (l_path l) (Some (f\<lparr>content := hdr @ concat bs\<rparr>)) (w\<lparr>faults := fs\<rparr>) = w\<lparr>faults := fs\<rparr>
      \<and> l\<lparr>l_writePos := q\<rparr> = l" if "tail = []" for fs
  proof -
    have "f\<lparr>content := hdr @ concat bs\<rparr> = f" using that w(2) by (cases f) simp
    moreover have "(files w)(l_path l := Some f) = files w" using w(1) by auto
    ultimately show ?thesis using that pos by (cases l) (simp add: set_file_def)
  qed
  have drop: "drop logHeaderSize (content f) = concat bs @ tail" using w(2,3) by simp
  let ?s = "fold g recs s"
  have whole: "wp (iterate_end l (ScanDone ?s)) Q C (w\<lparr>faults := fs\<rparr>)" if "tail = []" "still w fs" for fs
    using good [OF that(2)] keep [OF that(1), of fs] by (simp add: iterate_end_def wp_return q_def split: if_splits)
  have torn: "wp (iterate_end l (ScanTorn q err ?s)) Q C (w\<lparr>faults := fs\<rparr>)" if "still w fs" for err fs
  proof -
    have "take q (content f) = hdr @ concat bs" "length (content f) = q + length tail"
      using w(2,3) pos l(2) by (simp_all add: q_def)
    then show ?thesis
      unfolding iterate_end_def using good bad crash w(1) that
      by (auto simp: wp_bind wp_return q_def intro!: wp_Truncate)
  qed
  have failed: "wp (iterate_end l (ScanError err s')) Q C (w\<lparr>faults := fs\<rparr>)" if "\<not> calm w" for err s' fs
    using bad that by (simp add: iterate_end_def wp_return)
  note scan = scan_torn_tail [where fn = fn and g = g and s = s, OF w(4) w(5) [folded q_def] fn q_def, unfolded Let_def]
  note ioerror = scan_read_error [where fn = fn and g = g and s = s, OF w(4) w(5) [folded q_def] fn q_def]
  have "wp (iterate_end l (iterate_loop (l_version l) fn (q + length tail) \<lparr>rbuf = take n (concat bs @ tail), rerr = IOError\<rparr>
      logHeaderSize s)) Q C (w\<lparr>faults := fs\<rparr>)" if "\<not> calm w" for n fs
    using ioerror [of n] whole failed that by (fastforce simp: still_def)
  moreover have "wp (iterate_end l (iterate_loop (l_version l) fn (q + length tail) \<lparr>rbuf = concat bs @ tail, rerr = EOF\<rparr>
      logHeaderSize s)) Q C (w\<lparr>faults := fs\<rparr>)" if "still w fs" for fs
    using scan whole torn that by (auto split: if_splits)
  ultimately show ?thesis
    unfolding Iterate_def wp_bind on_handle_open [OF l(1)]
    using bad crash w(1) by (intro wp_NewReader) (simp_all add: wp_return drop pos del: take_append)
qed

lemma wp_Iterate_any:
  assumes l: "\<not> l_closed l" "l_version l \<ge> 4" "l_writePos l = length (content f)"
    and w: "files w (l_path l) = Some f" "log_file hdr es tail f"
    and fn: "\<And>rec s. fn rec s = (None, g rec s)"
    and good: "\<And>fs. still w fs \<Longrightarrow> Q (Inr (), fold g (map ent_record (places logHeaderSize es)) s,
        l\<lparr>l_writePos := logHeaderSize + length (log_body es)\<rparr>)
        (if unknownReadOnly l = 0 then set_file (l_path l) (Some (f\<lparr>content := hdr @ log_body es\<rparr>)) (w\<lparr>faults := fs\<rparr>)
         else w\<lparr>faults := fs\<rparr>)"
    and bad: "\<And>fs err s'. \<not> calm w \<Longrightarrow> Q (Inl err, s', l) (w\<lparr>faults := fs\<rparr>)"
    and crash: "\<And>fs. \<not> calm w \<Longrightarrow> C (w\<lparr>faults := fs\<rparr>)"
  shows "wp (Iterate l fn s) Q C w"
  by (rule wp_Iterate_chunks [where g = g, OF l(1,3) w(1) log_file_chunks [OF w(2) l(2)] fn]) (use good bad crash in auto)

text \<open>The same for a log that may be written.\<close>

lemma wp_Iterate:
  assumes l: "\<not> l_closed l" "l_version l \<ge> 4" "unknownReadOnly l = 0" "l_writePos l = length (content f)"
    and w: "files w (l_path l) = Some f" "log_file hdr es tail f"
    and fn: "\<And>rec s. fn rec s = (None, g rec s)"
    and good: "\<And>fs. still w fs \<Longrightarrow> Q (Inr (), fold g (map ent_record (places logHeaderSize es)) s,
        l\<lparr>l_writePos := logHeaderSize + length (log_body es)\<rparr>)
        (set_file (l_path l) (Some (f\<lparr>content := hdr @ log_body es\<rparr>)) (w\<lparr>faults := fs\<rparr>))"
    and bad: "\<And>fs err s'. \<not> calm w \<Longrightarrow> Q (Inl err, s', l) (w\<lparr>faults := fs\<rparr>)"
    and crash: "\<And>fs. \<not> calm w \<Longrightarrow> C (w\<lparr>faults := fs\<rparr>)"
  shows "wp (Iterate l fn s) Q C w"
  by (rule wp_Iterate_any [where g = g, OF l(1,2,4) w fn]) (use l(3) good bad crash in auto)

section \<open>Properties of the scan\<close>

text \<open>The file after \<^verbatim>\<open>Iterate\<close> has dealt with the way the loop ended, when no call fails.\<close>

fun after_scan :: "appendLog \<Rightarrow> os_file \<Rightarrow> 's scan_end \<Rightarrow> world \<Rightarrow> ((error + unit) \<times> 's \<times> appendLog) option \<times> world" where
  "after_scan l f (ScanDone s) w = (Some (Inr (), s, l), w)"
| "after_scan l f (ScanError err s) w = (Some (Inl err, s, l), w)"
| "after_scan l f (ScanTorn q err s) w = (Some (Inr (), s, l\<lparr>l_writePos := q\<rparr>),
     if unknownReadOnly l = 0 then set_file (l_path l) (Some (f\<lparr>content := take q (content f)\<rparr>)) w else w)"

lemma file_NewReader_good:
  assumes "faults w = []" "files w p = Some f"
  shows "file_NewReader p off w = (Some (Inr \<lparr>rbuf = drop off (content f), rerr = EOF\<rparr>), w)"
proof -
  have "w\<lparr>faults := []\<rparr> = w" using assms(1) by (cases w) simp
  then show ?thesis
    using assms by (simp add: file_NewReader_def bind_io_def syscall_good with_file_def Let_def)
qed


definition sample_log :: appendLog where
  "sample_log = (new_log ''s'')\<lparr>l_writePos := 53\<rparr>"

definition sample_file :: os_file where
  "sample_file = \<lparr>content = header_bytes sample_log @ sample_record @ take 7 sample_record, durable = [], fmode = 420\<rparr>"

definition sample_world :: "fault list \<Rightarrow> world" where
  "sample_world fs = \<lparr>files = [''s'' \<mapsto> sample_file], locked = {}, umask = 0, faults = fs\<rparr>"

lemma length_header [simp]: "length (header_bytes l) = logHeaderSize"
  by (simp add: header_bytes_def logMagic_def bytes_of_def PutUint32_def logHeaderSize_def)

lemma sample_log [simp]:
  "\<not> l_closed sample_log" "l_path sample_log = ''s''" "l_writePos sample_log = 53" "l_version sample_log = 5"
  "unknownReadOnly sample_log = 0" "files (sample_world fs) ''s'' = Some sample_file" "faults (sample_world fs) = fs"
  "length (content sample_file) = 53"
  by (simp_all add: sample_log_def new_log_def unknownReadOnly_def sample_world_def sample_file_def logHeaderSize_def
      length_sample logVersion_def)

definition sample_ent :: ent where
  "sample_ent = \<lparr>e_flags = [0, 0, 0, 0], e_key = [107], e_attrs = [0, 0, 0, 0], e_value = [118], e_ext = []\<rparr>"

lemma sample_ent: "ent_ok sample_ent" "ent_bytes sample_ent = sample_record"
  using sample_fits by (simp_all add: sample_ent_def ent_ok_def ent_attributes_def ent_bytes_def sample_record_def
      sample_attributes validateExtensions_def validateExtensions_from.simps)

lemma sample_log_file: "log_file (header_bytes sample_log) [sample_ent] (take 7 sample_record) sample_file"
  unfolding log_file_def
  by (auto simp: sample_file_def sample_ent intro!: exI [of _ sample_ent] exI [of _ 7] simp: length_sample)


text \<open>
  C28. Repair of a torn tail, under any failures: a log of version 4 or 5 holds
  whole records and then, after a crash during an append, a proper prefix of
  one more. Whatever calls fail, \<^verbatim>\<open>Iterate\<close> either succeeds, has then shown the
  callback every whole record once and in order, has cut the file behind the last
  of them, and appends continue there; or it reports an error, or dies, and the
  file still has every byte it had. When no call fails it succeeds.
\<close>

theorem Iterate_repairs_torn_log:
  assumes "\<not> l_closed l" "l_version l \<ge> 4" "unknownReadOnly l = 0" "l_writePos l = length (content f)"
    and "files w (l_path l) = Some f" "log_file hdr es tail f" and "\<And>rec s. fn rec s = (None, g rec s)"
  shows "wp (Iterate l fn s)
    (\<lambda>(r, s', l') w'. case r of
        Inr _ \<Rightarrow> s' = fold g (map ent_record (places logHeaderSize es)) s \<and>
          l' = l\<lparr>l_writePos := logHeaderSize + length (log_body es)\<rparr> \<and>
          files w' = (files w)(l_path l \<mapsto> f\<lparr>content := hdr @ log_body es\<rparr>)
      | Inl _ \<Rightarrow> \<not> calm w \<and> l' = l \<and> files w' = files w)
    (\<lambda>w'. \<not> calm w \<and> files w' = files w) w"
  by (rule wp_Iterate [where g = g, OF assms]) simp_all

theorem Iterate_repairs_torn_log_witness:
  "wp (Iterate sample_log (\<lambda>rec ks. (None, lr_Key rec # ks)) [])
    (\<lambda>(r, s', l') w'. case r of
        Inr _ \<Rightarrow> s' = [''k''] \<and> l_writePos l' = 46 \<and>
          files w' ''s'' = Some (sample_file\<lparr>content := header_bytes sample_log @ sample_record\<rparr>)
      | Inl _ \<Rightarrow> files w' ''s'' = Some sample_file)
    (\<lambda>w'. files w' ''s'' = Some sample_file) (sample_world [Good, Failed 3])"
proof -
  have "string_of [107] = ''k''" using string_of_bytes_of [of "''k''"] by (simp add: bytes_of_def)
  then have "fold (\<lambda>rec ks. lr_Key rec # ks) (map ent_record (places logHeaderSize [sample_ent])) [] = [''k'']"
    by (simp add: ent_record_def the_record_def sample_ent_def)
  note key = this
  show ?thesis
  proof (rule wp_mono [OF Iterate_repairs_torn_log [of sample_log sample_file "sample_world [Good, Failed 3]" _ _ _
        "\<lambda>rec ks. (None, lr_Key rec # ks)" "\<lambda>rec ks. lr_Key rec # ks" "[]", OF _ _ _ _ _ sample_log_file]], goal_cases)
    case (7 x w')
    then show ?case using key by (cases x; cases "fst x") (simp_all add: sample_ent length_sample logHeaderSize_def)
  qed simp_all
qed



end
