(* ===== verification/LogAccess.thy ===== *)
theory LogAccess
  imports LogScan
begin

text \<open>
  Correctness of the other operations of the append log: the header, opening and
  creating a log, appending, random access, and the recovery of the files an
  interrupted compaction leaves. The specifications are weakest preconditions,
  so they cover every failing call and every point at which the process can die.
\<close>

section \<open>Random access\<close>

text \<open>What a stored record holds: its value, and its value and extension area.\<close>

definition stored_value :: "bytes \<Rightarrow> error + bytes" where
  "stored_value rec = bindE (validateStoredRecord rec) (bounds_value rec)"

definition stored_parts :: "bytes \<Rightarrow> error + (bytes \<times> bytes)" where
  "stored_parts rec = bindE (validateStoredRecord rec) (\<lambda>bounds.
     bindE (bounds_value rec bounds) (\<lambda>v. bindE (bounds_extensions rec bounds) (\<lambda>x. Inr (v, x))))"

lemma stored_ent:
  assumes "ent_ok e"
  shows "stored_value (ent_bytes e) = Inr (e_value e)" "stored_parts (ent_bytes e) = Inr (e_value e, e_ext e)"
    "checkStoredSize (length (ent_bytes e)) = Inr ()"
proof -
  have fits: "record_fits (e_flags e) (e_key e) (e_attrs e) (e_value e) (e_ext e)" using assms by (simp add: ent_ok_def)
  then have "length (e_flags e) = 4" by (simp add: record_fits_def)
  note v = validateStoredRecord_record [OF this record_fits_size [OF fits]] and s = the_bounds_slices [OF this]
  show "stored_value (ent_bytes e) = Inr (e_value e)" "stored_parts (ent_bytes e) = Inr (e_value e, e_ext e)"
    by (simp_all add: stored_value_def stored_parts_def ent_bytes_def v bounds_value_def bounds_extensions_def s)
  show "checkStoredSize (length (ent_bytes e)) = Inr ()"
    unfolding length_ent_bytes [OF assms] using record_fits_size [OF fits]
    by (simp add: checkStoredSize_def layout record_size_def)
qed

text \<open>
  A record location the index can hold: inside the log, behind the header, and
  of a size a record can have.
\<close>

definition in_log :: "appendLog \<Rightarrow> os_file \<Rightarrow> nat \<Rightarrow> nat \<Rightarrow> bool" where
  "in_log l f off n \<longleftrightarrow> \<not> l_closed l \<and> logHeaderSize \<le> off \<and> off + n \<le> l_writePos l \<and>
     l_writePos l \<le> length (content f) \<and> checkStoredSize n = Inr ()"

abbreviation slice :: "nat \<Rightarrow> nat \<Rightarrow> bytes \<Rightarrow> bytes" where
  "slice off n b \<equiv> take n (drop off b)"

lemma wp_mappedRecord:
  assumes "files w (l_path l) = Some f" "in_log l f off n"
    and "l_mapped l \<noteq> None \<Longrightarrow> Q (Some (Inr (slice off n (content f)))) w" "Q None w"
  shows "wp (mappedRecord l off n) Q C w"
  using assms by (auto simp: wp_def mappedRecord_def Let_def in_log_def go_slice_def)

lemma wp_ReadRecordAt:
  assumes f: "files w (l_path l) = Some f" "in_log l f off n"
    and good: "\<And>fs. still w fs \<Longrightarrow> Q (stored_value (slice off n (content f))) (w\<lparr>faults := fs\<rparr>)"
    and bad: "\<And>fs. \<not> calm w \<Longrightarrow> Q (Inl IOError) (w\<lparr>faults := fs\<rparr>)" and crash: "\<And>fs. \<not> calm w \<Longrightarrow> C (w\<lparr>faults := fs\<rparr>)"
  shows "wp (ReadRecordAt l off n pooled) Q C w"
proof -
  have "w\<lparr>faults := faults w\<rparr> = w" by simp
  then have now: "Q (stored_value (slice off n (content f))) w" using good [OF still_simps(1)] by metis
  have rd: "wp (readRecordFromFile l off n pooled) (\<lambda>(v, _). Q v) C w"
    unfolding readRecordFromFile_def Let_def wp_bind using f good bad crash
    by (auto simp: in_log_def wp_return stored_value_def intro!: wp_ReadAt)
  show ?thesis
    unfolding ReadRecordAt_def using f(2)
    by (auto simp: in_log_def wp_bind wp_return stored_value_def [symmetric] prod.case_distrib now
        intro!: wp_mappedRecord [OF f] wp_mono [OF rd])
qed

lemma wp_ReadRecordAtInto:
  assumes f: "files w (l_path l) = Some f" "in_log l f off n"
    and good: "\<And>fs scratch'. still w fs \<Longrightarrow> Q (stored_value (slice off n (content f)), scratch') (w\<lparr>faults := fs\<rparr>)"
    and bad: "\<And>fs scratch'. \<not> calm w \<Longrightarrow> Q (Inl IOError, scratch') (w\<lparr>faults := fs\<rparr>)" and crash: "\<And>fs. \<not> calm w \<Longrightarrow> C (w\<lparr>faults := fs\<rparr>)"
  shows "wp (ReadRecordAtInto l off n scratch) Q C w"
proof -
  have "w\<lparr>faults := faults w\<rparr> = w" by simp
  then have now: "Q (stored_value (slice off n (content f)), scratch') w" for scratch' using good [OF still_simps(1)] by metis
  have rd: "wp (readRecordFromFile l off n scratch) Q C w"
    unfolding readRecordFromFile_def Let_def wp_bind using f good bad crash
    by (auto simp: in_log_def wp_return stored_value_def intro!: wp_ReadAt)
  show ?thesis
    unfolding ReadRecordAtInto_def using f(2) rd now
    by (auto simp: in_log_def wp_bind wp_return stored_value_def [symmetric] split: sum.split
        intro!: wp_mappedRecord [OF f])
qed

lemma wp_ReadRecordAndExtensionsAt:
  assumes f: "files w (l_path l) = Some f" "in_log l f off n"
    and good: "\<And>fs. still w fs \<Longrightarrow> Q (stored_parts (slice off n (content f))) (w\<lparr>faults := fs\<rparr>)"
    and bad: "\<And>fs. \<not> calm w \<Longrightarrow> Q (Inl IOError) (w\<lparr>faults := fs\<rparr>)" and crash: "\<And>fs. \<not> calm w \<Longrightarrow> C (w\<lparr>faults := fs\<rparr>)"
  shows "wp (ReadRecordAndExtensionsAt l off n) Q C w"
proof -
  have "w\<lparr>faults := faults w\<rparr> = w" by simp
  then have "Q (stored_parts (slice off n (content f))) w" using good [OF still_simps(1)] by metis
  then show ?thesis
    unfolding ReadRecordAndExtensionsAt_def using f good bad crash
    by (auto simp: in_log_def wp_bind wp_try wp_return stored_parts_def [symmetric]
        intro!: wp_mappedRecord [OF f] wp_ReadAt)
qed

section \<open>The memory map\<close>

text \<open>
  Two states of a log that differ at most in the encode buffer and the memory
  map, neither of which is part of what the log holds.
\<close>

definition same_log :: "appendLog \<Rightarrow> appendLog \<Rightarrow> bool" where
  "same_log l l' \<longleftrightarrow> l\<lparr>l_appendBuf := [], l_mapped := None, l_mapDisabled := False\<rparr> =
     l'\<lparr>l_appendBuf := [], l_mapped := None, l_mapDisabled := False\<rparr>"

lemma same_log_simps:
  assumes "same_log l l'"
  shows "l_path l' = l_path l" "l_closed l' = l_closed l" "l_writePos l' = l_writePos l" "l_version l' = l_version l"
    "l_incompatibleFeatures l' = l_incompatibleFeatures l" "l_readOnlyFeatures l' = l_readOnlyFeatures l"
    "l_mapSlack l' = l_mapSlack l" "unknownReadOnly l' = unknownReadOnly l" "header_bytes l' = header_bytes l"
  using assms by (cases l; cases l'; simp add: same_log_def unknownReadOnly_def header_bytes_def)+

lemma same_log_refl [simp]: "same_log l l"
  by (simp add: same_log_def)

lemma same_log_trans: "same_log l l' \<Longrightarrow> same_log l' l'' \<Longrightarrow> same_log l l''"
  by (simp add: same_log_def)

lemma same_log_writePos: "same_log l l' \<Longrightarrow> same_log (l\<lparr>l_writePos := p\<rparr>) (l'\<lparr>l_writePos := p\<rparr>)"
  by (cases l; cases l'; simp add: same_log_def)

lemma same_log_buf [simp]: "same_log l (l\<lparr>l_appendBuf := b\<rparr>)"
  by (cases l) (simp add: same_log_def)

lemma same_log_map [simp]: "same_log l (l\<lparr>l_mapped := m\<rparr>)" "same_log l (l\<lparr>l_mapDisabled := d\<rparr>)"
  by (cases l, simp add: same_log_def)+

lemma wp_remap:
  assumes "\<And>fs l'. still w fs \<Longrightarrow> same_log l l' \<Longrightarrow> Q l' (w\<lparr>faults := fs\<rparr>)" "\<And>fs. \<not> calm w \<Longrightarrow> C (w\<lparr>faults := fs\<rparr>)"
  shows "wp (remap l) Q C w"
proof -
  have map: "wp (let len = l_writePos l' + l_mapSlack l' in
      if len = 0 \<or> len > 2 ^ 63 - 1 then return (l'\<lparr>l_mapDisabled := True\<rparr>)
      else bind_io (on_handle l' (os_Mmap (l_path l') len)) (\<lambda>r. return (case r of
        Inl err \<Rightarrow> l'\<lparr>l_mapDisabled := True\<rparr> | Inr _ \<Rightarrow> l'\<lparr>l_mapped := Some len\<rparr>))) Q C (w\<lparr>faults := fs\<rparr>)"
    if "same_log l l'" "still w fs" for l' fs
    using same_log_trans [OF that(1)] that(2) assms
    by (auto simp: still_def on_handle_def wp_bind wp_return Let_def intro!: wp_Mmap)
  show ?thesis
  proof (cases "l_mapDisabled l")
    case True
    then show ?thesis using assms(1) [of "faults w" l] by (simp add: remap_def wp_return)
  next
    case False
    have "wp (case l_mapped l of Some _ \<Rightarrow> ignore_io os_Munmap (return (l\<lparr>l_mapped := None\<rparr>)) | None \<Rightarrow> return l)
        (\<lambda>l' w'. same_log l l' \<and> (\<exists>fs. still w fs \<and> w' = w\<lparr>faults := fs\<rparr>)) C w"
      using assms(2) by (auto simp: wp_ignore wp_return split: option.split intro!: wp_Munmap)
    then show ?thesis
      unfolding remap_def using False by (simp only: wp_bind if_False) (erule wp_mono, use map in blast, assumption)
  qed
qed

section \<open>Append\<close>

text \<open>
  What \<^verbatim>\<open>Append\<close> accepts, and the entry it then writes. There is no condition on
  the length of the whole record: the limits on its parts keep it far below
  \<^verbatim>\<open>1<<32\<close>, so the check of \<^verbatim>\<open>recordLength\<close> never fires.
\<close>

definition appendable :: "string \<Rightarrow> bytes \<Rightarrow> attributes \<Rightarrow> bytes \<Rightarrow> bool" where
  "appendable key v attrs x \<longleftrightarrow> length key \<le> maxKeySize \<and> length v \<le> maxValueSize \<and>
     length x \<le> maxExtensionsSize \<and> validateExtensions x = Inr () \<and> valid_attributes attrs"

definition mk_ent :: "string \<Rightarrow> bytes \<Rightarrow> bool \<Rightarrow> attributes \<Rightarrow> bytes \<Rightarrow> ent" where
  "mk_ent key v deleted attrs x = \<lparr>e_flags = record_flags deleted, e_key = bytes_of key,
     e_attrs = attr_block (by_name attrs), e_value = v, e_ext = x\<rparr>"

lemma mk_ent_ok:
  assumes "appendable key v attrs x" "go_map attrs"
  shows "ent_ok (mk_ent key v d attrs x)" "encodeAttributes attrs = Inr (e_attrs (mk_ent key v d attrs x))"
    "ent_attributes (mk_ent key v d attrs x) = by_name attrs"
    "length (ent_bytes (mk_ent key v d attrs x)) =
       24 + length key + length (e_attrs (mk_ent key v d attrs x)) + length v + length x"
proof -
  note d = decodeAttributes_by_name [of attrs]
  show enc: "encodeAttributes attrs = Inr (e_attrs (mk_ent key v d attrs x))"
    using assms by (simp add: encodeAttributes_Inr_iff appendable_def mk_ent_def)
  show at: "ent_attributes (mk_ent key v d attrs x) = by_name attrs"
    using assms d by (simp add: ent_attributes_def mk_ent_def appendable_def)
  have "attr_size (by_name attrs) \<le> maxAttributesSize"
    using assms by (simp add: appendable_def valid_attributes_def by_name_props)
  then show ok: "ent_ok (mk_ent key v d attrs x)"
    using assms d at by (simp add: ent_ok_def mk_ent_def record_fits_def appendable_def length_attr_block)
  show "length (ent_bytes (mk_ent key v d attrs x)) =
      24 + length key + length (e_attrs (mk_ent key v d attrs x)) + length v + length x"
    unfolding length_ent_bytes [OF ok] by (simp add: record_size_def mk_ent_def)
qed

lemma write_at_end: "off = length a \<Longrightarrow> write_at (a @ t) off b = a @ b @ drop (length b) t"
  by (simp add: write_at_def)

lemma Append_refuses:
  assumes "l_version l = logVersion" "unknownReadOnly l = 0" "go_map attrs" "\<not> appendable key v attrs x"
  obtains err where "Append l key v d attrs x = return (Inl err, l)"
    "errors_Is err ErrInvalidKey \<or> errors_Is err ErrValueTooLarge \<or> errors_Is err ErrAttributesTooLarge \<or>
     err = ErrInvalidAttribute \<or> (\<exists>msg. err = Errorf msg)"
proof -
  consider "length key > maxKeySize" | "length key \<le> maxKeySize" "length v > maxValueSize"
    | "length key \<le> maxKeySize" "length v \<le> maxValueSize" "length x > maxExtensionsSize"
    | err where "length key \<le> maxKeySize" "length v \<le> maxValueSize" "length x \<le> maxExtensionsSize"
        "validateExtensions x = Inl err"
    | "length key \<le> maxKeySize" "length v \<le> maxValueSize" "length x \<le> maxExtensionsSize"
        "validateExtensions x = Inr ()" "\<not> valid_attributes attrs"
    using assms(4) by (cases "validateExtensions x") (force simp: appendable_def not_le)+
  then show thesis
  proof cases
    case (4 err)
    then show ?thesis
      using validateExtensions_errors [OF 4(4)] assms
      by (intro that [of err]) (auto simp: Append_def Let_def)
  next
    case 5
    then obtain err where "encodeAttributes attrs = Inl err" "err = ErrInvalidAttribute \<or> errors_Is err ErrAttributesTooLarge"
      using encodeAttributes_invalid [OF assms(3) 5(5)] by auto
    then show ?thesis using 5 assms by (intro that [of err]) (auto simp: Append_def Let_def)
  qed (use assms in \<open>auto simp: Append_def Let_def intro: that\<close>)
qed

lemma Append_accepts:
  assumes "l_version l = logVersion" "unknownReadOnly l = 0" "go_map attrs" "appendable key v attrs x"
    and e: "e = mk_ent key v d attrs x"
  obtains l1 where "same_log l l1"
    "Append l key v d attrs x =
      bind_io (on_handle l1 (file_WriteAt (l_path l1) (l_writePos l) (ent_bytes e))) (\<lambda>r. case r of
        Inl err \<Rightarrow> return (Inl err, l1)
      | Inr _ \<Rightarrow>
          let l2 = l1\<lparr>l_writePos := l_writePos l + length (ent_bytes e)\<rparr>;
              res = (l_writePos l + (20 + length key + length (e_attrs e)), of_nat (length v), l_writePos l, length (ent_bytes e)) in
          if l_writePos l2 > mapped_len l2 then bind_io (remap l2) (\<lambda>l'. return (Inr res, l'))
          else return (Inr res, l2))"
proof -
  note ok = mk_ent_ok [OF assms(4,3), of d, folded e]
  define n where "n = length (ent_bytes e)"
  have sz: "n = 24 + length key + length (e_attrs e) + length v + length x" using ok(4) by (simp add: n_def)
  have rs: "n = record_size (bytes_of key) (e_attrs e) v x" using sz by (simp add: record_size_def)
  have lim: "n - 4 \<le> 4294967295" using record_fits_size ok(1) by (fastforce simp: ent_ok_def e mk_ent_def rs)
  have enc: "length buf = n \<Longrightarrow> encodeRecord buf (n - 4) (bytes_of key) (e_attrs e) d v x =
      Inr (ent_bytes e, 20 + length key + length (e_attrs e))" for buf
    unfolding rs by (simp add: encodeRecord_eq e mk_ent_def ent_bytes_def)
  define buf where "buf = (if length (l_appendBuf l) < n then replicate n 0 else l_appendBuf l)"
  define kp where "kp = (if length (l_appendBuf l) < n then n \<le> maxRetainedScratch else True)"
  define l1 where "l1 = (if kp then l\<lparr>l_appendBuf := ent_bytes e @ drop n buf\<rparr> else l)"
  have "length (take n buf) = n" by (simp add: buf_def)
  note enc = enc [OF this]
  have len: "recordMinimumLength + (length key + length (e_attrs e) + length v + length x) = n - 4" "4 + (n - 4) = n"
    using sz by (simp_all add: layout)
  have bk: "(if length (l_appendBuf l) < n then (replicate n 0, n \<le> maxRetainedScratch) else (l_appendBuf l, True)) = (buf, kp)"
    by (simp add: buf_def kp_def)
  have l1: "same_log l l1" by (simp add: l1_def)
  note s = same_log_simps [OF l1]
  show thesis
  proof (rule that [OF l1])
    show "Append l key v d attrs x =
      bind_io (on_handle l1 (file_WriteAt (l_path l1) (l_writePos l) (ent_bytes e))) (\<lambda>r. case r of
        Inl err \<Rightarrow> return (Inl err, l1)
      | Inr _ \<Rightarrow>
          let l2 = l1\<lparr>l_writePos := l_writePos l + length (ent_bytes e)\<rparr>;
              res = (l_writePos l + (20 + length key + length (e_attrs e)), of_nat (length v), l_writePos l, length (ent_bytes e)) in
          if l_writePos l2 > mapped_len l2 then bind_io (remap l2) (\<lambda>l'. return (Inr res, l'))
          else return (Inr res, l2))"
      using assms(1,2,4) lim
      by (cases kp) (simp_all add: Append_def appendable_def ok(2) Let_def len bk enc l1_def flip: n_def cong: sum.case_cong)
  qed
qed

lemma wp_Append:
  assumes l: "l_version l = logVersion" "unknownReadOnly l = 0" "\<not> l_closed l" "l_writePos l = length a"
    and w: "files w (l_path l) = Some f" "content f = a @ tail" and attrs: "go_map attrs"
    and e: "e = mk_ent key v d attrs x"
    and good: "\<And>fs l'. still w fs \<Longrightarrow> appendable key v attrs x \<Longrightarrow>
      same_log (l\<lparr>l_writePos := l_writePos l + length (ent_bytes e)\<rparr>) l' \<Longrightarrow>
      Q (Inr (l_writePos l + (20 + length key + length (e_attrs e)), of_nat (length v), l_writePos l, length (ent_bytes e)), l')
        (set_file (l_path l) (Some (f\<lparr>content := a @ ent_bytes e @ drop (length (ent_bytes e)) tail\<rparr>)) (w\<lparr>faults := fs\<rparr>))"
    and refused: "\<And>err. \<not> appendable key v attrs x \<Longrightarrow> Q (Inl err, l) w"
    and bad: "\<And>fs l' n. \<not> calm w \<Longrightarrow> appendable key v attrs x \<Longrightarrow> same_log l l' \<Longrightarrow> n \<le> length (ent_bytes e) \<Longrightarrow>
      Q (Inl IOError, l') (set_file (l_path l) (Some (f\<lparr>content := a @ take n (ent_bytes e) @ drop n tail\<rparr>)) (w\<lparr>faults := fs\<rparr>))"
    and crash: "\<And>fs n. \<not> calm w \<Longrightarrow> appendable key v attrs x \<Longrightarrow> n \<le> length (ent_bytes e) \<Longrightarrow>
      C (set_file (l_path l) (Some (f\<lparr>content := a @ take n (ent_bytes e) @ drop n tail\<rparr>)) (w\<lparr>faults := fs\<rparr>))"
  shows "wp (Append l key v d attrs x) Q C w"
proof (cases "appendable key v attrs x")
  case False
  obtain err where "Append l key v d attrs x = return (Inl err, l)"
    using l(1,2) attrs False by (rule Append_refuses)
  then show ?thesis using refused [OF False] by (simp add: wp_return)
next
  case True
  note ok = True
  obtain l1 where l1: "same_log l l1" and eq: "Append l key v d attrs x =
      bind_io (on_handle l1 (file_WriteAt (l_path l1) (l_writePos l) (ent_bytes e))) (\<lambda>r. case r of
        Inl err \<Rightarrow> return (Inl err, l1)
      | Inr _ \<Rightarrow>
          let l2 = l1\<lparr>l_writePos := l_writePos l + length (ent_bytes e)\<rparr>;
              res = (l_writePos l + (20 + length key + length (e_attrs e)), of_nat (length v), l_writePos l, length (ent_bytes e)) in
          if l_writePos l2 > mapped_len l2 then bind_io (remap l2) (\<lambda>l'. return (Inr res, l'))
          else return (Inr res, l2))"
    using l(1,2) attrs True e by (rule Append_accepts)
  note s = same_log_simps [OF l1]
  have same: "same_log (l\<lparr>l_writePos := l_writePos l + length (ent_bytes e)\<rparr>) l'"
    if "same_log (l1\<lparr>l_writePos := l_writePos l + length (ent_bytes e)\<rparr>) l'" for l'
    using same_log_trans [OF same_log_writePos [OF l1] that] .
  have f: "f\<lparr>content := a @ tail\<rparr> = f" using w(2) by (cases f) simp
  have part: "write_at (content f) (l_writePos l) (take n (ent_bytes e)) =
      a @ take (min n (length (ent_bytes e))) (ent_bytes e) @ drop (min n (length (ent_bytes e))) tail" for n
    using w l(4) by (simp add: write_at_end min_def)
  have full: "write_at (content f) (l_writePos l) (ent_bytes e) = a @ ent_bytes e @ drop (length (ent_bytes e)) tail"
    using w l(4) by (simp add: write_at_end)
  have "Q (Inl IOError, l1) (w\<lparr>faults := fs\<rparr>)" "C (w\<lparr>faults := fs\<rparr>)" if "\<not> calm w" for fs
    using bad [OF that ok l1 le0, of fs] crash [OF that ok le0, of fs] w(1) by (simp_all add: f set_file_same)
  then show ?thesis
    unfolding eq wp_bind
    using s(1,2) l(3) w(1) good [OF _ ok same] crash [OF _ ok le_refl]
    by (auto simp: still_def wp_return part full Let_def wp_bind intro!: wp_WriteAt wp_remap bad [OF _ ok l1] crash [OF _ ok] same)
qed

section \<open>The header\<close>

lemma parse_header_fields:
  assumes "length hdr = logHeaderSize" "parse_header (new_log p) hdr = Inr l"
  obtains v inc ro where "hdr = bytes_of logMagic @ PutUint32 v @ PutUint32 inc @ PutUint32 ro"
    "0 < v" "v \<le> logVersion" "if v \<ge> 5 then inc = 0 \<and> l = (new_log p)\<lparr>l_version := v, l_readOnlyFeatures := ro\<rparr>
      else l = (new_log p)\<lparr>l_version := v\<rparr>"
proof -
  obtain v inc ro where u: "Uint32 (take 4 (drop 4 hdr)) = Inr v" "Uint32 (take 4 (drop 8 hdr)) = Inr inc" "Uint32 (drop 12 hdr) = Inr ro"
    using assms(1) by (simp add: Uint32_def logHeaderSize_def)
  have "string_of (take 4 hdr) = logMagic"
    using assms(2) by (auto simp: parse_header_def split: if_splits)
  then have "take 4 hdr = bytes_of logMagic" by (metis bytes_of_string_of)
  moreover have "hdr = take 4 hdr @ PutUint32 v @ PutUint32 inc @ PutUint32 ro"
    using record_head_inv [of hdr v inc ro] assms(1) u by (simp add: logHeaderSize_def go_slice_def)
  ultimately have hdr: "hdr = bytes_of logMagic @ PutUint32 v @ PutUint32 inc @ PutUint32 ro" by simp
  have "\<not> v < 1 \<and> v \<le> logVersion \<and>
      (if v \<ge> 5 then inc = 0 \<and> l = (new_log p)\<lparr>l_version := v, l_incompatibleFeatures := inc, l_readOnlyFeatures := ro\<rparr>
       else l = (new_log p)\<lparr>l_version := v\<rparr>)"
    using assms u
    by (auto simp: parse_header_def logHeaderSize_def go_slice_def Let_def knownIncompatibleFeatures_def
        new_log_def not_less word_less_1 split: if_splits)
  then show thesis
    using that [OF hdr] by (cases "v \<ge> 5") (auto simp: word_less_1 word_neq_0_conv new_log_def)
qed

lemma parse_header_bytes:
  assumes "0 < l_version l" "l_version l \<le> logVersion" "l_incompatibleFeatures l = 0"
    "l_version l \<ge> 5 \<or> l_readOnlyFeatures l = 0"
  shows "parse_header (new_log p) (header_bytes l) =
    Inr ((new_log p)\<lparr>l_version := l_version l, l_readOnlyFeatures := l_readOnlyFeatures l\<rparr>)"
proof -
  let ?m = "bytes_of logMagic"
  have m: "length ?m = 4" by (simp add: logMagic_def)
  have h: "header_bytes l = ?m @ PutUint32 (l_version l) @ PutUint32 (l_incompatibleFeatures l) @ PutUint32 (l_readOnlyFeatures l)"
    using m by (simp add: header_bytes_def)
  have "go_slice (header_bytes l) 4 8 = Inr (PutUint32 (l_version l))"
    "go_slice (header_bytes l) 8 12 = Inr (PutUint32 (l_incompatibleFeatures l))"
    "go_slice (header_bytes l) 12 16 = Inr (PutUint32 (l_readOnlyFeatures l))"
    using m by (simp_all add: h go_slice_def)
  moreover have "string_of (take 4 (header_bytes l)) = logMagic" using m by (simp add: h)
  ultimately show ?thesis
    using assms by (auto simp: parse_header_def Let_def knownIncompatibleFeatures_def new_log_def word_neq_0_conv)
qed

section \<open>Opening and creating\<close>

lemma wp_close_and_fail:
  assumes "\<And>fs. still w fs \<Longrightarrow> Q (Inl err) (w\<lparr>faults := fs\<rparr>)" "\<And>fs. \<not> calm w \<Longrightarrow> C (w\<lparr>faults := fs\<rparr>)"
  shows "wp (close_and_fail err) Q C w"
  unfolding close_and_fail_def wp_ignore wp_return using assms by (auto simp: still_def intro!: wp_Close)

text \<open>Opening a log that is there: nothing is written.\<close>

lemma wp_openAppendLogFile:
  assumes w: "files w p = Some f" "content f \<noteq> []"
    and good: "\<And>fs l0 l'. still w fs \<Longrightarrow> logHeaderSize \<le> length (content f) \<Longrightarrow>
      parse_header (new_log p) (take logHeaderSize (content f)) = Inr l0 \<Longrightarrow>
      same_log (l0\<lparr>l_writePos := length (content f)\<rparr>) l' \<Longrightarrow> Q (Inr l') (w\<lparr>faults := fs\<rparr>)"
    and bad: "\<And>fs err. \<not> calm w \<or> length (content f) < logHeaderSize \<and> errors_Is err ErrCorruptedData \<or>
        logHeaderSize \<le> length (content f) \<and> parse_header (new_log p) (take logHeaderSize (content f)) = Inl err \<Longrightarrow>
      still w fs \<Longrightarrow> Q (Inl err) (w\<lparr>faults := fs\<rparr>)"
    and crash: "\<And>fs. \<not> calm w \<Longrightarrow> C (w\<lparr>faults := fs\<rparr>)"
  shows "wp (openAppendLogFile p) Q C w"
proof -
  have "\<not> l_closed (new_log p)" "l_path (new_log p) = p" by (simp_all add: new_log_def)
  then show ?thesis
    unfolding openAppendLogFile_def readHeader_def wp_simps Let_def
    using w crash
    by (auto simp: still_def wp_simps split: sum.split intro!: wp_OpenFile wp_Stat wp_ReadAt wp_close_and_fail wp_remap bad) (rule good; simp add: still_def)+
qed

text \<open>
  Opening or creating a log where there is none: the file holds a prefix of the
  header until the header is written.
\<close>

definition new_header :: bytes where
  "new_header = header_bytes (new_log [])"

lemma new_header: "header_bytes (new_log p) = new_header" "header_bytes ((new_log p)\<lparr>l_writePos := n\<rparr>) = new_header"
  by (simp_all add: new_header_def header_bytes_def new_log_def)

lemma wp_init_log:
  assumes w: "files w p = Some f" "content f = []"
    and good: "\<And>fs l'. still w fs \<Longrightarrow> same_log ((new_log p)\<lparr>l_writePos := logHeaderSize\<rparr>) l' \<Longrightarrow>
      Q (Inr l') (set_file p (Some (f\<lparr>content := new_header\<rparr>)) (w\<lparr>faults := fs\<rparr>))"
    and bad: "\<And>fs err n. \<not> calm w \<Longrightarrow> Q (Inl err) (set_file p (Some (f\<lparr>content := take n new_header\<rparr>)) (w\<lparr>faults := fs\<rparr>))"
    and crash: "\<And>fs n. \<not> calm w \<Longrightarrow> C (set_file p (Some (f\<lparr>content := take n new_header\<rparr>)) (w\<lparr>faults := fs\<rparr>))"
  shows "wp (bind_io (writeHeader (new_log p)) (\<lambda>r. case r of
      Inl err \<Rightarrow> close_and_fail err
    | Inr _ \<Rightarrow> bind_io (remap ((new_log p)\<lparr>l_writePos := logHeaderSize\<rparr>)) (\<lambda>log. return (Inr log)))) Q C w"
proof -
  have n: "\<not> l_closed (new_log p)" "l_path (new_log p) = p" by (simp_all add: new_log_def)
  have f: "f\<lparr>content := []\<rparr> = f" using w(2) by (cases f) simp
  have none: "Q (Inl err) (w\<lparr>faults := fs\<rparr>)" "C (w\<lparr>faults := fs\<rparr>)" if "\<not> calm w" for err fs
    using bad [where n = 0, OF that] crash [where n = 0, OF that] w(1) by (simp_all add: f set_file_same)
  have all: "C (set_file p (Some (f\<lparr>content := new_header\<rparr>)) (w\<lparr>faults := fs\<rparr>))" if "\<not> calm w" for fs
    using crash [where n = "length new_header" and fs = fs, OF that] by simp
  show ?thesis
    unfolding writeHeader_def wp_simps
    using w n none all bad crash good
    by (auto simp: still_def wp_simps new_header write_at_end [where a = "[]", simplified] intro!: wp_WriteAt wp_close_and_fail wp_remap)
qed

lemma wp_init_at:
  assumes "content f = []" and fs: "still w fs"
    and good: "\<And>fs f l'. still w fs \<Longrightarrow> content f = new_header \<Longrightarrow> same_log ((new_log p)\<lparr>l_writePos := logHeaderSize\<rparr>) l' \<Longrightarrow>
      Q (Inr l') (set_file p (Some f) (w\<lparr>faults := fs\<rparr>))"
    and bad: "\<And>fs f err n. \<not> calm w \<Longrightarrow> content f = take n new_header \<Longrightarrow> Q (Inl err) (set_file p (Some f) (w\<lparr>faults := fs\<rparr>))"
    and crash: "\<And>fs f n. \<not> calm w \<Longrightarrow> content f = take n new_header \<Longrightarrow> C (set_file p (Some f) (w\<lparr>faults := fs\<rparr>))"
  shows "wp (writeHeader (new_log p)) (\<lambda>r. wp (case r of
      Inl err \<Rightarrow> close_and_fail err
    | Inr _ \<Rightarrow> bind_io (remap ((new_log p)\<lparr>l_writePos := logHeaderSize\<rparr>)) (\<lambda>log. return (Inr log))) Q C) C
    (set_file p (Some f) (w\<lparr>faults := fs\<rparr>))"
  unfolding wp_bind [symmetric]
  by (rule wp_init_log [where f = f]) (use assms still_trans [OF fs] still_not_calm [OF fs] in auto)

lemma wp_openAppendLogFile_new:
  assumes w: "case files w p of None \<Rightarrow> True | Some f \<Rightarrow> content f = []"
    and good: "\<And>fs f l'. still w fs \<Longrightarrow> content f = new_header \<Longrightarrow> same_log ((new_log p)\<lparr>l_writePos := logHeaderSize\<rparr>) l' \<Longrightarrow>
      Q (Inr l') (set_file p (Some f) (w\<lparr>faults := fs\<rparr>))"
    and bad: "\<And>fs f err n. \<not> calm w \<Longrightarrow> content f = take n new_header \<Longrightarrow> Q (Inl err) (set_file p (Some f) (w\<lparr>faults := fs\<rparr>))"
    and bad': "\<And>fs err. \<not> calm w \<Longrightarrow> Q (Inl err) (w\<lparr>faults := fs\<rparr>)"
    and crash: "\<And>fs f n. \<not> calm w \<Longrightarrow> content f = take n new_header \<Longrightarrow> C (set_file p (Some f) (w\<lparr>faults := fs\<rparr>))"
    and crash': "\<And>fs. \<not> calm w \<Longrightarrow> C (w\<lparr>faults := fs\<rparr>)"
  shows "wp (openAppendLogFile p) Q C w"
proof -
  note init = wp_init_at [where Q = Q and C = C and w = w and p = p, OF _ _ good bad crash]
  have empty: "content f = [] \<Longrightarrow> Q (Inl err) (set_file p (Some f) (w\<lparr>faults := fs\<rparr>))"
    "content f = [] \<Longrightarrow> C (set_file p (Some f) (w\<lparr>faults := fs\<rparr>))" if "\<not> calm w" for f err fs
    using bad [where n = 0, OF that] crash [where n = 0, OF that] by simp_all
  have old: "set_file p (Some f) (w\<lparr>faults := fs\<rparr>) = w\<lparr>faults := fs\<rparr>" if "files w p = Some f" for f fs
    using that by (simp add: set_file_same)
  have stat: "wp (os_Stat p) (\<lambda>r. wp (case r of
       Inl err \<Rightarrow> close_and_fail err
     | Inr (sz, _) \<Rightarrow>
         let log = new_log p in
         if sz = 0 then
           bind_io (writeHeader log) (\<lambda>r. case r of
             Inl err \<Rightarrow> close_and_fail err
           | Inr _ \<Rightarrow> bind_io (remap (log\<lparr>l_writePos := logHeaderSize\<rparr>)) (\<lambda>log. return (Inr log)))
         else
           bind_io (readHeader log) (\<lambda>r. case r of
             Inl err \<Rightarrow> close_and_fail err
           | Inr log \<Rightarrow> bind_io (remap (log\<lparr>l_writePos := sz\<rparr>)) (\<lambda>log. return (Inr log)))) Q C) C
      (set_file p (Some f) (w\<lparr>faults := fs\<rparr>))" if "content f = []" "still w fs" for f fs
    by (rule wp_Stat) (use that still_trans [OF that(2)] still_not_calm [OF that(2)] in
        \<open>auto simp: wp_bind Let_def intro!: init empty wp_close_and_fail\<close>)
  show ?thesis
    unfolding openAppendLogFile_def wp_try wp_bind
  proof (rule wp_OpenFile, goal_cases)
    case (1 fs)
    then show ?case unfolding sum.case by (intro stat) simp_all
  next
    case (2 fs f)
    then have "content f = []" using w by simp
    from stat [OF this 2(1)] show ?case unfolding old [OF 2(2)] sum.case if_False .
  qed (simp_all add: bad' crash')
qed

lemma wp_createAppendLogMode:
  assumes good: "\<And>fs f l'. still w fs \<Longrightarrow> content f = new_header \<Longrightarrow> same_log ((new_log p)\<lparr>l_writePos := logHeaderSize\<rparr>) l' \<Longrightarrow>
      Q (Inr l') (set_file p (Some f) (w\<lparr>faults := fs\<rparr>))"
    and bad: "\<And>fs f err n. \<not> calm w \<Longrightarrow> content f = take n new_header \<Longrightarrow> Q (Inl err) (set_file p (Some f) (w\<lparr>faults := fs\<rparr>))"
    and bad': "\<And>fs err. \<not> calm w \<Longrightarrow> Q (Inl err) (w\<lparr>faults := fs\<rparr>)"
    and crash: "\<And>fs f n. \<not> calm w \<Longrightarrow> content f = take n new_header \<Longrightarrow> C (set_file p (Some f) (w\<lparr>faults := fs\<rparr>))"
    and crash': "\<And>fs. \<not> calm w \<Longrightarrow> C (w\<lparr>faults := fs\<rparr>)"
  shows "wp (createAppendLogMode p mode) Q C w"
  unfolding createAppendLogMode_def Let_def wp_try wp_bind
  by (rule wp_OpenFile) (simp_all add: wp_init_at [where Q = Q and C = C and w = w and p = p, OF _ _ good bad crash] bad' crash')

section \<open>Recovery of compaction files\<close>

lemma wp_wrap [wp_simps]:
  "wp (wrap_error msg m) Q C w \<longleftrightarrow>
     wp m (\<lambda>r. Q (case r of Inl err \<Rightarrow> Inl (Wrap msg [err]) | Inr x \<Rightarrow> Inr x)) C w"
  by (simp add: wrap_error_def wp_bind wp_return)

lemma wp_fileExists [wp_calls]:
  assumes "\<And>fs. still w fs \<Longrightarrow> Q (Inr (files w p \<noteq> None)) (w\<lparr>faults := fs\<rparr>)" "\<And>fs err. \<not> calm w \<Longrightarrow> Q (Inl err) (w\<lparr>faults := fs\<rparr>)"
    "\<And>fs. \<not> calm w \<Longrightarrow> C (w\<lparr>faults := fs\<rparr>)"
  shows "wp (fileExists p) Q C w"
proof -
  have "Q (Inr True) (w\<lparr>faults := fs\<rparr>)" if "files w p = Some f" "still w fs" for f fs
    using assms(1) [of fs] that by simp
  moreover have "Q (Inr False) (w\<lparr>faults := fs\<rparr>)" if "files w p = None" "still w fs" for fs
    using assms(1) [of fs] that by simp
  ultimately show ?thesis
    unfolding fileExists_def wp_bind wp_return using assms(2,3) by (auto intro!: wp_Stat)
qed

lemma wp_fileExists_try:
  assumes "\<And>fs. still w fs \<Longrightarrow> wp (k (files w p \<noteq> None)) Q C (w\<lparr>faults := fs\<rparr>)" "\<And>fs err. \<not> calm w \<Longrightarrow> Q (Inl err) (w\<lparr>faults := fs\<rparr>)"
    "\<And>fs. \<not> calm w \<Longrightarrow> C (w\<lparr>faults := fs\<rparr>)"
    and fs: "still w fs"
  shows "wp (try_io (fileExists p) k) Q C (w\<lparr>faults := fs\<rparr>)"
  unfolding wp_try by (rule wp_fileExists) (use assms still_trans [OF fs] still_not_calm [OF fs] in simp_all)

lemma wp_removeIfExists [wp_calls]:
  assumes "\<And>fs. still w fs \<Longrightarrow> Q (Inr ()) (set_file p None (w\<lparr>faults := fs\<rparr>))" "\<And>fs err. \<not> calm w \<Longrightarrow> Q (Inl err) (w\<lparr>faults := fs\<rparr>)"
    "\<And>fs. \<not> calm w \<Longrightarrow> C (w\<lparr>faults := fs\<rparr>)"
  shows "wp (removeIfExists p) Q C w"
proof -
  have "Q (Inr ()) (w\<lparr>faults := fs\<rparr>)" if "files w p = None" "still w fs" for fs
    using assms(1) [of fs] that by (simp add: set_file_same)
  then show ?thesis
    unfolding removeIfExists_def wp_bind wp_return using assms by (auto intro!: wp_Remove)
qed

lemma wp_removeAll_io:
  assumes "\<And>w' p. J w' \<Longrightarrow> p \<in> set ps \<Longrightarrow> J (set_file p None w')"
    and "\<And>w' fs. J w' \<Longrightarrow> still w' fs \<Longrightarrow> J (w'\<lparr>faults := fs\<rparr>)" "J w"
    and "\<And>w'. J w' \<Longrightarrow> (\<forall>p \<in> set ps. files w' p = None) \<Longrightarrow> Q (Inr ()) w'"
    and "\<And>w' err fs. J w' \<Longrightarrow> \<not> calm w' \<Longrightarrow> Q (Inl err) (w'\<lparr>faults := fs\<rparr>)"
    and "\<And>w' fs. J w' \<Longrightarrow> \<not> calm w' \<Longrightarrow> C (w'\<lparr>faults := fs\<rparr>)"
  shows "wp (removeAll_io ps) Q C w"
  using assms
proof (induction ps arbitrary: w J)
  case Nil
  then show ?case by (simp add: wp_return)
next
  case (Cons p ps)
  have "wp (removeAll_io ps) Q C (set_file p None (w\<lparr>faults := fs\<rparr>))" if "still w fs" for fs
    by (rule Cons.IH [where J = "\<lambda>w'. J w' \<and> files w' p = None"]) (use Cons.prems that in auto)
  then show ?case
    unfolding removeAll_io.simps wp_try using Cons.prems by (intro wp_removeIfExists) simp_all
qed

text \<open>The state of the disk that a call changes: the files at the given paths, and nothing else.\<close>

definition only_changes :: "path set \<Rightarrow> world \<Rightarrow> world \<Rightarrow> bool" where
  "only_changes P w w' \<longleftrightarrow> (\<forall>q. q \<notin> P \<longrightarrow> files w' q = files w q) \<and> locked w' = locked w \<and> umask w' = umask w"

lemma only_changes_simps [simp]:
  "only_changes P w w" "only_changes P w (w'\<lparr>faults := fs\<rparr>) \<longleftrightarrow> only_changes P w w'"
  "only_changes P (w\<lparr>faults := fs\<rparr>) w' \<longleftrightarrow> only_changes P w w'"
  by (simp_all add: only_changes_def)

lemma only_changes_set [intro]: "only_changes P w w' \<Longrightarrow> p \<in> P \<Longrightarrow> only_changes P w (set_file p f w')"
  by (auto simp: only_changes_def)

lemma only_changes_trans: "only_changes P w w' \<Longrightarrow> only_changes P w' w'' \<Longrightarrow> only_changes P w w''"
  by (auto simp: only_changes_def)

lemma only_changes_mono: "only_changes P w w' \<Longrightarrow> P \<subseteq> P' \<Longrightarrow> only_changes P' w w'"
  by (auto simp: only_changes_def)

text \<open>
  The file that holds the database: the log itself, or the file that the
  recovery puts in its place.
\<close>

definition artifacts :: "path \<Rightarrow> path list" where
  "artifacts p = [p @ compactionTempSuffix, p @ compactionReadySuffix, p @ compactionBackupSuffix, p @ legacyCompactionSuffix]"

definition survivor :: "path \<Rightarrow> world \<Rightarrow> os_file option" where
  "survivor p w = (case files w p of Some f \<Rightarrow> Some f | None \<Rightarrow>
     (case files w (p @ compactionReadySuffix) of Some f \<Rightarrow> Some f | None \<Rightarrow>
     (case files w (p @ compactionBackupSuffix) of Some f \<Rightarrow> Some f | None \<Rightarrow>
      files w (p @ legacyCompactionSuffix))))"

lemmas suffixes = compactionTempSuffix_def compactionReadySuffix_def compactionBackupSuffix_def legacyCompactionSuffix_def

lemma artifacts_distinct: "distinct (p # artifacts p)"
  by (simp add: artifacts_def suffixes)

lemma artifact_neqs [simp]:
  "p @ compactionTempSuffix \<noteq> p" "p @ compactionReadySuffix \<noteq> p" "p @ compactionBackupSuffix \<noteq> p" "p @ legacyCompactionSuffix \<noteq> p"
  "p \<noteq> p @ compactionTempSuffix" "p \<noteq> p @ compactionReadySuffix" "p \<noteq> p @ compactionBackupSuffix" "p \<noteq> p @ legacyCompactionSuffix"
  "compactionTempSuffix \<noteq> compactionReadySuffix" "compactionTempSuffix \<noteq> compactionBackupSuffix" "compactionTempSuffix \<noteq> legacyCompactionSuffix"
  "compactionReadySuffix \<noteq> compactionTempSuffix" "compactionReadySuffix \<noteq> compactionBackupSuffix" "compactionReadySuffix \<noteq> legacyCompactionSuffix"
  "compactionBackupSuffix \<noteq> compactionTempSuffix" "compactionBackupSuffix \<noteq> compactionReadySuffix" "compactionBackupSuffix \<noteq> legacyCompactionSuffix"
  "legacyCompactionSuffix \<noteq> compactionTempSuffix" "legacyCompactionSuffix \<noteq> compactionReadySuffix" "legacyCompactionSuffix \<noteq> compactionBackupSuffix"
  by (simp_all add: suffixes)

abbreviation log_paths :: "path \<Rightarrow> path set" where
  "log_paths p \<equiv> insert p (set (artifacts p))"

lemma survivor_faults [simp]: "survivor p (w\<lparr>faults := fs\<rparr>) = survivor p w"
  by (simp add: survivor_def cong: option.case_cong)

text \<open>The state in which the database is back in place and only leftovers remain to be removed.\<close>

definition in_place :: "path \<Rightarrow> world \<Rightarrow> world \<Rightarrow> bool" where
  "in_place p w w' \<longleftrightarrow> (calm w \<longrightarrow> calm w') \<and> files w' p = survivor p w \<and> only_changes (log_paths p) w w' \<and>
     (survivor p w = None \<longrightarrow> files w' (p @ compactionReadySuffix) = None \<and>
        files w' (p @ compactionBackupSuffix) = None \<and> files w' (p @ legacyCompactionSuffix) = None)"

lemma in_place_survivor: "in_place p w w' \<Longrightarrow> survivor p w' = survivor p w"
  by (auto simp: in_place_def survivor_def [of p w'] split: option.split)

lemma in_place_faults: "in_place p w w' \<Longrightarrow> still w' fs \<Longrightarrow> in_place p w (w'\<lparr>faults := fs\<rparr>)"
  by (auto simp: in_place_def still_def)

lemma in_place_remove: "in_place p w w' \<Longrightarrow> a \<in> set (artifacts p) \<Longrightarrow> in_place p w (set_file a None w')"
  using artifacts_distinct [of p] by (auto simp: in_place_def intro!: only_changes_set)

abbreviation the_switch :: "path \<Rightarrow> world \<Rightarrow> (error + unit) io" where
  "the_switch p w \<equiv> recovery_switch p (files w p \<noteq> None) (files w (p @ compactionReadySuffix) \<noteq> None)
     (files w (p @ compactionBackupSuffix) \<noteq> None) (files w (p @ legacyCompactionSuffix) \<noteq> None)"

lemma in_place_only: "in_place p w w' \<Longrightarrow> only_changes (log_paths p) w w'"
  by (simp add: in_place_def)

lemma in_place_renamed:
  assumes "files w p = None" "files w a = Some f" "survivor p w = Some f" "a \<in> set (artifacts p)" "still w fs"
  shows "in_place p w (set_file p (Some f) (set_file a None (w\<lparr>faults := fs\<rparr>)))"
  using assms by (auto simp: in_place_def still_def intro!: only_changes_set)

lemma wp_recovery_switch:
  assumes fs: "still w fs"
  shows "wp (the_switch p w)
    (\<lambda>r w'. survivor p w' = survivor p w \<and> only_changes (log_paths p) w w' \<and> (case r of Inl _ \<Rightarrow> \<not> calm w | Inr _ \<Rightarrow> in_place p w w'))
    (\<lambda>w'. \<not> calm w \<and> survivor p w' = survivor p w \<and> only_changes (log_paths p) w w') (w\<lparr>faults := fs\<rparr>)"
proof -
  have a: "p @ compactionReadySuffix \<in> set (artifacts p)" "p @ compactionBackupSuffix \<in> set (artifacts p)"
    "p @ legacyCompactionSuffix \<in> set (artifacts p)"
    by (auto simp: artifacts_def)
  let ?Q = "\<lambda>r w'. survivor p w' = survivor p w \<and> only_changes (log_paths p) w w' \<and> (case r of Inl _ \<Rightarrow> \<not> calm w | Inr _ \<Rightarrow> in_place p w w')"
  let ?C = "\<lambda>w'. \<not> calm w \<and> survivor p w' = survivor p w \<and> only_changes (log_paths p) w w'"
  have fin: "?Q (Inr ()) w'" if "in_place p w w'" for w'
    using in_place_survivor [OF that] in_place_only [OF that] that by simp
  have fail: "?Q (Inl err) w'" "?C w'" if "in_place p w w'" "\<not> calm w" for w' err
    using in_place_survivor [OF that(1)] in_place_only [OF that(1)] that(2) by simp_all
  have noisy: "\<not> calm w" if "in_place p w w'" "\<not> calm w'" for w' using that by (auto simp: in_place_def)
  have step: "wp (removeIfExists a) (\<lambda>r w'. case r of Inl e \<Rightarrow> ?Q (Inl e) w' | Inr _ \<Rightarrow> P w') ?C w'"
    if "in_place p w w'" "a \<in> set (artifacts p)" "\<And>w'. in_place p w w' \<Longrightarrow> P w'" for a w' P
    using noisy [OF that(1)] fail [OF that(1)] in_place_faults [OF that(1)] that(3)
    by (intro wp_removeIfExists) (simp_all add: in_place_remove that(2))
  have remove: "wp (removeIfExists a) ?Q ?C w'" if "in_place p w w'" "a \<in> set (artifacts p)" for a w'
    by (rule wp_mono [OF step [OF that, of "\<lambda>w'. in_place p w w'"]]) (use fin in \<open>auto split: sum.splits\<close>)
  have try_step: "wp (try_io (removeIfExists a) (\<lambda>_. k)) ?Q ?C w'"
    if "in_place p w w'" "a \<in> set (artifacts p)" "\<And>w'. in_place p w w' \<Longrightarrow> wp k ?Q ?C w'" for a w' k
    unfolding wp_try by (rule step [OF that])
  note rename = in_place_renamed [OF _ _ _ _ still_trans [OF fs]]
  have moved: "wp (wrap_error msg (os_Rename a p)) (\<lambda>r w'. case r of Inl e \<Rightarrow> ?Q (Inl e) w' | Inr _ \<Rightarrow> P w') ?C (w\<lparr>faults := fs\<rparr>)"
    if "files w p = None" "files w a = Some f" "survivor p w = Some f" "a \<in> set (artifacts p)"
      "\<And>w'. in_place p w w' \<Longrightarrow> P w'" for a f msg P
    unfolding wp_wrap using that still_not_calm [OF fs] by (intro wp_Rename) (auto intro!: that(5) rename [OF that(1-4)])
  have moved': "wp (wrap_error msg (os_Rename a p)) ?Q ?C (w\<lparr>faults := fs\<rparr>)"
    if "files w p = None" "files w a = Some f" "survivor p w = Some f" "a \<in> set (artifacts p)" for a f msg
    by (rule wp_mono [OF moved [OF that, of "\<lambda>w'. in_place p w w'"]]) (use fin in \<open>auto split: sum.splits\<close>)
  consider f where "files w p = Some f" | f where "files w p = None" "files w (p @ compactionReadySuffix) = Some f"
    | f where "files w p = None" "files w (p @ compactionReadySuffix) = None" "files w (p @ compactionBackupSuffix) = Some f"
    | f where "files w p = None" "files w (p @ compactionReadySuffix) = None" "files w (p @ compactionBackupSuffix) = None"
      "files w (p @ legacyCompactionSuffix) = Some f"
    | "files w p = None" "files w (p @ compactionReadySuffix) = None" "files w (p @ compactionBackupSuffix) = None"
      "files w (p @ legacyCompactionSuffix) = None"
    by (metis option.exhaust)
  then show ?thesis
  proof cases
    case 1
    then have "in_place p w w" by (simp add: in_place_def survivor_def)
    then have "in_place p w (w\<lparr>faults := fs\<rparr>)" using fs by (rule in_place_faults)
    then show ?thesis
      using 1 by (simp add: recovery_switch_def Let_def) (intro try_step remove a; assumption)
  next
    case 2
    then have s: "survivor p w = Some f" by (simp add: survivor_def)
    show ?thesis
      using 2 moved [OF 2 s a(1) remove] a(2) by (simp add: recovery_switch_def Let_def wp_try)
  next
    case 3
    then have s: "survivor p w = Some f" by (simp add: survivor_def)
    show ?thesis using 3 moved' [OF 3(1,3) s a(2)] by (simp add: recovery_switch_def Let_def)
  next
    case 4
    then have s: "survivor p w = Some f" by (simp add: survivor_def)
    show ?thesis using 4 moved' [OF 4(1,4) s a(3)] by (simp add: recovery_switch_def Let_def)
  next
    case 5
    then have "in_place p w w" by (simp add: in_place_def survivor_def)
    then have "in_place p w (w\<lparr>faults := fs\<rparr>)" using fs by (rule in_place_faults)
    then show ?thesis using 5 fin by (simp add: recovery_switch_def wp_return)
  qed
qed

lemma world_self: "w = w\<lparr>faults := faults w\<rparr>"
  by simp

lemma wp_recoverCompactionArtifacts:
  "wp (recoverCompactionArtifacts p)
    (\<lambda>r w'. survivor p w' = survivor p w \<and> only_changes (log_paths p) w w' \<and>
       (case r of Inl _ \<Rightarrow> \<not> calm w
        | Inr _ \<Rightarrow> (calm w \<longrightarrow> calm w') \<and> files w' p = survivor p w \<and> (\<forall>a \<in> set (artifacts p). files w' a = None)))
    (\<lambda>w'. \<not> calm w \<and> survivor p w' = survivor p w \<and> only_changes (log_paths p) w w') w"
proof -
  let ?Q = "\<lambda>r w'. survivor p w' = survivor p w \<and> only_changes (log_paths p) w w' \<and> (case r of Inl _ \<Rightarrow> \<not> calm w
        | Inr _ \<Rightarrow> (calm w \<longrightarrow> calm w') \<and> files w' p = survivor p w \<and> (\<forall>a \<in> set (artifacts p). files w' a = None))"
  let ?C = "\<lambda>w'. \<not> calm w \<and> survivor p w' = survivor p w \<and> only_changes (log_paths p) w w'"
  have sync: "wp (if b then wrap_error m (syncParentDirectory p) else return (Inr ())) ?Q ?C w'"
    if "in_place p w w'" "\<forall>a \<in> set (artifacts p). files w' a = None" for b m w'
    using that in_place_survivor [OF that(1)]
    by (auto simp: syncParentDirectory_def wp_simps in_place_def still_def intro!: wp_SyncDir)
  have tidy: "wp (removeAll_io (artifacts p)) (\<lambda>r w'. case r of Inl e \<Rightarrow> ?Q (Inl e) w'
        | Inr _ \<Rightarrow> wp (if b then wrap_error m (syncParentDirectory p) else return (Inr ())) ?Q ?C w') ?C w'"
    if "in_place p w w'" for b m w'
  proof (rule wp_removeAll_io [where J = "in_place p w"], goal_cases)
    case (4 w')
    then show ?case unfolding sum.case using sync by blast
  next
    case (5 w' err fs)
    then show ?case using in_place_survivor [OF 5(1)] by (auto simp: in_place_def)
  next
    case (6 w' fs)
    then show ?case using in_place_survivor [OF 6(1)] by (auto simp: in_place_def)
  qed (use that in_place_remove in_place_faults in auto)
  have switch: "wp (try_io (the_switch p w) (\<lambda>_. try_io (removeAll_io (artifacts p))
        (\<lambda>_. if b then wrap_error m (syncParentDirectory p) else return (Inr ())))) ?Q ?C (w\<lparr>faults := fs\<rparr>)"
    if "still w fs" for b m fs
    unfolding wp_try
  proof (rule wp_mono [OF wp_recovery_switch [OF that]], goal_cases)
    case (1 r w')
    then show ?case using tidy [of w' b m] by (cases r) (simp_all only: sum.case simp_thms)
  qed
  show ?thesis
    unfolding recoverCompactionArtifacts_def Let_def artifacts_def [of p, symmetric]
    by (subst world_self, intro wp_fileExists_try switch; simp)
qed


section \<open>Properties of the log\<close>

lemma ent_value_slice:
  assumes "ent_ok e"
  shows "slice (20 + length (e_key e) + length (e_attrs e)) (length (e_value e)) (ent_bytes e) = e_value e"
    "20 + length (e_key e) + length (e_attrs e) + length (e_value e) \<le> length (ent_bytes e)"
proof -
  have "length (e_flags e) = 4" using assms by (simp add: ent_ok_def record_fits_def)
  from the_bounds_slices(1) [OF this, of "e_key e" "e_attrs e" "e_value e" "e_ext e"]
  show "slice (20 + length (e_key e) + length (e_attrs e)) (length (e_value e)) (ent_bytes e) = e_value e"
    by (simp add: the_bounds_def go_slice_def ent_bytes_def split: if_splits)
  show "20 + length (e_key e) + length (e_attrs e) + length (e_value e) \<le> length (ent_bytes e)"
    using length_ent_bytes [OF assms] by (simp add: record_size_def)
qed

text \<open>
  C35. \<^verbatim>\<open>Append\<close> writes one record or reports an error. It succeeds exactly on the
  keys, values, attributes and extensions within the limits (the check of the
  whole record length never fires); the record then stands at the returned offset,
  the returned value offset locates the value, and the next append goes behind it. A
  refused argument changes nothing. When the write fails, part of the record may stand
  behind the log, but the log's end stays where it was. Without a failing call an
  argument within the limits is always written.
\<close>

theorem Append_spec:
  assumes "l_version l = logVersion" "unknownReadOnly l = 0" "\<not> l_closed l" "l_writePos l = length a"
    and "files w (l_path l) = Some f" "content f = a @ tail" "go_map attrs" and e: "e = mk_ent key v d attrs x"
  shows "wp (Append l key v d attrs x)
    (\<lambda>(r, l') w'. only_changes {l_path l} w w' \<and> (case r of
        Inr (off, sz, recordOffset, storedSize) \<Rightarrow>
          appendable key v attrs x \<and> recordOffset = length a \<and> storedSize = length (ent_bytes e) \<and>
          l_writePos l' = recordOffset + storedSize \<and> sz = of_nat (length v) \<and>
          (\<exists>f'. files w' (l_path l) = Some f' \<and> slice off (length v) (content f') = v \<and>
            content f' = a @ ent_bytes e @ drop (length (ent_bytes e)) tail)
      | Inl err \<Rightarrow> l_writePos l' = length a \<and>
          (\<not> appendable key v attrs x \<and> files w' = files w \<or>
           \<not> calm w \<and> (\<exists>n f'. files w' (l_path l) = Some f' \<and> content f' = a @ take n (ent_bytes e) @ drop n tail))))
    (\<lambda>w'. \<not> calm w \<and> only_changes {l_path l} w w' \<and>
      (\<exists>n f'. files w' (l_path l) = Some f' \<and> content f' = a @ take n (ent_bytes e) @ drop n tail)) w"
proof (rule wp_Append [OF assms], goal_cases)
  case (1 fs l')
  note ok = mk_ent_ok(1) [OF 1(2) assms(7), of d, folded e]
  have "slice (20 + length key + length (e_attrs e)) (length v) (ent_bytes e) = v"
    "20 + length key + length (e_attrs e) + length v \<le> length (ent_bytes e)"
    using ent_value_slice [OF ok] by (simp_all add: e mk_ent_def)
  then show ?case
    using 1(2) same_log_simps(3) [OF 1(3)] assms(4) by (auto intro!: only_changes_set)
qed (use assms(4) in \<open>auto simp: same_log_simps intro!: only_changes_set\<close>)

theorem Append_spec_witness:
  "wp (Append ((new_log ''s'')\<lparr>l_writePos := 16\<rparr>) ''k'' [118] False [] [])
    (\<lambda>(r, l') w'. case r of
        Inr (off, sz, recordOffset, storedSize) \<Rightarrow> recordOffset = 16 \<and> l_writePos l' = 16 + storedSize \<and> sz = 1 \<and>
          (\<exists>f'. files w' ''s'' = Some f' \<and> slice off 1 (content f') = [118])
      | Inl err \<Rightarrow> l_writePos l' = 16)
    (\<lambda>w'. True)
    \<lparr>files = [''s'' \<mapsto> \<lparr>content = new_header @ [9, 9], durable = [], fmode = 420\<rparr>], locked = {}, umask = 0, faults = [Failed 7]\<rparr>"
proof -
  have len: "length new_header = 16" by (simp add: new_header_def logHeaderSize_def)
  show ?thesis
    by (rule wp_mono [OF Append_spec [where l = "(new_log ''s'')\<lparr>l_writePos := 16\<rparr>" and a = new_header and tail = "[9, 9]"
            and f = "\<lparr>content = new_header @ [9, 9], durable = [], fmode = 420\<rparr>"]])
      (auto simp: new_log_def unknownReadOnly_def len split: sum.splits)
qed



text \<open>
  The header a log writes is read back with the same
  version and feature masks, for every version and every mask of read-only
  features; and a version 5 header that is accepted is exactly the one the log
  that results would write.
\<close>

theorem header_roundtrip:
  "(0 < l_version l \<and> l_version l \<le> logVersion \<and> l_incompatibleFeatures l = 0 \<and> (l_version l \<ge> 5 \<or> l_readOnlyFeatures l = 0) \<longrightarrow>
     parse_header (new_log p) (header_bytes l) =
       Inr ((new_log p)\<lparr>l_version := l_version l, l_readOnlyFeatures := l_readOnlyFeatures l\<rparr>)) \<and>
   (length hdr = logHeaderSize \<and> parse_header (new_log p) hdr = Inr l' \<and> l_version l' \<ge> 5 \<longrightarrow> hdr = header_bytes l')"
proof (intro conjI impI)
  assume *: "length hdr = logHeaderSize \<and> parse_header (new_log p) hdr = Inr l' \<and> l_version l' \<ge> 5"
  obtain v inc ro where "hdr = bytes_of logMagic @ PutUint32 v @ PutUint32 inc @ PutUint32 ro"
    "0 < v" "v \<le> logVersion" "if v \<ge> 5 then inc = 0 \<and> l' = (new_log p)\<lparr>l_version := v, l_readOnlyFeatures := ro\<rparr>
      else l' = (new_log p)\<lparr>l_version := v\<rparr>"
    using * by (blast intro: parse_header_fields)
  then show "hdr = header_bytes l'"
    using * by (auto simp: header_bytes_def new_log_def logMagic_def split: if_splits)
qed (use parse_header_bytes in blast)

theorem header_roundtrip_witness:
  "\<exists>l. parse_header (new_log ''s'') (header_bytes ((new_log ''s'')\<lparr>l_readOnlyFeatures := 8\<rparr>)) = Inr l \<and> l_readOnlyFeatures l = 8"
  using header_roundtrip [of "(new_log ''s'')\<lparr>l_readOnlyFeatures := 8\<rparr>" "''s''" "[]" "new_log ''s''"]
  by (simp add: new_log_def logVersion_def)

lemma openAppendLog_torn_header:
  assumes "survivor p w = Some f" "content f \<noteq> []" "length (content f) < logHeaderSize"
  shows "wp (openAppendLog p) (\<lambda>r w'. (\<exists>err. r = Inl err \<and> (calm w \<longrightarrow> errors_Is err ErrCorruptedData)) \<and> survivor p w' = Some f)
    (\<lambda>w'. survivor p w' = Some f) w"
  unfolding openAppendLog_def wp_try
proof (rule wp_mono [OF wp_recoverCompactionArtifacts], goal_cases)
  case (1 r w')
  show ?case
  proof (cases r)
    case (Inr _)
    then have w': "files w' p = Some f" "calm w \<Longrightarrow> calm w'" using 1 assms(1) by auto
    then have "survivor p w' = Some f" by (simp add: survivor_def)
    then show ?thesis
      unfolding Inr sum.case
      by (intro wp_openAppendLogFile [OF w'(1) assms(2)]) (use assms(3) w'(2) in auto)
  qed (use 1 assms(1) in auto)
qed (use assms(1) in auto)

text \<open>
  C39. A crash while a new log is created can leave the store unusable: when the
  process dies after part of the header is written, the file holds one to
  fifteen bytes, and from then on every attempt to open the store fails with
  \<^verbatim>\<open>ErrCorruptedData\<close>; nothing repairs or removes the file, although it holds
  no data.
\<close>

theorem torn_header_never_opens:
  assumes "files w p = None" "faults w = [Good, Good, Dies n]" "0 < n" "n < logHeaderSize"
  shows "\<exists>w' f. openAppendLogFile p w = (None, w') \<and> files w' p = Some f \<and> content f = take n new_header \<and>
    (\<forall>fs. wp (openAppendLog p)
      (\<lambda>r w''. (\<exists>err. r = Inl err \<and> (fs = [] \<longrightarrow> errors_Is err ErrCorruptedData)) \<and> survivor p w'' = Some f)
      (\<lambda>w''. survivor p w'' = Some f) (w'\<lparr>faults := fs\<rparr>))"
proof -
  define f where "f = \<lparr>content = take n new_header, durable = [], fmode = 420 AND NOT (umask w)\<rparr>"
  define w' where "w' = set_file p (Some f) (w\<lparr>faults := []\<rparr>)"
  have "openAppendLogFile p w = (None, w')"
    using assms(1,2,3)
    by (simp add: openAppendLogFile_def try_io_def bind_io_def os_OpenFile_def os_Stat_def syscall_def with_file_def Let_def
        writeHeader_def on_handle_def file_WriteAt_def new_header w'_def f_def write_at_def new_log_def [of p, THEN arg_cong [of _ _ l_closed]]
        new_log_def [of p, THEN arg_cong [of _ _ l_path]])
  moreover have "files w' p = Some f" by (simp add: w'_def)
  moreover have "wp (openAppendLog p)
      (\<lambda>r w''. (\<exists>err. r = Inl err \<and> (fs = [] \<longrightarrow> errors_Is err ErrCorruptedData)) \<and> survivor p w'' = Some f)
      (\<lambda>w''. survivor p w'' = Some f) (w'\<lparr>faults := fs\<rparr>)" for fs
  proof -
    have "length new_header = logHeaderSize" by (simp add: new_header_def)
    then have "content f \<noteq> []" "length (content f) < logHeaderSize" using assms(3,4) by (auto simp: f_def logHeaderSize_def)
    moreover have "survivor p (w'\<lparr>faults := fs\<rparr>) = Some f" by (simp add: survivor_def w'_def)
    ultimately show ?thesis using openAppendLog_torn_header [of p "w'\<lparr>faults := fs\<rparr>" f] by simp
  qed
  ultimately show ?thesis by (auto simp: f_def)
qed

theorem torn_header_never_opens_witness:
  "\<exists>w' f. openAppendLogFile ''s'' \<lparr>files = Map.empty, locked = {}, umask = 0, faults = [Good, Good, Dies 5]\<rparr> = (None, w') \<and>
    files w' ''s'' = Some f \<and> length (content f) = 5 \<and>
    wp (openAppendLog ''s'') (\<lambda>r w''. (\<exists>err. r = Inl err \<and> errors_Is err ErrCorruptedData) \<and> survivor ''s'' w'' = Some f)
      (\<lambda>w''. survivor ''s'' w'' = Some f) (w'\<lparr>faults := []\<rparr>)"
proof -
  have "length new_header = 16" by (simp add: new_header_def logHeaderSize_def)
  moreover obtain w' f where
    "openAppendLogFile ''s'' \<lparr>files = Map.empty, locked = {}, umask = 0, faults = [Good, Good, Dies 5]\<rparr> = (None, w')"
    "files w' ''s'' = Some f" "content f = take 5 new_header"
    and fs: "\<And>fs. wp (openAppendLog ''s'')
      (\<lambda>r w''. (\<exists>err. r = Inl err \<and> (fs = [] \<longrightarrow> errors_Is err ErrCorruptedData)) \<and> survivor ''s'' w'' = Some f)
      (\<lambda>w''. survivor ''s'' w'' = Some f) (w'\<lparr>faults := fs\<rparr>)"
    using torn_header_never_opens [of "\<lparr>files = Map.empty, locked = {}, umask = 0, faults = [Good, Good, Dies 5]\<rparr>" "''s''" 5]
    by (auto simp: logHeaderSize_def)
  ultimately show ?thesis using fs [of "[]"] by auto
qed

lemma read_record_short_length:
  assumes "4 \<le> length rest" "le_nat (take 4 rest) < 20" "version \<ge> 4"
  obtains msg where "read_record version \<lparr>rbuf = rest, rerr = err\<rparr> q = Inl (Errorf msg)"
proof -
  have "unat (of_nat (le_nat (take 4 rest)) :: 32 word) = le_nat (take 4 rest)"
    using assms(2) by (simp add: unat_of_nat32)
  then show thesis
    using assms that by (simp add: read_record_def readRecordFrom_def io_ReadFull_def Uint32_def layout)
qed

lemma Iterate_garbage_tail:
  assumes "\<not> l_closed l" "l_version l \<ge> 4" "l_writePos l = length (content f)" "files w (l_path l) = Some f" "calm w"
    and f: "content f = hdr @ log_body es @ rest" "length hdr = logHeaderSize" "\<forall>e \<in> set es. ent_ok e"
    and rest: "4 \<le> length rest" "le_nat (take 4 rest) < 20" and fn: "\<And>rec s. fn rec s = (None, g rec s)"
  shows "Iterate l fn s w =
    (Some (Inl (Wrap ''record'' [ErrCorruptedData]), fold g (map ent_record (places logHeaderSize es)) s, l), w)"
proof -
  define q where "q = logHeaderSize + length (log_body es)"
  obtain msg where rd: "read_record (l_version l) \<lparr>rbuf = rest, rerr = EOF\<rparr> q = Inl (Errorf msg)"
    using rest assms(2) by (rule read_record_short_length)
  have "q < length (content f)" using f rest(1) by (cases rest) (simp_all add: q_def)
  moreover have "iterate_loop (l_version l) fn (length (content f)) \<lparr>rbuf = drop logHeaderSize (content f), rerr = EOF\<rparr> logHeaderSize s =
      iterate_loop (l_version l) fn (length (content f)) \<lparr>rbuf = rest, rerr = EOF\<rparr> q (fold g (map ent_record (places logHeaderSize es)) s)"
    using iterate_loop_accepts [where fn = fn and g = g, OF accepts_ents [OF f(3) assms(2)] _ fn] f(1,2) by (simp add: q_def)
  ultimately show ?thesis
    using assms(1,3,4,5) rd
    by (simp add: Iterate_def bind_io_def file_NewReader_good iterate_end_def return_def
        iterate_loop.simps [of _ _ _ "\<lparr>rbuf = rest, rerr = EOF\<rparr>"])
qed

text \<open>
  C40. A failed append can make the log unreadable: when the write of one record
  fails after part of it reached the file, the next, shorter record is written over
  the front of those bytes and acknowledged, and the rest of them stays behind it. When
  the log is opened again the scan reports \<^verbatim>\<open>ErrCorruptedData\<close>, so that neither
  the acknowledged record nor any older one can be read.
\<close>

theorem failed_append_corrupts_log:
  assumes l: "l_version l = logVersion" "unknownReadOnly l = 0" "\<not> l_closed l" "l_writePos l = length (content f)"
    and w: "files w (l_path l) = Some f" "faults w = [Failed n]"
    and f: "content f = new_header @ log_body es" "\<forall>e \<in> set es. ent_ok e"
    and args: "appendable k1 v1 a1 []" "go_map a1" "appendable k2 v2 a2 []" "go_map a2"
    and rest: "rest = drop (length (ent_bytes (mk_ent k2 v2 False a2 []))) (take n (ent_bytes (mk_ent k1 v1 False a1 [])))"
      "4 \<le> length rest" "le_nat (take 4 rest) < 20"
  shows "\<exists>l1 w1 l2 w2 res l3 err. Append l k1 v1 False a1 [] w = (Some (Inl IOError, l1), w1) \<and>
    Append l1 k2 v2 False a2 [] w1 = (Some (Inr res, l2), w2) \<and>
    openAppendLogFile (l_path l) w2 = (Some (Inr l3), w2) \<and>
    Iterate l3 (\<lambda>rec s. (None, s)) () w2 = (Some (Inl err, (), l3), w2) \<and> errors_Is err ErrCorruptedData"
proof -
  let ?p = "l_path l" and ?e1 = "mk_ent k1 v1 False a1 []" and ?e2 = "mk_ent k2 v2 False a2 []"
  define f1 where "f1 = f\<lparr>content := content f @ take n (ent_bytes ?e1)\<rparr>"
  define w1 where "w1 = set_file ?p (Some f1) (w\<lparr>faults := []\<rparr>)"
  define f2 where "f2 = f1\<lparr>content := content f @ ent_bytes ?e2 @ rest\<rparr>"
  define w2 where "w2 = set_file ?p (Some f2) w1"
  have n: "n \<noteq> 0" using rest(1,2) by (cases n) simp_all
  obtain l1 where l1: "same_log l l1" "Append l k1 v1 False a1 [] =
      bind_io (on_handle l1 (file_WriteAt (l_path l1) (l_writePos l) (ent_bytes ?e1))) (\<lambda>r. case r of
        Inl err \<Rightarrow> return (Inl err, l1)
      | Inr _ \<Rightarrow>
          let l2 = l1\<lparr>l_writePos := l_writePos l + length (ent_bytes ?e1)\<rparr>;
              res = (l_writePos l + (20 + length k1 + length (e_attrs ?e1)), of_nat (length v1), l_writePos l, length (ent_bytes ?e1)) in
          if l_writePos l2 > mapped_len l2 then bind_io (remap l2) (\<lambda>l'. return (Inr res, l'))
          else return (Inr res, l2))"
    using l(1,2) args(2,1) refl by (rule Append_accepts)
  note s = same_log_simps [OF l1(1)]
  have 1: "Append l k1 v1 False a1 [] w = (Some (Inl IOError, l1), w1)"
    unfolding l1(2) using w l(3,4) n s
    by (simp add: bind_io_def file_WriteAt_def syscall_def return_def w1_def f1_def write_at_def)
  have w1: "files w1 ?p = Some f1" "calm w1" "w1\<lparr>faults := []\<rparr> = w1" by (simp_all add: w1_def)
  have f1: "f1\<lparr>content := content f @ ent_bytes ?e2 @ drop (length (ent_bytes ?e2)) (take n (ent_bytes ?e1))\<rparr> = f2"
    by (simp add: f2_def rest(1))
  have "wp (Append l1 k2 v2 False a2 []) (\<lambda>(r, l') w'. \<exists>res. r = Inr res \<and> w' = w2) (\<lambda>_. False) w1"
    by (rule wp_Append [where a = "content f" and tail = "take n (ent_bytes ?e1)" and f = f1])
      (use s l args w1 f1 in \<open>auto simp: f1_def w2_def still_def\<close>)
  from wp_total [OF this] obtain res l2 where 2: "Append l1 k2 v2 False a2 [] w1 = (Some (Inr res, l2), w2)" by auto
  have c2: "content f2 = new_header @ log_body (es @ [?e2]) @ rest" by (simp add: f2_def f(1))
  have w2: "files w2 ?p = Some f2" "calm w2" "w2\<lparr>faults := []\<rparr> = w2" using w1 by (simp_all add: w2_def)
  have hdr: "length new_header = logHeaderSize" "new_header \<noteq> []" "parse_header (new_log ?p) new_header = Inr (new_log ?p)"
    using parse_header_bytes [of "new_log []" ?p] by (auto simp: new_header_def new_log_def logVersion_def logHeaderSize_def header_bytes_def logMagic_def)
  have "wp (openAppendLogFile ?p) (\<lambda>r w'. \<exists>l3. r = Inr l3 \<and> same_log ((new_log ?p)\<lparr>l_writePos := length (content f2)\<rparr>) l3 \<and> w' = w2) (\<lambda>_. False) w2"
    by (rule wp_openAppendLogFile [OF w2(1)]) (use hdr w2 in \<open>auto simp: c2 still_def\<close>)
  from wp_total [OF this] obtain l3 where 3: "openAppendLogFile ?p w2 = (Some (Inr l3), w2)"
    and l3: "same_log ((new_log ?p)\<lparr>l_writePos := length (content f2)\<rparr>) l3" by auto
  have "ent_ok ?e2" using args(3,4) by (rule mk_ent_ok)
  then have "Iterate l3 (\<lambda>rec s. (None, s)) () w2 = (Some (Inl (Wrap ''record'' [ErrCorruptedData]), (), l3), w2)"
    using same_log_simps [OF l3] w2 c2 hdr f(2) rest(2,3)
    by (subst Iterate_garbage_tail [where g = "\<lambda>rec s. s" and f = f2 and es = "es @ [?e2]"]) (auto simp: new_log_def logVersion_def)
  with 1 2 3 show ?thesis by (cases res) auto
qed

theorem failed_append_corrupts_log_witness:
  "\<exists>l1 w1 l2 w2 res l3 err.
    Append ((new_log ''s'')\<lparr>l_writePos := 16\<rparr>) ''k'' (replicate 40 0) False [] []
      \<lparr>files = [''s'' \<mapsto> \<lparr>content = new_header, durable = [], fmode = 420\<rparr>], locked = {}, umask = 0, faults = [Failed 50]\<rparr>
      = (Some (Inl IOError, l1), w1) \<and>
    Append l1 ''j'' [118] False [] [] w1 = (Some (Inr res, l2), w2) \<and>
    openAppendLogFile ''s'' w2 = (Some (Inr l3), w2) \<and>
    Iterate l3 (\<lambda>rec s. (None, s)) () w2 = (Some (Inl err, (), l3), w2) \<and> errors_Is err ErrCorruptedData"
proof -
  let ?l = "(new_log ''s'')\<lparr>l_writePos := 16\<rparr>"
  have ok: "appendable ''k'' (replicate 40 0) [] []" "appendable ''j'' [118] [] []"
    by (simp_all add: appendable_def valid_attributes_def limits attr_size_def validateExtensions_def validateExtensions_from.simps)
  have at: "e_attrs (mk_ent k v False [] []) = [0, 0, 0, 0]" "length (ent_bytes (mk_ent ''j'' [118] False [] [])) = 30" for k v
    using mk_ent_ok(4) [OF ok(2), of False] by (simp_all add: mk_ent_def by_name_def attr_block_def PutUint32_def)
  have zeros: "le_nat (replicate 4 0) = 0" by (simp add: numeral_eq_Suc)
  define B where "B = ent_bytes (mk_ent ''k'' (replicate 40 0) False [] [])"
  have "slice 25 40 B = replicate 40 0"
    unfolding B_def using ent_value_slice(1) [OF mk_ent_ok(1) [OF ok(1), of False]] by (simp add: at) (simp add: mk_ent_def)
  then have "drop 5 (slice 25 40 B) = replicate 35 0" by simp
  then have "take 35 (drop 30 B) = replicate 35 0" by (simp add: drop_take)
  then have "take 20 (take 35 (drop 30 B)) = replicate 20 0" by simp
  then have "drop 30 (take 50 B) = replicate 20 0" by (simp add: drop_take)
  then show ?thesis
    using failed_append_corrupts_log [of ?l "\<lparr>content = new_header, durable = [], fmode = 420\<rparr>"
        "\<lparr>files = [''s'' \<mapsto> \<lparr>content = new_header, durable = [], fmode = 420\<rparr>], locked = {}, umask = 0, faults = [Failed 50]\<rparr>"
        50 "[]" "''k''" "replicate 40 0" "[]" "''j''" "[118]" "[]" "replicate 20 0"] ok at(2)
    by (simp add: B_def new_log_def unknownReadOnly_def new_header_def logHeaderSize_def zeros)
qed

end
