(* ===== verification/FileLock.thy ===== *)
theory FileLock
  imports LogAccess
begin

text \<open>
  The lock file of \<^verbatim>\<open>lock.go\<close> and \<^verbatim>\<open>lock_unix.go\<close>: an advisory lock of the
  operating system on a file beside the log, held while the store is open.
\<close>

definition lockFileSuffix :: string where "lockFileSuffix = ''.lock''"

record fileLock =
  lk_file :: "path option"

definition tryLockFile :: "path \<Rightarrow> (error + unit) io" where
  "tryLockFile lockPath = os_Flock lockPath"

definition unlockFile :: "path \<Rightarrow> (error + unit) io" where
  "unlockFile lockPath = os_Funlock lockPath"

definition isLockContended :: "error \<Rightarrow> bool" where
  "isLockContended err \<longleftrightarrow> errors_Is err ErrWouldBlock"

definition acquireFileLock :: "path \<Rightarrow> (error + fileLock) io" where
  "acquireFileLock path =
     (let lockPath = path @ lockFileSuffix in
      try_io (wrap_error ''open store lock'' (os_OpenFile lockPath False 384)) (\<lambda>_.
      bind_io (tryLockFile lockPath) (\<lambda>r. case r of
        Inl err \<Rightarrow> ignore_io file_Close (return (Inl
          (if isLockContended err then Wrap path [ErrStoreLocked] else Wrap ''acquire store lock'' [err])))
      | Inr _ \<Rightarrow> return (Inr \<lparr>lk_file = Some lockPath\<rparr>))))"

definition lock_release :: "fileLock \<Rightarrow> ((error + unit) \<times> fileLock) io" where
  "lock_release l = (case lk_file l of
       None \<Rightarrow> return (Inr (), l)
     | Some lockPath \<Rightarrow>
         let l = l\<lparr>lk_file := None\<rparr> in
         bind_io (unlockFile lockPath) (\<lambda>r1.
         bind_io (os_CloseLock lockPath) (\<lambda>r2.
         return (errors_Join [r1, r2], l))))"

section \<open>Specifications\<close>

lemma errors_Join_nil [simp]: "errors_Join rs = Inr () \<longleftrightarrow> (\<forall>r \<in> set rs. r = Inr ())"
  by (induction rs) (auto simp: errors_Join_def split: sum.splits)

text \<open>
  The locks a state is left with are stated by comparing it with one whose
  locks are set: \<open>only_changes P (w\<lparr>locked := L\<rparr>) w'\<close>.
\<close>

lemma wp_acquireFileLock:
  "wp (acquireFileLock p)
     (\<lambda>r w'. (calm w \<longrightarrow> calm w') \<and> (case r of
        Inl err \<Rightarrow> only_changes {p @ lockFileSuffix} w w' \<and>
          (p @ lockFileSuffix \<in> locked w \<and> errors_Is err ErrStoreLocked \<or> \<not> calm w)
      | Inr l \<Rightarrow> lk_file l = Some (p @ lockFileSuffix) \<and> p @ lockFileSuffix \<notin> locked w \<and>
          only_changes {p @ lockFileSuffix} (w\<lparr>locked := insert (p @ lockFileSuffix) (locked w)\<rparr>) w'))
     (\<lambda>w'. \<not> calm w \<and> only_changes {p @ lockFileSuffix} w w') w"
proof -
  let ?lp = "p @ lockFileSuffix"
  let ?Q = "\<lambda>r w'. (calm w \<longrightarrow> calm w') \<and> (case r of
        Inl err \<Rightarrow> only_changes {?lp} w w' \<and> (?lp \<in> locked w \<and> errors_Is err ErrStoreLocked \<or> \<not> calm w)
      | Inr l \<Rightarrow> lk_file l = Some ?lp \<and> ?lp \<notin> locked w \<and>
          only_changes {?lp} (w\<lparr>locked := insert ?lp (locked w)\<rparr>) w')"
  let ?C = "\<lambda>w'. \<not> calm w \<and> only_changes {?lp} w w'"
  have lock: "wp (bind_io (tryLockFile ?lp) (\<lambda>r. case r of
        Inl err \<Rightarrow> ignore_io file_Close (return (Inl
          (if isLockContended err then Wrap p [ErrStoreLocked] else Wrap ''acquire store lock'' [err])))
      | Inr _ \<Rightarrow> return (Inr \<lparr>lk_file = Some ?lp\<rparr>))) ?Q ?C w'"
    if "only_changes {?lp} w w'" "calm w \<longrightarrow> calm w'" for w'
    unfolding wp_bind tryLockFile_def using that
    by (auto simp: wp_simps isLockContended_def only_changes_def still_def intro!: wp_Flock wp_Close)
  show ?thesis
    unfolding acquireFileLock_def Let_def wp_try wp_wrap
    by (rule wp_OpenFile; simp only: sum.case if_False) (auto simp: still_def intro!: lock)
qed

lemma wp_lock_release:
  assumes "lk_file l = Some lp"
  shows "wp (lock_release l)
     (\<lambda>(r, l') w'. (calm w \<longrightarrow> calm w' \<and> r = Inr ()) \<and> lk_file l' = None \<and>
        only_changes {} (w\<lparr>locked := locked w - {lp}\<rparr>) w')
     (\<lambda>w'. \<not> calm w \<and> (\<exists>L. only_changes {} (w\<lparr>locked := L\<rparr>) w')) w"
  unfolding lock_release_def unlockFile_def using assms
  by (auto simp: wp_simps only_changes_def still_def intro!: wp_Funlock wp_CloseLock)

lemma acquireFileLock_held:
  assumes "calm w" "p @ lockFileSuffix \<in> locked w"
  shows "\<exists>err w'. acquireFileLock p w = (Some (Inl err), w') \<and> errors_Is err ErrStoreLocked"
proof -
  obtain r w' where r: "acquireFileLock p w = (Some r, w')"
    using wp_total [OF wp_mono [OF wp_acquireFileLock [of p w]], of "\<lambda>_ _. True"] assms by auto
  show ?thesis using wp_runs [OF wp_acquireFileLock r] r assms by (cases r) auto
qed

lemma acquireFileLock_free:
  assumes "calm w" "p @ lockFileSuffix \<notin> locked w"
  shows "\<exists>l w'. acquireFileLock p w = (Some (Inr l), w') \<and> calm w'"
proof -
  obtain r w' where r: "acquireFileLock p w = (Some r, w')"
    using wp_total [OF wp_mono [OF wp_acquireFileLock [of p w]], of "\<lambda>_ _. True"] assms by auto
  show ?thesis using wp_runs [OF wp_acquireFileLock r] r assms by (cases r) auto
qed

text \<open>
  The state in which another process finds the system after the process that
  held the lock of \<open>p\<close> has died: the system has dropped its lock.
\<close>

definition process_died :: "path \<Rightarrow> world \<Rightarrow> world" where
  "process_died p w = w\<lparr>locked := locked w - {p @ lockFileSuffix}\<rparr>"

section \<open>Properties\<close>

text \<open>
  C38. The lock of a store is exclusive: once it has been acquired, another
  attempt is refused with \<^verbatim>\<open>ErrStoreLocked\<close> (when no system call fails), and
  after it has been released, even with an error, the next attempt succeeds.
  None of the calls touches a file other than the lock file.
\<close>

theorem file_lock_exclusive:
  assumes acquired: "acquireFileLock p w = (Some (Inr l), w1)"
    and calm: "w2 = w1\<lparr>faults := []\<rparr>"
    and released: "lock_release l w1 = (Some (r, l'), w3)"
  shows "(\<exists>err w4. acquireFileLock p w2 = (Some (Inl err), w4) \<and> errors_Is err ErrStoreLocked) \<and>
    (\<exists>l4 w4. acquireFileLock p (w3\<lparr>faults := []\<rparr>) = (Some (Inr l4), w4)) \<and>
    only_changes {p @ lockFileSuffix} w w3"
proof -
  let ?lp = "p @ lockFileSuffix"
  have l: "lk_file l = Some ?lp" and new: "?lp \<notin> locked w"
    and w1: "only_changes {?lp} (w\<lparr>locked := insert ?lp (locked w)\<rparr>) w1"
    using wp_runs [OF wp_acquireFileLock acquired] by simp_all
  have w3: "only_changes {} (w1\<lparr>locked := locked w1 - {?lp}\<rparr>) w3"
    using wp_runs [OF wp_lock_release [OF l] released] by simp
  have "?lp \<in> locked w1" "?lp \<notin> locked w3" "only_changes {?lp} w w3"
    using w1 w3 new by (auto simp: only_changes_def)
  then show ?thesis
    using acquireFileLock_held [of "w1\<lparr>faults := []\<rparr>" p] acquireFileLock_free [of "w3\<lparr>faults := []\<rparr>" p]
    by (simp add: calm) blast
qed

theorem file_lock_exclusive_witness:
  "\<exists>w l w1 r l' w3. acquireFileLock ''db'' w = (Some (Inr l), w1) \<and> lock_release l w1 = (Some (r, l'), w3) \<and>
     (\<exists>err w4. acquireFileLock ''db'' (w1\<lparr>faults := []\<rparr>) = (Some (Inl err), w4) \<and> errors_Is err ErrStoreLocked) \<and>
     (\<exists>l4 w4. acquireFileLock ''db'' (w3\<lparr>faults := []\<rparr>) = (Some (Inr l4), w4))"
proof -
  let ?w = "\<lparr>files = Map.empty, locked = {}, umask = 0, faults = []\<rparr>"
  obtain l w1 where a: "acquireFileLock ''db'' ?w = (Some (Inr l), w1)" "calm w1"
    using acquireFileLock_free [of ?w "''db''"] by auto
  have "lk_file l = Some (''db'' @ lockFileSuffix)" using wp_runs [OF wp_acquireFileLock a(1)] by simp
  from wp_lock_release [OF this, of w1] obtain r l' w3 where r: "lock_release l w1 = (Some (r, l'), w3)"
    using wp_total [OF wp_mono [of "lock_release l" _ _ w1 "\<lambda>_ _. True" "\<lambda>_. False"]] a(2) by fastforce
  from file_lock_exclusive [OF a(1) refl r] a(1) r show ?thesis by blast
qed

end
