(* ===== verification/Cache.thy ===== *)
theory Cache
  imports Prelude
begin

text \<open>
  The LRU cache of \<^verbatim>\<open>cache.go\<close>. The doubly linked list of \<^verbatim>\<open>container/list\<close> is the
  list of its elements from front to back, each with its address; the map
  \<open>items\<close> holds addresses, as the code's map holds \<^verbatim>\<open>*list.Element\<close>.
  \<open>next_elem\<close> is the address the next \<^verbatim>\<open>PushFront\<close> allocates. The mutex of the
  cache makes each operation atomic. The reference is a plain list of keys and
  values, most recently used first.
\<close>

record cacheItem =
  ci_key :: string
  ci_value :: bytes

record lruCache =
  capacity :: int
  items :: "(string \<times> nat) list"
  order :: "(nat \<times> cacheItem) list"
  next_elem :: nat

section \<open>Operations\<close>

definition newLRUCache :: "int \<Rightarrow> lruCache" where
  "newLRUCache cap = \<lparr>capacity = cap, items = [], order = [], next_elem = 0\<rparr>"

text \<open>\<^verbatim>\<open>list.List.MoveToFront\<close> and \<^verbatim>\<open>list.List.Remove\<close>, by the element's address.\<close>

definition list_MoveToFront :: "nat \<Rightarrow> (nat \<times> cacheItem) list \<Rightarrow> (nat \<times> cacheItem) list" where
  "list_MoveToFront a xs = (case map_of xs a of
       None \<Rightarrow> xs
     | Some item \<Rightarrow> (a, item) # filter (\<lambda>p. fst p \<noteq> a) xs)"

definition list_Remove :: "nat \<Rightarrow> (nat \<times> cacheItem) list \<Rightarrow> (nat \<times> cacheItem) list" where
  "list_Remove a xs = filter (\<lambda>p. fst p \<noteq> a) xs"

definition cache_Get :: "lruCache \<Rightarrow> string \<Rightarrow> bytes option \<times> lruCache" where
  "cache_Get c key = (case map_of (items c) key of
       None \<Rightarrow> (None, c)
     | Some elem \<Rightarrow>
         let c = c\<lparr>order := list_MoveToFront elem (order c)\<rparr> in
         (map_option ci_value (map_of (order c) elem), c))"

definition evictOldest :: "lruCache \<Rightarrow> lruCache" where
  "evictOldest c = (if order c = [] then c else
     let (oldest, item) = last (order c) in
     c\<lparr>items := AList.delete (ci_key item) (items c), order := list_Remove oldest (order c)\<rparr>)"

lemma length_evictOldest: "order c \<noteq> [] \<Longrightarrow> length (order (evictOldest c)) < length (order c)"
proof -
  assume ne: "order c \<noteq> []"
  obtain a item where l: "last (order c) = (a, item)" by (cases "last (order c)")
  have "(a, item) \<in> set (order c)" using last_in_set [OF ne] l by simp
  then have "length (filter (\<lambda>p. fst p \<noteq> a) (order c)) < length (order c)"
    by (rule length_filter_less) simp
  then show ?thesis using ne l by (simp add: evictOldest_def list_Remove_def)
qed

function evict_until :: "lruCache \<Rightarrow> lruCache" where
  "evict_until c =
     (if int (length (order c)) \<ge> capacity c \<and> length (order c) > 0
      then evict_until (evictOldest c) else c)"
  by pat_completeness auto
termination
  by (relation "measure (\<lambda>c. length (order c))") (auto intro: length_evictOldest)

declare evict_until.simps [simp del]

definition cache_Put :: "lruCache \<Rightarrow> string \<Rightarrow> bytes \<Rightarrow> lruCache" where
  "cache_Put c key value = (case map_of (items c) key of
       Some elem \<Rightarrow>
         let c = c\<lparr>order := list_MoveToFront elem (order c)\<rparr> in
         c\<lparr>order := map (\<lambda>(a, item). if a = elem then (a, item\<lparr>ci_value := value\<rparr>) else (a, item)) (order c)\<rparr>
     | None \<Rightarrow>
         let c = evict_until c;
             item = \<lparr>ci_key = key, ci_value = value\<rparr>;
             elem = next_elem c;
             c = c\<lparr>order := (elem, item) # order c, next_elem := elem + 1\<rparr> in
         c\<lparr>items := AList.update key elem (items c)\<rparr>)"

definition cache_Remove :: "lruCache \<Rightarrow> string \<Rightarrow> lruCache" where
  "cache_Remove c key = (case map_of (items c) key of
       Some elem \<Rightarrow> c\<lparr>order := list_Remove elem (order c), items := AList.delete key (items c)\<rparr>
     | None \<Rightarrow> c)"

definition cache_Clear :: "lruCache \<Rightarrow> lruCache" where
  "cache_Clear c = c\<lparr>items := [], order := []\<rparr>"

definition cache_Len :: "lruCache \<Rightarrow> nat" where
  "cache_Len c = length (order c)"

text \<open>The loop of \<^verbatim>\<open>SetCapacity\<close> has no guard against an empty list.\<close>

partial_function (option) shrink :: "lruCache \<Rightarrow> lruCache option" where
  "shrink c = (if int (length (order c)) > capacity c then shrink (evictOldest c) else Some c)"

definition SetCapacity :: "lruCache \<Rightarrow> int \<Rightarrow> lruCache option" where
  "SetCapacity c cap = shrink (c\<lparr>capacity := cap\<rparr>)"

definition cache_MemoryUsage :: "lruCache \<Rightarrow> nat" where
  "cache_MemoryUsage c =
     foldl (\<lambda>t (a, item). t + (length (ci_key item) + length (ci_value item) + 64)) 0 (order c)"

definition cache_Keys :: "lruCache \<Rightarrow> string list" where
  "cache_Keys c = map (\<lambda>(a, item). ci_key item) (order c)"

section \<open>Reference: a recency list\<close>

definition recency :: "lruCache \<Rightarrow> (string \<times> bytes) list" where
  "recency c = map (\<lambda>(a, item). (ci_key item, ci_value item)) (order c)"

definition lru_drop :: "string \<Rightarrow> (string \<times> bytes) list \<Rightarrow> (string \<times> bytes) list" where
  "lru_drop k xs = filter (\<lambda>p. fst p \<noteq> k) xs"

definition lru_get :: "string \<Rightarrow> (string \<times> bytes) list \<Rightarrow> (string \<times> bytes) list" where
  "lru_get k xs = (case map_of xs k of None \<Rightarrow> xs | Some v \<Rightarrow> (k, v) # lru_drop k xs)"

definition lru_put :: "nat \<Rightarrow> string \<Rightarrow> bytes \<Rightarrow> (string \<times> bytes) list \<Rightarrow> (string \<times> bytes) list" where
  "lru_put cap k v xs =
     (if map_of xs k \<noteq> None then (k, v) # lru_drop k xs else (k, v) # take (cap - 1) xs)"

text \<open>
  The type invariant: addresses and keys are distinct, the map and the list
  describe the same elements, and addresses to come are fresh.
\<close>

definition cache_inv :: "lruCache \<Rightarrow> bool" where
  "cache_inv c \<longleftrightarrow> go_map (order c) \<and> go_map (items c) \<and> distinct (cache_Keys c) \<and>
     set (items c) = (\<lambda>(a, item). (ci_key item, a)) ` set (order c) \<and>
     (\<forall>a \<in> fst ` set (order c). a < next_elem c)"

lemma cache_items_iff:
  "cache_inv c \<Longrightarrow> map_of (items c) k = Some a \<longleftrightarrow> (\<exists>item. (a, item) \<in> set (order c) \<and> ci_key item = k)"
  by (auto simp: cache_inv_def)

lemma fst_recency: "map fst (recency c) = cache_Keys c"
  by (simp add: recency_def cache_Keys_def case_prod_unfold)

lemma map_of_recency:
  assumes "cache_inv c"
  shows "map_of (recency c) k = (case map_of (items c) k of None \<Rightarrow> None
    | Some a \<Rightarrow> map_option ci_value (map_of (order c) a))"
proof (cases "map_of (items c) k")
  case None
  then have "k \<notin> set (map fst (recency c))"
    using cache_items_iff [OF assms, of k] unfolding fst_recency cache_Keys_def by auto
  then show ?thesis using None by (metis list.set_map map_of_eq_None_iff option.case(1))
next
  case (Some a)
  then obtain item where it: "(a, item) \<in> set (order c)" "ci_key item = k"
    using cache_items_iff [OF assms] by blast
  then have "(k, ci_value item) \<in> set (recency c)" by (force simp: recency_def)
  then show ?thesis
    using it Some assms by (simp add: cache_inv_def fst_recency)
qed

lemma cache_same_elem:
  assumes "cache_inv c" "(a, item) \<in> set (order c)" "(b, item') \<in> set (order c)"
  shows "a = b \<longleftrightarrow> ci_key item = ci_key item'"
proof
  assume "a = b"
  then show "ci_key item = ci_key item'"
    using assms by (metis cache_inv_def map_of_is_SomeI option.inject)
next
  assume k: "ci_key item = ci_key item'"
  have "inj_on (\<lambda>(a, item). ci_key item) (set (order c))"
    using assms(1) by (simp add: cache_inv_def cache_Keys_def distinct_map)
  from inj_onD [OF this, of "(a, item)" "(b, item')"] show "a = b" using assms(2,3) k by simp
qed

lemma filter_addr_key:
  assumes "cache_inv c" "(a, item) \<in> set (order c)"
  shows "filter (\<lambda>p. fst p \<noteq> a) (order c) = filter (\<lambda>p. ci_key (snd p) \<noteq> ci_key item) (order c)"
  using cache_same_elem [OF assms] by (intro filter_cong) fastforce+

lemma recency_filter_key:
  "map (\<lambda>(a, item). (ci_key item, ci_value item)) (filter (\<lambda>p. ci_key (snd p) \<noteq> k) xs)
     = lru_drop k (map (\<lambda>(a, item). (ci_key item, ci_value item)) xs)"
  by (induction xs) (auto simp: lru_drop_def)

text \<open>
  Removing the element of a key, and putting one back in front: the two steps
  that \<^verbatim>\<open>Get\<close>, \<^verbatim>\<open>Put\<close> and \<^verbatim>\<open>Remove\<close> are made of.
\<close>

lemma cache_inv_drop:
  assumes "cache_inv c" "(a, item) \<in> set (order c)"
  shows "cache_inv (c\<lparr>order := list_Remove a (order c), items := AList.delete (ci_key item) (items c)\<rparr>)"
proof -
  let ?f = "\<lambda>(a, item). (ci_key item, a)"
  have "x \<in> set (AList.delete (ci_key item) (items c)) \<longleftrightarrow> x \<in> ?f ` {p \<in> set (order c). fst p \<noteq> a}" for x
  proof -
    have "x \<in> set (AList.delete (ci_key item) (items c)) \<longleftrightarrow> x \<in> set (items c) \<and> fst x \<noteq> ci_key item"
      by (auto simp: AList.delete_eq)
    also have "\<dots> \<longleftrightarrow> (\<exists>b it. x = (ci_key it, b) \<and> (b, it) \<in> set (order c) \<and> ci_key it \<noteq> ci_key item)"
      using assms(1) by (auto simp: cache_inv_def)
    also have "\<dots> \<longleftrightarrow> x \<in> ?f ` {p \<in> set (order c). fst p \<noteq> a}"
      using cache_same_elem [OF assms] by (force simp: image_def)
    finally show ?thesis .
  qed
  then have "set (AList.delete (ci_key item) (items c)) = ?f ` {p \<in> set (order c). fst p \<noteq> a}" by blast
  then show ?thesis
    using assms(1) unfolding cache_inv_def by (simp add: list_Remove_def cache_Keys_def distinct_map_filter)
qed

lemma recency_drop:
  assumes "cache_inv c" "(a, item) \<in> set (order c)"
  shows "recency (c\<lparr>order := list_Remove a (order c), items := its\<rparr>) = lru_drop (ci_key item) (recency c)"
  by (simp add: recency_def list_Remove_def filter_addr_key [OF assms] recency_filter_key)

lemma cache_inv_push:
  assumes "cache_inv c" "ci_key item \<notin> set (cache_Keys c)" "a \<notin> fst ` set (order c)"
  shows "cache_inv (c\<lparr>order := (a, item) # order c, next_elem := max (next_elem c) (a + 1),
    items := AList.update (ci_key item) a (items c)\<rparr>)"
proof -
  have "ci_key item \<notin> fst ` set (items c)"
    using assms(1,2) by (auto simp: cache_inv_def cache_Keys_def)
  then have "set (AList.update (ci_key item) a (items c)) = insert (ci_key item, a) (set (items c))"
    using assms(1) by (simp add: update_fresh)
  then show ?thesis
    using assms by (auto simp: cache_inv_def cache_Keys_def)
qed

lemma cache_addr_fresh: "cache_inv c \<Longrightarrow> next_elem c \<notin> fst ` set (order c)"
  by (auto simp: cache_inv_def)

section \<open>The operations on the recency list\<close>

lemma recency_MoveToFront:
  assumes "cache_inv c" "(a, item) \<in> set (order c)"
  shows "recency (c\<lparr>order := list_MoveToFront a (order c)\<rparr>)
    = (ci_key item, ci_value item) # lru_drop (ci_key item) (recency c)"
    and "cache_inv (c\<lparr>order := list_MoveToFront a (order c)\<rparr>)"
    and "map_of (list_MoveToFront a (order c)) a = Some item"
proof -
  have "map_of (order c) a = Some item" using assms by (simp add: cache_inv_def)
  then have m: "list_MoveToFront a (order c) = (a, item) # filter (\<lambda>p. fst p \<noteq> a) (order c)"
    by (simp add: list_MoveToFront_def)
  show "recency (c\<lparr>order := list_MoveToFront a (order c)\<rparr>)
    = (ci_key item, ci_value item) # lru_drop (ci_key item) (recency c)"
    unfolding m by (simp add: recency_def filter_addr_key [OF assms] recency_filter_key)
  have "set (list_MoveToFront a (order c)) = set (order c)"
    using assms cache_same_elem [OF assms] by (auto simp: m cache_inv_def)
      (metis assms(2) eq_key_imp_eq_value)
  moreover have "go_map (list_MoveToFront a (order c))" using assms by (auto simp: m cache_inv_def distinct_map_filter)
  moreover have "distinct (map (\<lambda>(a, y). ci_key y) (list_MoveToFront a (order c)))"
    using assms unfolding m filter_addr_key [OF assms]
    by (auto simp: cache_inv_def cache_Keys_def distinct_map_filter)
  ultimately show "cache_inv (c\<lparr>order := list_MoveToFront a (order c)\<rparr>)"
    using assms(1) by (simp add: cache_inv_def cache_Keys_def)
  show "map_of (list_MoveToFront a (order c)) a = Some item" by (simp add: m)
qed

lemma cache_Get_spec:
  assumes "cache_inv c"
  shows "fst (cache_Get c k) = map_of (recency c) k"
    and "recency (snd (cache_Get c k)) = lru_get k (recency c)"
    and "cache_inv (snd (cache_Get c k))"
    and "capacity (snd (cache_Get c k)) = capacity c"
proof -
  have "fst (cache_Get c k) = map_of (recency c) k \<and> recency (snd (cache_Get c k)) = lru_get k (recency c) \<and>
    cache_inv (snd (cache_Get c k)) \<and> capacity (snd (cache_Get c k)) = capacity c"
  proof (cases "map_of (items c) k")
    case None
    then show ?thesis using assms by (simp add: cache_Get_def map_of_recency lru_get_def)
  next
    case (Some a)
    then obtain item where it: "(a, item) \<in> set (order c)" "ci_key item = k"
      using cache_items_iff [OF assms] by blast
    then have "map_of (order c) a = Some item" using assms by (simp add: cache_inv_def)
    then show ?thesis
      using Some it recency_MoveToFront [OF assms it(1)] assms
      by (simp add: cache_Get_def map_of_recency lru_get_def Let_def)
  qed
  then show "fst (cache_Get c k) = map_of (recency c) k" "recency (snd (cache_Get c k)) = lru_get k (recency c)"
    "cache_inv (snd (cache_Get c k))" "capacity (snd (cache_Get c k)) = capacity c" by auto
qed

lemma evictOldest_spec:
  assumes "cache_inv c"
  shows "cache_inv (evictOldest c)" "recency (evictOldest c) = butlast (recency c)"
    "capacity (evictOldest c) = capacity c" "order (evictOldest c) = butlast (order c)"
proof -
  have "cache_inv (evictOldest c) \<and> recency (evictOldest c) = butlast (recency c) \<and>
    capacity (evictOldest c) = capacity c \<and> order (evictOldest c) = butlast (order c)"
  proof (cases "order c = []")
    case True
    then show ?thesis using assms by (simp add: evictOldest_def recency_def)
  next
    case False
    then obtain xs a item where o: "order c = xs @ [(a, item)]"
      by (metis append_butlast_last_id surj_pair)
    have "list_Remove a (order c) = xs"
      using assms by (auto simp: cache_inv_def o list_Remove_def intro!: filter_True)
    moreover have "evictOldest c = c\<lparr>order := list_Remove a (order c), items := AList.delete (ci_key item) (items c)\<rparr>"
      unfolding evictOldest_def Let_def by (simp add: o)
    ultimately show ?thesis
      using cache_inv_drop [OF assms, of a item] by (simp add: recency_def o)
  qed
  then show "cache_inv (evictOldest c)" "recency (evictOldest c) = butlast (recency c)"
    "capacity (evictOldest c) = capacity c" "order (evictOldest c) = butlast (order c)" by auto
qed

lemma evict_until_spec:
  "cache_inv c \<Longrightarrow> cache_inv (evict_until c) \<and> capacity (evict_until c) = capacity c \<and>
     recency (evict_until c) = take (nat (capacity c) - 1) (recency c)"
proof (induction c rule: evict_until.induct)
  case (1 c)
  have len: "length (recency c) = length (order c)" by (simp add: recency_def)
  show ?case
  proof (cases "int (length (order c)) \<ge> capacity c \<and> length (order c) > 0")
    case True
    then have "recency (evict_until c) = take (nat (capacity c) - 1) (butlast (recency c))"
      using 1 evictOldest_spec [OF "1.prems"] by (simp add: evict_until.simps [of c])
    also have "\<dots> = take (nat (capacity c) - 1) (recency c)"
      using True len by (simp add: butlast_conv_take) (auto intro!: arg_cong2 [where f = take] simp: min_def)
    finally show ?thesis
      using 1 True evictOldest_spec [OF "1.prems"] by (simp add: evict_until.simps [of c])
  next
    case False
    then show ?thesis using "1.prems" len by (auto simp: evict_until.simps [of c] recency_def)
  qed
qed

lemma recency_update:
  assumes "cache_inv c" "order c = (a, item) # xs"
  shows "recency (c\<lparr>order := map (\<lambda>(b, i). if b = a then (b, i\<lparr>ci_value := v\<rparr>) else (b, i)) (order c)\<rparr>)
      = (ci_key item, v) # tl (recency c)"
    and "cache_inv (c\<lparr>order := map (\<lambda>(b, i). if b = a then (b, i\<lparr>ci_value := v\<rparr>) else (b, i)) (order c)\<rparr>)"
proof -
  have "a \<notin> fst ` set xs" using assms by (auto simp: cache_inv_def)
  then have "map (\<lambda>(b, i). if b = a then (b, i\<lparr>ci_value := v\<rparr>) else (b, i)) xs = xs"
    by (intro map_idI) force
  then have m: "map (\<lambda>(b, i). if b = a then (b, i\<lparr>ci_value := v\<rparr>) else (b, i)) (order c)
      = (a, item\<lparr>ci_value := v\<rparr>) # xs" using assms(2) by simp
  show "recency (c\<lparr>order := map (\<lambda>(b, i). if b = a then (b, i\<lparr>ci_value := v\<rparr>) else (b, i)) (order c)\<rparr>)
      = (ci_key item, v) # tl (recency c)"
    unfolding m by (simp add: recency_def assms(2))
  show "cache_inv (c\<lparr>order := map (\<lambda>(b, i). if b = a then (b, i\<lparr>ci_value := v\<rparr>) else (b, i)) (order c)\<rparr>)"
    unfolding m using assms by (simp add: cache_inv_def cache_Keys_def)
qed

lemma cache_Put_spec:
  assumes "cache_inv c"
  shows "cache_inv (cache_Put c k v)" "capacity (cache_Put c k v) = capacity c"
    "recency (cache_Put c k v) = lru_put (nat (capacity c)) k v (recency c)"
proof -
  have "cache_inv (cache_Put c k v) \<and> capacity (cache_Put c k v) = capacity c \<and>
    recency (cache_Put c k v) = lru_put (nat (capacity c)) k v (recency c)"
  proof (cases "map_of (items c) k")
    case None
    have e: "cache_inv (evict_until c)" "capacity (evict_until c) = capacity c"
      "recency (evict_until c) = take (nat (capacity c) - 1) (recency c)"
      using evict_until_spec [OF assms] by auto
    have none: "map_of (recency c) k = None" using None by (simp add: map_of_recency [OF assms])
    then have "k \<notin> set (cache_Keys c)" by (simp add: map_of_eq_None_iff flip: fst_recency)
    then have "k \<notin> set (cache_Keys (evict_until c))"
      unfolding fst_recency [symmetric] e(3) by (auto dest: in_set_takeD)
    then have "cache_inv (cache_Put c k v)"
      using cache_inv_push [OF e(1), of "\<lparr>ci_key = k, ci_value = v\<rparr>" "next_elem (evict_until c)"]
        cache_addr_fresh [OF e(1)] None
      by (simp add: cache_Put_def Let_def max_def)
    then show ?thesis
      using None none e by (simp add: cache_Put_def Let_def lru_put_def) (simp add: recency_def)
  next
    case (Some a)
    then obtain item where it: "(a, item) \<in> set (order c)" "ci_key item = k"
      using cache_items_iff [OF assms] by blast
    have ord: "map_of (order c) a = Some item" using it assms by (simp add: cache_inv_def)
    then have "map_of (recency c) k = Some (ci_value item)"
      using Some by (simp add: map_of_recency [OF assms])
    moreover have "list_MoveToFront a (order c) = (a, item) # filter (\<lambda>p. fst p \<noteq> a) (order c)"
      using ord by (simp add: list_MoveToFront_def)
    ultimately show ?thesis
      using recency_MoveToFront [OF assms it(1)] it(2) Some
        recency_update [of "c\<lparr>order := list_MoveToFront a (order c)\<rparr>" a item "filter (\<lambda>p. fst p \<noteq> a) (order c)" v]
      by (simp add: cache_Put_def Let_def lru_put_def)
  qed
  then show "cache_inv (cache_Put c k v)" "capacity (cache_Put c k v) = capacity c"
    "recency (cache_Put c k v) = lru_put (nat (capacity c)) k v (recency c)" by auto
qed

lemma lru_drop_absent: "map_of xs k = None \<Longrightarrow> lru_drop k xs = xs"
  by (auto simp: lru_drop_def map_of_eq_None_iff intro!: filter_True)

lemma cache_Remove_spec:
  assumes "cache_inv c"
  shows "cache_inv (cache_Remove c k)" "capacity (cache_Remove c k) = capacity c"
    "recency (cache_Remove c k) = lru_drop k (recency c)"
proof -
  have "cache_inv (cache_Remove c k) \<and> capacity (cache_Remove c k) = capacity c \<and>
    recency (cache_Remove c k) = lru_drop k (recency c)"
  proof (cases "map_of (items c) k")
    case None
    then show ?thesis
      using assms lru_drop_absent [of "recency c" k] by (simp add: cache_Remove_def map_of_recency)
  next
    case (Some a)
    then obtain item where "(a, item) \<in> set (order c)" "ci_key item = k"
      using cache_items_iff [OF assms] by blast
    then show ?thesis
      using Some cache_inv_drop [OF assms] recency_drop [OF assms] by (auto simp: cache_Remove_def)
  qed
  then show "cache_inv (cache_Remove c k)" "capacity (cache_Remove c k) = capacity c"
    "recency (cache_Remove c k) = lru_drop k (recency c)" by auto
qed

lemma cache_Clear_spec:
  "cache_inv (cache_Clear c)" "recency (cache_Clear c) = []" "capacity (cache_Clear c) = capacity c"
  by (simp_all add: cache_Clear_def cache_inv_def recency_def cache_Keys_def)

lemma newLRUCache_spec: "cache_inv (newLRUCache cap)" "recency (newLRUCache cap) = []"
  by (simp_all add: newLRUCache_def cache_inv_def recency_def cache_Keys_def)

lemma shrink_nonneg:
  "cache_inv c \<Longrightarrow> 0 \<le> capacity c \<Longrightarrow>
     \<exists>c'. shrink c = Some c' \<and> cache_inv c' \<and> capacity c' = capacity c \<and>
       recency c' = take (nat (capacity c)) (recency c)"
proof (induction "length (order c)" arbitrary: c rule: less_induct)
  case less
  have len: "length (recency c) = length (order c)" by (simp add: recency_def)
  show ?case
  proof (cases "int (length (order c)) > capacity c")
    case True
    then have ne: "order c \<noteq> []" using less.prems(2) by auto
    have "\<exists>c'. shrink (evictOldest c) = Some c' \<and> cache_inv c' \<and> capacity c' = capacity c \<and>
        recency c' = take (nat (capacity c)) (butlast (recency c))"
      using less.hyps [OF length_evictOldest [OF ne]] evictOldest_spec [OF less.prems(1)] less.prems(2) by simp
    moreover have "take (nat (capacity c)) (butlast (recency c)) = take (nat (capacity c)) (recency c)"
      using True len by (simp add: butlast_conv_take)
    ultimately show ?thesis using True by (simp add: shrink.simps [of c])
  next
    case False
    then show ?thesis using less.prems len by (simp add: shrink.simps [of c])
  qed
qed

lemma shrink_Some_nonneg: "shrink c = Some c' \<Longrightarrow> cache_inv c \<longrightarrow> 0 \<le> capacity c"
proof (erule shrink.raw_induct [rotated])
  fix f c c'
  assume IH: "\<And>c c'. f c = Some c' \<Longrightarrow> cache_inv c \<longrightarrow> 0 \<le> capacity c"
    and f: "(if int (length (order c)) > capacity c then f (evictOldest c) else Some c) = Some c'"
  show "cache_inv c \<longrightarrow> 0 \<le> capacity c"
    using IH [of "evictOldest c" c'] evictOldest_spec [of c] f by (auto split: if_splits)
qed

section \<open>The interface the store relies on\<close>

text \<open>
  What the store needs of a cache of values: a lookup tells the truth about
  the view, filling in a value changes the view at most by adding it, removal
  removes it. The eviction policy is not part of the contract. A cache whose
  view is below a map is coherent with that map.
\<close>

locale value_cache =
  fixes view :: "'c \<Rightarrow> string \<Rightarrow> bytes option"
    and inv :: "'c \<Rightarrow> bool"
    and lookup :: "'c \<Rightarrow> string \<Rightarrow> bytes option \<times> 'c"
    and fill :: "'c \<Rightarrow> string \<Rightarrow> bytes \<Rightarrow> 'c"
    and remove :: "'c \<Rightarrow> string \<Rightarrow> 'c"
    and clear :: "'c \<Rightarrow> 'c"
  assumes lookup_value: "inv c \<Longrightarrow> fst (lookup c k) = view c k"
    and lookup_view: "inv c \<Longrightarrow> view (snd (lookup c k)) = view c"
    and lookup_inv: "inv c \<Longrightarrow> inv (snd (lookup c k))"
    and fill_view: "inv c \<Longrightarrow> view (fill c k v) \<subseteq>\<^sub>m (view c)(k \<mapsto> v)"
    and fill_inv: "inv c \<Longrightarrow> inv (fill c k v)"
    and remove_view: "inv c \<Longrightarrow> view (remove c k) = (view c)(k := None)"
    and remove_inv: "inv c \<Longrightarrow> inv (remove c k)"
    and clear_view: "view (clear c) = Map.empty"
    and clear_inv: "inv (clear c)"
begin

lemma coherent_lookup:
  assumes "inv c" "view c \<subseteq>\<^sub>m m" "lookup c k = (r, c')"
  shows "view c' \<subseteq>\<^sub>m m \<and> inv c' \<and> (case r of Some v \<Rightarrow> m k = Some v | None \<Rightarrow> view c k = None)"
proof -
  have "r = view c k" "view c' = view c" "inv c'"
    using lookup_value [OF assms(1), of k] lookup_view [OF assms(1), of k] lookup_inv [OF assms(1), of k] assms(3)
    by simp_all
  then show ?thesis using assms(2) by (auto simp: map_le_def dom_def split: option.splits)
qed

lemma coherent_fill:
  assumes "inv c" "view c \<subseteq>\<^sub>m m" "m k = Some v"
  shows "view (fill c k v) \<subseteq>\<^sub>m m"
proof -
  have "(view c)(k \<mapsto> v) \<subseteq>\<^sub>m m" using assms(2,3) by (auto simp: map_le_def)
  then show ?thesis using fill_view [OF assms(1)] map_le_trans by blast
qed

lemma coherent_write:
  assumes "inv c" "view c \<subseteq>\<^sub>m m"
  shows "view (remove c k) \<subseteq>\<^sub>m m(k := x)"
  using assms by (auto simp: remove_view map_le_def)

end

lemma map_of_lru_drop: "map_of (lru_drop k xs) = (map_of xs)(k := None)"
  by (induction xs) (auto simp: lru_drop_def)

lemma map_of_lru_get: "map_of (lru_get k xs) = map_of xs"
  by (auto simp: lru_get_def map_of_lru_drop fun_eq_iff split: option.splits)

lemma map_of_take_le: "map_of (take n xs) \<subseteq>\<^sub>m map_of xs"
proof (induction xs arbitrary: n)
  case (Cons p xs)
  then show ?case by (cases n; cases p) (auto simp: map_le_def dom_def)
qed simp

lemma map_of_lru_put: "map_of (lru_put n k v xs) \<subseteq>\<^sub>m (map_of xs)(k \<mapsto> v)"
  using map_of_take_le [of "n - 1" xs]
  by (auto simp: lru_put_def map_of_lru_drop map_le_def)

interpretation lru: value_cache "\<lambda>c. map_of (recency c)" cache_inv cache_Get cache_Put cache_Remove cache_Clear
  by unfold_locales
    (simp_all add: cache_Get_spec cache_Put_spec cache_Remove_spec cache_Clear_spec map_of_lru_get
      map_of_lru_drop map_of_lru_put)

section \<open>Properties\<close>

text \<open>Any sequence of calls, as the mutex of the cache serialises them.\<close>

datatype cache_op = OpGet string | OpPut string bytes | OpRemove string | OpClear | OpSetCapacity nat

fun cache_step :: "cache_op \<Rightarrow> lruCache \<Rightarrow> lruCache" where
  "cache_step (OpGet k) c = snd (cache_Get c k)"
| "cache_step (OpPut k v) c = cache_Put c k v"
| "cache_step (OpRemove k) c = cache_Remove c k"
| "cache_step OpClear c = cache_Clear c"
| "cache_step (OpSetCapacity n) c = (case SetCapacity c (int n) of Some c' \<Rightarrow> c' | None \<Rightarrow> c)"

lemma length_lru_drop: "length (lru_drop k xs) \<le> length xs"
  by (simp add: lru_drop_def)

lemma length_lru_drop_present: "map_of xs k \<noteq> None \<Longrightarrow> length (lru_drop k xs) < length xs"
  by (auto simp: lru_drop_def intro!: length_filter_less dest!: map_of_SomeD)

lemma length_lru_put: "0 < n \<Longrightarrow> length xs \<le> n \<Longrightarrow> length (lru_put n k v xs) \<le> n"
  using length_lru_drop_present [of xs k] by (auto simp: lru_put_def)

lemma length_lru_get: "length (lru_get k xs) \<le> length xs"
  using length_lru_drop_present [of xs k] by (auto simp: lru_get_def split: option.splits)

lemma SetCapacity_spec:
  assumes "cache_inv c"
  shows "\<exists>c'. SetCapacity c (int n) = Some c' \<and> cache_inv c' \<and> capacity c' = int n \<and>
    recency c' = take n (recency c)"
proof -
  have "cache_inv (c\<lparr>capacity := int n\<rparr>)" "recency (c\<lparr>capacity := int n\<rparr>) = recency c"
    using assms by (simp_all add: cache_inv_def cache_Keys_def recency_def)
  then show ?thesis using shrink_nonneg [of "c\<lparr>capacity := int n\<rparr>"] by (simp add: SetCapacity_def)
qed

definition cache_bounded :: "lruCache \<Rightarrow> bool" where
  "cache_bounded c \<longleftrightarrow> cache_inv c \<and> int (cache_Len c) \<le> max 1 (capacity c)"

lemma cache_Len_recency: "cache_Len c = length (recency c)"
  by (simp add: cache_Len_def recency_def)

lemma cache_step_bounded: "cache_bounded c \<Longrightarrow> cache_bounded (cache_step op c)"
proof (cases op)
  case (OpGet k)
  then show "cache_bounded c \<Longrightarrow> ?thesis"
    using length_lru_get [of k "recency c"] by (simp add: cache_bounded_def cache_Get_spec cache_Len_recency)
next
  case (OpPut k v)
  assume b: "cache_bounded c"
  then have "length (recency c) \<le> max 1 (nat (capacity c))"
    by (simp add: cache_bounded_def cache_Len_recency) linarith
  then have "length (lru_put (nat (capacity c)) k v (recency c)) \<le> max 1 (nat (capacity c))"
    using length_lru_drop_present [of "recency c" k] by (auto simp: lru_put_def simp del: length_0_conv)
  then show ?thesis using OpPut b by (simp add: cache_bounded_def cache_Put_spec cache_Len_recency)
next
  case (OpRemove k)
  then show "cache_bounded c \<Longrightarrow> ?thesis"
    using length_lru_drop [of k "recency c"] by (simp add: cache_bounded_def cache_Remove_spec cache_Len_recency)
next
  case (OpSetCapacity n)
  then show "cache_bounded c \<Longrightarrow> ?thesis"
    using SetCapacity_spec [of c n] by (auto simp: cache_bounded_def cache_Len_recency)
qed (simp add: cache_bounded_def cache_Clear_spec cache_Len_recency)

text \<open>
  C32. The cache refines a recency list: with the map and the linked list kept in
  step by the invariant, each operation does to the list of keys and values what
  an LRU policy says: a hit moves to the front, an insertion evicts from the
  back down to the capacity, and the two representations stay in step.
\<close>

theorem lru_refines_recency:
  assumes "cache_inv c"
  shows "fst (cache_Get c k) = map_of (recency c) k \<and>
    recency (snd (cache_Get c k)) = lru_get k (recency c) \<and> cache_inv (snd (cache_Get c k)) \<and>
    recency (cache_Put c k v) = lru_put (nat (capacity c)) k v (recency c) \<and> cache_inv (cache_Put c k v) \<and>
    recency (cache_Remove c k) = lru_drop k (recency c) \<and> cache_inv (cache_Remove c k) \<and>
    recency (cache_Clear c) = [] \<and> cache_inv (cache_Clear c) \<and>
    cache_Keys c = map fst (recency c)"
  using assms by (simp add: cache_Get_spec cache_Put_spec cache_Remove_spec cache_Clear_spec fst_recency)

lemma sample_cache:
  "cache_Put (cache_Put (newLRUCache 2) ''a'' [1]) ''b'' [2] =
     \<lparr>capacity = 2, items = [(''a'', 0), (''b'', 1)],
      order = [(1, \<lparr>ci_key = ''b'', ci_value = [2]\<rparr>), (0, \<lparr>ci_key = ''a'', ci_value = [1]\<rparr>)], next_elem = 2\<rparr>"
  by (simp add: cache_Put_def newLRUCache_def evict_until.simps)

theorem lru_refines_recency_witness:
  "recency (cache_Put (cache_Put (cache_Put (newLRUCache 2) ''a'' [1]) ''b'' [2]) ''c'' [3])
     = [(''c'', [3]), (''b'', [2])]"
proof -
  have "cache_inv (cache_Put (cache_Put (newLRUCache 2) ''a'' [1]) ''b'' [2])"
    by (auto simp: sample_cache cache_inv_def cache_Keys_def)
  from lru_refines_recency [OF this, of "''c''" "[3]"] show ?thesis
    by (simp add: sample_cache recency_def lru_put_def)
qed

text \<open>
  C33. However the calls are interleaved, a cache never holds more entries than
  its capacity (one entry when the capacity is below one), and its
  representation invariant holds.
\<close>

theorem cache_never_over_capacity:
  "cache_inv (foldl (\<lambda>c op. cache_step op c) (newLRUCache cap) ops) \<and>
   int (cache_Len (foldl (\<lambda>c op. cache_step op c) (newLRUCache cap) ops))
     \<le> max 1 (capacity (foldl (\<lambda>c op. cache_step op c) (newLRUCache cap) ops))"
proof -
  have "cache_bounded c \<Longrightarrow> cache_bounded (foldl (\<lambda>c op. cache_step op c) c ops)" for c
    by (induction ops arbitrary: c) (simp_all add: cache_step_bounded)
  moreover have "cache_bounded (newLRUCache cap)"
    by (simp add: cache_bounded_def newLRUCache_spec cache_Len_recency)
  ultimately show ?thesis by (simp add: cache_bounded_def)
qed

text \<open>
  C34. \<^verbatim>\<open>SetCapacity\<close> returns exactly when the new capacity is not negative, and
  then keeps the most recently used entries; with a negative capacity its loop
  runs for ever, holding the lock of the cache.
\<close>

theorem SetCapacity_returns_iff:
  assumes "cache_inv c"
  shows "((\<exists>c'. SetCapacity c n = Some c') \<longleftrightarrow> 0 \<le> n) \<and>
    (\<forall>c'. SetCapacity c n = Some c' \<longrightarrow> recency c' = take (nat n) (recency c) \<and> cache_inv c')"
proof -
  have inv: "cache_inv (c\<lparr>capacity := n\<rparr>)" using assms by (simp add: cache_inv_def cache_Keys_def)
  have "0 \<le> n" if "SetCapacity c n = Some c'" for c'
    using shrink_Some_nonneg [of "c\<lparr>capacity := n\<rparr>" c'] inv that by (simp add: SetCapacity_def)
  then show ?thesis using SetCapacity_spec [OF assms, of "nat n"] by (cases "0 \<le> n"; fastforce)
qed

theorem SetCapacity_returns_iff_witness:
  "SetCapacity (newLRUCache 3) (- 1) = None \<and> (\<exists>c'. SetCapacity (newLRUCache 3) 1 = Some c')"
  using SetCapacity_returns_iff [OF newLRUCache_spec(1), of 3 "- 1"]
    SetCapacity_returns_iff [OF newLRUCache_spec(1), of 3 1] by auto

end
