(* ===== verification/Index.thy ===== *)
theory Index
  imports Prelude "HOL-Library.Multiset"
begin

text \<open>
  The in-memory index of \<^verbatim>\<open>index.go\<close>: the primary map from keys to record
  locations, the secondary maps from an indexed attribute and its value to a
  set of keys, and the cached list of keys in the order of their records.
  Sets (\<^verbatim>\<open>map[string]struct{}\<close>) are lists without duplicates. The store's mutex
  serialises the operations.
\<close>

record indexEntry =
  ie_Offset :: nat
  ie_Size :: "32 word"
  ie_RecordOffset :: nat
  ie_StoredSize :: nat
  ie_Attributes :: attributes

record Metadata =
  md_Attributes :: attributes

record index =
  entries :: "(string \<times> indexEntry) list"
  indexedFields :: "string list"
  byAttribute :: "(string \<times> (string \<times> string list) list) list"
  sortedKeys :: "string list"
  sortedDirty :: bool

definition Attribute :: "Metadata \<Rightarrow> string \<Rightarrow> string" where
  "Attribute m name = attr_get (md_Attributes m) name"

section \<open>Operations\<close>

definition set_add :: "string \<Rightarrow> string list \<Rightarrow> string list" where
  "set_add k ks = (if k \<in> set ks then ks else ks @ [k])"

definition cloneAttributes :: "attributes \<Rightarrow> attributes" where
  "cloneAttributes attrs =
     (if length attrs = 0 then [] else foldl (\<lambda>c (key, value). AList.update key value c) [] attrs)"

fun newIndex_fields :: "string list \<Rightarrow> string list \<Rightarrow> (string \<times> (string \<times> string list) list) list
    \<Rightarrow> string list \<times> (string \<times> (string \<times> string list) list) list" where
  "newIndex_fields [] flds secondary = (flds, secondary)"
| "newIndex_fields (field # rest) flds secondary =
     (if field = [] then newIndex_fields rest flds secondary
      else newIndex_fields rest (set_add field flds) (AList.update field [] secondary))"

definition newIndex :: "string list \<Rightarrow> index" where
  "newIndex flds =
     (let (flds, secondary) = newIndex_fields flds [] [] in
      \<lparr>entries = [], indexedFields = flds, byAttribute = secondary, sortedKeys = [], sortedDirty = False\<rparr>)"

text \<open>
  A lookup \<^verbatim>\<open>m[k]\<close> on a map of maps or sets: nil, here empty, when absent. In
  \<open>addToSecondary\<close> a nil \<^verbatim>\<open>idx.byAttribute[field]\<close> would make the assignment
  panic; the invariant below shows that every indexed field is present.
\<close>

definition lookup_or_nil :: "('k \<times> 'v list) list \<Rightarrow> 'k \<Rightarrow> 'v list" where
  "lookup_or_nil m k = (case map_of m k of None \<Rightarrow> [] | Some v \<Rightarrow> v)"

definition addToSecondary_field :: "string \<Rightarrow> indexEntry \<Rightarrow> string \<Rightarrow> index \<Rightarrow> index" where
  "addToSecondary_field key entry field idx = (case map_of (ie_Attributes entry) field of
       None \<Rightarrow> idx
     | Some value \<Rightarrow>
         let values = lookup_or_nil (byAttribute idx) field;
             values = AList.update value (set_add key (lookup_or_nil values value)) values in
         idx\<lparr>byAttribute := AList.update field values (byAttribute idx)\<rparr>)"

definition addToSecondary :: "string \<Rightarrow> indexEntry \<Rightarrow> index \<Rightarrow> index" where
  "addToSecondary key entry idx = fold (addToSecondary_field key entry) (indexedFields idx) idx"

definition removeFromSecondary_field :: "string \<Rightarrow> indexEntry \<Rightarrow> string \<Rightarrow> index \<Rightarrow> index" where
  "removeFromSecondary_field key entry field idx = (case map_of (ie_Attributes entry) field of
       None \<Rightarrow> idx
     | Some value \<Rightarrow>
         let values = lookup_or_nil (byAttribute idx) field;
             keySet = removeAll key (lookup_or_nil values value);
             values = (if length keySet = 0 then AList.delete value values
                       else AList.update value keySet values) in
         idx\<lparr>byAttribute := AList.update field values (byAttribute idx)\<rparr>)"

definition removeFromSecondary :: "string \<Rightarrow> indexEntry \<Rightarrow> index \<Rightarrow> index" where
  "removeFromSecondary key entry idx = fold (removeFromSecondary_field key entry) (indexedFields idx) idx"

definition index_Put :: "string \<Rightarrow> indexEntry \<Rightarrow> index \<Rightarrow> index" where
  "index_Put key entry idx =
     (let idx = (case map_of (entries idx) key of
            Some existing \<Rightarrow> removeFromSecondary key existing idx
          | None \<Rightarrow> idx);
          entry = entry\<lparr>ie_Attributes := cloneAttributes (ie_Attributes entry)\<rparr>;
          idx = idx\<lparr>entries := AList.update key entry (entries idx)\<rparr>;
          idx = addToSecondary key entry idx in
      idx\<lparr>sortedDirty := True\<rparr>)"

definition index_Get :: "index \<Rightarrow> string \<Rightarrow> indexEntry option" where
  "index_Get idx key = map_of (entries idx) key"

definition index_Delete :: "string \<Rightarrow> index \<Rightarrow> index" where
  "index_Delete key idx = (case map_of (entries idx) key of
       Some entry \<Rightarrow>
         let idx = removeFromSecondary key entry idx in
         idx\<lparr>sortedDirty := True, entries := AList.delete key (entries idx)\<rparr>
     | None \<Rightarrow> idx)"

definition index_Len :: "index \<Rightarrow> nat" where
  "index_Len idx = length (entries idx)"

definition index_Keys :: "index \<Rightarrow> string list" where
  "index_Keys idx = map fst (entries idx)"

definition KeysSortedByOffset :: "index \<Rightarrow> string list \<times> index" where
  "KeysSortedByOffset idx =
     (if \<not> sortedDirty idx \<and> length (sortedKeys idx) = length (entries idx)
      then (sortedKeys idx, idx)
      else
        let pairs = map (\<lambda>(key, entry). (key, ie_RecordOffset entry)) (entries idx);
            pairs = sort_key snd pairs;
            idx = idx\<lparr>sortedKeys := map fst pairs, sortedDirty := False\<rparr> in
        (sortedKeys idx, idx))"

text \<open>
  A loop over a slice that stops at the first error of its callback; the
  callback's own effects are a state of any type.
\<close>

fun for_each :: "('a \<Rightarrow> 's \<Rightarrow> error option \<times> 's) \<Rightarrow> 'a list \<Rightarrow> 's \<Rightarrow> error option \<times> 's" where
  "for_each fn [] s = (None, s)"
| "for_each fn (x # xs) s = (case fn x s of
       (Some err, s) \<Rightarrow> (Some err, s)
     | (None, s) \<Rightarrow> for_each fn xs s)"

definition index_ForEach :: "(string \<Rightarrow> indexEntry \<Rightarrow> 's \<Rightarrow> error option \<times> 's) \<Rightarrow> index \<Rightarrow> 's \<Rightarrow> error option \<times> 's" where
  "index_ForEach fn idx s =
     (let pairs = map (\<lambda>(key, entry). (key, entry\<lparr>ie_Attributes := cloneAttributes (ie_Attributes entry)\<rparr>))
                    (entries idx) in
      for_each (\<lambda>(key, entry). fn key entry) pairs s)"

definition index_KeysBy :: "index \<Rightarrow> string \<Rightarrow> string \<Rightarrow> string list" where
  "index_KeysBy idx field value = (case map_of (byAttribute idx) field of
       None \<Rightarrow> []
     | Some values \<Rightarrow> lookup_or_nil values value)"

definition index_AttributeValues :: "index \<Rightarrow> string \<Rightarrow> string list" where
  "index_AttributeValues idx field = sort (map fst (lookup_or_nil (byAttribute idx) field))"

definition index_TotalSize :: "index \<Rightarrow> nat" where
  "index_TotalSize idx = foldl (\<lambda>tot (key, entry). tot + ie_StoredSize entry) 0 (entries idx)"

definition index_MemoryUsage :: "index \<Rightarrow> nat" where
  "index_MemoryUsage idx =
     (let tot = foldl (\<lambda>tot (key, entry).
            foldl (\<lambda>tot (name, value). tot + (length name + length value + 32)) (tot + (length key + 96))
              (ie_Attributes entry)) 0 (entries idx) in
      foldl (\<lambda>tot (field, values).
        foldl (\<lambda>tot (value, keys). tot + (length value + length keys * 50)) tot values) tot (byAttribute idx))"

section \<open>The secondary indexes\<close>

lemma set_add_simps [simp]:
  "set (set_add k ks) = insert k (set ks)" "distinct (set_add k ks) \<longleftrightarrow> distinct ks" "set_add k ks \<noteq> []"
  by (auto simp: set_add_def)

lemma cloneAttributes_id: "go_map m \<Longrightarrow> cloneAttributes m = m"
proof -
  have "go_map (c @ m) \<Longrightarrow> foldl (\<lambda>c (key, value). AList.update key value c) c m = c @ m" for c
  proof (induction m arbitrary: c)
    case (Cons kv m)
    then show ?case using Cons.IH [of "c @ [kv]"] by (cases kv) (auto simp: update_fresh)
  qed simp
  from this [of "[]"] show "go_map m \<Longrightarrow> cloneAttributes m = m" by (simp add: cloneAttributes_def)
qed

definition keys_with :: "index \<Rightarrow> string \<Rightarrow> string \<Rightarrow> string set" where
  "keys_with idx field value = set (lookup_or_nil (lookup_or_nil (byAttribute idx) field) value)"

definition values_wf :: "(string \<times> string list) list \<Rightarrow> bool" where
  "values_wf values \<longleftrightarrow> go_map values \<and> (\<forall>(v, ks) \<in> set values. ks \<noteq> [] \<and> distinct ks)"

definition secondary_wf :: "index \<Rightarrow> bool" where
  "secondary_wf idx \<longleftrightarrow> go_map (byAttribute idx) \<and> distinct (indexedFields idx) \<and>
     fst ` set (byAttribute idx) = set (indexedFields idx) \<and>
     (\<forall>(f, values) \<in> set (byAttribute idx). values_wf values)"

lemma lookup_or_nil_update:
  "lookup_or_nil (AList.update k v m) k' = (if k' = k then v else lookup_or_nil m k')"
  by (simp add: lookup_or_nil_def update_conv')

lemma lookup_or_nil_delete:
  "lookup_or_nil (AList.delete k m) k' = (if k' = k then [] else lookup_or_nil m k')"
  by (simp add: lookup_or_nil_def delete_conv')

lemma lookup_or_nil_wf: "secondary_wf idx \<Longrightarrow> values_wf (lookup_or_nil (byAttribute idx) f)"
  by (auto simp: lookup_or_nil_def secondary_wf_def values_wf_def split: option.splits dest!: map_of_SomeD)

lemma distinct_lookup: "values_wf values \<Longrightarrow> distinct (lookup_or_nil values v)"
  by (auto simp: lookup_or_nil_def values_wf_def split: option.splits dest!: map_of_SomeD)

lemma set_update_subset: "set (AList.update k v m) \<subseteq> insert (k, v) (set m)"
  by (induction m) auto

lemma values_wf_update:
  assumes "values_wf values" "ks \<noteq> []" "distinct ks"
  shows "values_wf (AList.update v ks values)"
  using assms set_update_subset [of v ks "values"] by (fastforce simp: values_wf_def)

lemma values_wf_delete: "values_wf values \<Longrightarrow> values_wf (AList.delete v values)"
  by (auto simp: values_wf_def AList.delete_eq distinct_map_filter)

lemma secondary_wf_update:
  assumes "secondary_wf idx" "field \<in> set (indexedFields idx)" "values_wf values"
  shows "secondary_wf (idx\<lparr>byAttribute := AList.update field values (byAttribute idx)\<rparr>)"
  using assms set_update_subset [of field "values" "byAttribute idx"]
  by (fastforce simp: secondary_wf_def dom_update)

lemma addToSecondary_field_spec:
  assumes "secondary_wf idx" "field \<in> set (indexedFields idx)"
  shows "secondary_wf (addToSecondary_field key entry field idx)"
    "keys_with (addToSecondary_field key entry field idx) f v =
       keys_with idx f v \<union> (if f = field \<and> map_of (ie_Attributes entry) f = Some v then {key} else {})"
proof -
  have wf: "values_wf (lookup_or_nil (byAttribute idx) field)" by (rule lookup_or_nil_wf [OF assms(1)])
  then have "values_wf (AList.update w (set_add key (lookup_or_nil (lookup_or_nil (byAttribute idx) field) w))
      (lookup_or_nil (byAttribute idx) field))" for w
    using distinct_lookup [OF wf] by (intro values_wf_update) auto
  then show "secondary_wf (addToSecondary_field key entry field idx)"
    using assms by (auto simp: addToSecondary_field_def Let_def intro: secondary_wf_update split: option.splits)
  show "keys_with (addToSecondary_field key entry field idx) f v =
       keys_with idx f v \<union> (if f = field \<and> map_of (ie_Attributes entry) f = Some v then {key} else {})"
    by (auto simp: addToSecondary_field_def keys_with_def Let_def lookup_or_nil_update split: option.splits)
qed

lemma removeFromSecondary_field_spec:
  assumes "secondary_wf idx" "field \<in> set (indexedFields idx)"
  shows "secondary_wf (removeFromSecondary_field key entry field idx)"
    "keys_with (removeFromSecondary_field key entry field idx) f v =
       keys_with idx f v - (if f = field \<and> map_of (ie_Attributes entry) f = Some v then {key} else {})"
proof -
  have wf: "values_wf (lookup_or_nil (byAttribute idx) field)" by (rule lookup_or_nil_wf [OF assms(1)])
  then show "secondary_wf (removeFromSecondary_field key entry field idx)"
    using assms distinct_lookup [OF wf]
    by (auto simp: removeFromSecondary_field_def Let_def distinct_removeAll
        intro!: secondary_wf_update values_wf_update [OF wf] values_wf_delete [OF wf] split: option.splits)
  have empty: "x = key" if "removeAll key ks = []" "x \<in> set ks" for x ks
    using that by (metis empty_iff list.set(1) removeAll_id set_removeAll insertE insert_Diff_single insert_iff)
  show "keys_with (removeFromSecondary_field key entry field idx) f v =
       keys_with idx f v - (if f = field \<and> map_of (ie_Attributes entry) f = Some v then {key} else {})"
    by (auto simp: removeFromSecondary_field_def keys_with_def Let_def lookup_or_nil_update
        lookup_or_nil_delete dest: empty split: option.splits if_splits)
qed

lemma addToSecondary_fold:
  assumes "secondary_wf idx" "set fs \<subseteq> set (indexedFields idx)"
  shows "secondary_wf (fold (addToSecondary_field key entry) fs idx)"
    "keys_with (fold (addToSecondary_field key entry) fs idx) f v =
       keys_with idx f v \<union> (if f \<in> set fs \<and> map_of (ie_Attributes entry) f = Some v then {key} else {})"
proof -
  have same: "indexedFields (addToSecondary_field key entry g i) = indexedFields i" for g i
    by (simp add: addToSecondary_field_def Let_def split: option.splits)
  have "secondary_wf (fold (addToSecondary_field key entry) fs idx) \<and>
    keys_with (fold (addToSecondary_field key entry) fs idx) f v =
       keys_with idx f v \<union> (if f \<in> set fs \<and> map_of (ie_Attributes entry) f = Some v then {key} else {})"
    using assms
  proof (induction fs arbitrary: idx)
    case (Cons g fs)
    then show ?case
      using Cons.IH [of "addToSecondary_field key entry g idx"] addToSecondary_field_spec [of idx g key entry]
      by (auto simp: same)
  qed simp
  then show "secondary_wf (fold (addToSecondary_field key entry) fs idx)"
    "keys_with (fold (addToSecondary_field key entry) fs idx) f v =
       keys_with idx f v \<union> (if f \<in> set fs \<and> map_of (ie_Attributes entry) f = Some v then {key} else {})"
    by auto
qed

lemma removeFromSecondary_fold:
  assumes "secondary_wf idx" "set fs \<subseteq> set (indexedFields idx)"
  shows "secondary_wf (fold (removeFromSecondary_field key entry) fs idx)"
    "keys_with (fold (removeFromSecondary_field key entry) fs idx) f v =
       keys_with idx f v - (if f \<in> set fs \<and> map_of (ie_Attributes entry) f = Some v then {key} else {})"
proof -
  have same: "indexedFields (removeFromSecondary_field key entry g i) = indexedFields i" for g i
    by (simp add: removeFromSecondary_field_def Let_def split: option.splits)
  have "secondary_wf (fold (removeFromSecondary_field key entry) fs idx) \<and>
    keys_with (fold (removeFromSecondary_field key entry) fs idx) f v =
       keys_with idx f v - (if f \<in> set fs \<and> map_of (ie_Attributes entry) f = Some v then {key} else {})"
    using assms
  proof (induction fs arbitrary: idx)
    case (Cons g fs)
    then show ?case
      using Cons.IH [of "removeFromSecondary_field key entry g idx"] removeFromSecondary_field_spec [of idx g key entry]
      by (auto simp: same)
  qed simp
  then show "secondary_wf (fold (removeFromSecondary_field key entry) fs idx)"
    "keys_with (fold (removeFromSecondary_field key entry) fs idx) f v =
       keys_with idx f v - (if f \<in> set fs \<and> map_of (ie_Attributes entry) f = Some v then {key} else {})"
    by auto
qed

text \<open>Both loops touch nothing but the secondary maps.\<close>

definition same_primary :: "index \<Rightarrow> index \<Rightarrow> bool" where
  "same_primary i j \<longleftrightarrow> entries i = entries j \<and> indexedFields i = indexedFields j \<and>
     sortedKeys i = sortedKeys j \<and> sortedDirty i = sortedDirty j"

lemma same_primary_fold:
  assumes "\<And>x i. same_primary (f x i) i"
  shows "same_primary (fold f xs i) i"
proof (induction xs arbitrary: i)
  case (Cons x xs)
  then show ?case using Cons.IH [of "f x i"] assms [of x i] by (simp add: same_primary_def)
qed (simp add: same_primary_def)

lemma addToSecondary_same: "same_primary (addToSecondary key entry idx) idx"
  unfolding addToSecondary_def
  by (rule same_primary_fold) (simp add: same_primary_def addToSecondary_field_def Let_def split: option.splits)

lemma removeFromSecondary_same: "same_primary (removeFromSecondary key entry idx) idx"
  unfolding removeFromSecondary_def
  by (rule same_primary_fold) (simp add: same_primary_def removeFromSecondary_field_def Let_def split: option.splits)

section \<open>The invariant\<close>

definition sorted_cache_ok :: "index \<Rightarrow> bool" where
  "sorted_cache_ok idx \<longleftrightarrow> (\<not> sortedDirty idx \<longrightarrow>
     sortedKeys idx = map fst (sort_key snd (map (\<lambda>(key, entry). (key, ie_RecordOffset entry)) (entries idx))))"

definition index_inv :: "index \<Rightarrow> bool" where
  "index_inv idx \<longleftrightarrow> go_map (entries idx) \<and> (\<forall>(k, e) \<in> set (entries idx). go_map (ie_Attributes e)) \<and>
     secondary_wf idx \<and> sorted_cache_ok idx \<and>
     (\<forall>f \<in> set (indexedFields idx). \<forall>v. keys_with idx f v =
        {k. \<exists>e. index_Get idx k = Some e \<and> map_of (ie_Attributes e) f = Some v})"

lemma index_inv_attrs: "index_inv idx \<Longrightarrow> index_Get idx k = Some e \<Longrightarrow> go_map (ie_Attributes e)"
  by (auto simp: index_inv_def index_Get_def dest!: map_of_SomeD)

lemma newIndex_fields_spec:
  "newIndex_fields fs flds sec = (flds', sec') \<Longrightarrow> go_map sec \<Longrightarrow> distinct flds \<Longrightarrow>
     fst ` set sec = set flds \<Longrightarrow> (\<forall>(f, values) \<in> set sec. values = []) \<Longrightarrow>
     go_map sec' \<and> distinct flds' \<and> fst ` set sec' = set flds' \<and> (\<forall>(f, values) \<in> set sec'. values = []) \<and>
     set flds' = set flds \<union> (set fs - {[]})"
proof (induction fs flds sec rule: newIndex_fields.induct)
  case (2 field rest flds secondary)
  show ?case
  proof (cases "field = []")
    case True
    then show ?thesis using 2 by auto
  next
    case False
    have "\<forall>(f, values) \<in> set (AList.update field [] secondary). values = []"
      using set_update_subset [of field "[]" secondary] "2.prems"(5) by fastforce
    then show ?thesis using 2 False by (auto simp: dom_update)
  qed
qed auto

lemma newIndex_spec:
  "index_inv (newIndex fs)" "index_Get (newIndex fs) = Map.empty" "set (indexedFields (newIndex fs)) = set fs - {[]}"
proof -
  obtain flds sec where ns: "newIndex_fields fs [] [] = (flds, sec)" by fastforce
  note spec = newIndex_fields_spec [OF ns]
  have "keys_with (newIndex fs) f v = {}" for f v
    using spec by (auto simp: keys_with_def newIndex_def ns lookup_or_nil_def dest!: map_of_SomeD split: option.splits)
  then show "index_inv (newIndex fs)"
    using spec by (auto simp: index_inv_def newIndex_def ns secondary_wf_def sorted_cache_ok_def values_wf_def index_Get_def)
  show "index_Get (newIndex fs) = Map.empty" "set (indexedFields (newIndex fs)) = set fs - {[]}"
    using spec by (auto simp: newIndex_def ns index_Get_def)
qed

lemma addToSecondary_spec:
  assumes "secondary_wf idx"
  shows "secondary_wf (addToSecondary key entry idx)"
    "f \<in> set (indexedFields idx) \<Longrightarrow> keys_with (addToSecondary key entry idx) f v =
       keys_with idx f v \<union> (if map_of (ie_Attributes entry) f = Some v then {key} else {})"
  using addToSecondary_fold [OF assms subset_refl] by (simp_all add: addToSecondary_def)

lemma removeFromSecondary_spec:
  assumes "secondary_wf idx"
  shows "secondary_wf (removeFromSecondary key entry idx)"
    "f \<in> set (indexedFields idx) \<Longrightarrow> keys_with (removeFromSecondary key entry idx) f v =
       keys_with idx f v - (if map_of (ie_Attributes entry) f = Some v then {key} else {})"
  using removeFromSecondary_fold [OF assms subset_refl] by (simp_all add: removeFromSecondary_def)

lemma secondary_wf_other [simp]:
  "secondary_wf (idx\<lparr>entries := es\<rparr>) = secondary_wf idx" "keys_with (idx\<lparr>entries := es\<rparr>) = keys_with idx"
  "secondary_wf (idx\<lparr>sortedDirty := b\<rparr>) = secondary_wf idx" "keys_with (idx\<lparr>sortedDirty := b\<rparr>) = keys_with idx"
  "secondary_wf (idx\<lparr>sortedKeys := ks\<rparr>) = secondary_wf idx" "keys_with (idx\<lparr>sortedKeys := ks\<rparr>) = keys_with idx"
  by (auto simp: secondary_wf_def keys_with_def fun_eq_iff)

text \<open>Taking the old entry of a key out of the secondary maps: the first half of both updates.\<close>

lemma detach_spec:
  fixes idx key
  assumes "index_inv idx"
  defines "idx' \<equiv> (case map_of (entries idx) key of Some e \<Rightarrow> removeFromSecondary key e idx | None \<Rightarrow> idx)"
  shows "secondary_wf idx'" "same_primary idx' idx"
    "f \<in> set (indexedFields idx) \<Longrightarrow> keys_with idx' f v =
       {k. \<exists>e. k \<noteq> key \<and> index_Get idx k = Some e \<and> map_of (ie_Attributes e) f = Some v}"
proof -
  have inv: "secondary_wf idx" "f \<in> set (indexedFields idx) \<Longrightarrow> keys_with idx f v =
      {k. \<exists>e. index_Get idx k = Some e \<and> map_of (ie_Attributes e) f = Some v}" for f v
    using assms(1) by (simp_all add: index_inv_def)
  show "secondary_wf idx'" "same_primary idx' idx"
    using inv(1) removeFromSecondary_spec(1) removeFromSecondary_same
    by (auto simp: idx'_def same_primary_def split: option.split)
  show "f \<in> set (indexedFields idx) \<Longrightarrow> keys_with idx' f v =
       {k. \<exists>e. k \<noteq> key \<and> index_Get idx k = Some e \<and> map_of (ie_Attributes e) f = Some v}"
    using inv(2) [of f v] removeFromSecondary_spec(2) [OF inv(1), of f key _ v]
    by (cases "map_of (entries idx) key") (auto simp: idx'_def index_Get_def simp del: map_of_eq_Some_iff)
qed

lemma index_Put_spec:
  assumes inv: "index_inv idx" and attrs: "go_map (ie_Attributes entry)"
  shows "index_inv (index_Put key entry idx)"
    "index_Get (index_Put key entry idx) = (index_Get idx)(key \<mapsto> entry)"
    "indexedFields (index_Put key entry idx) = indexedFields idx"
proof -
  define idx1 where "idx1 = (case map_of (entries idx) key of Some e \<Rightarrow> removeFromSecondary key e idx | None \<Rightarrow> idx)"
  define idx2 where "idx2 = idx1\<lparr>entries := AList.update key entry (entries idx)\<rparr>"
  note d = detach_spec [OF inv, where key = key, folded idx1_def]
  have fields: "indexedFields idx2 = indexedFields idx" using d(2) by (simp add: idx2_def same_primary_def)
  have wf: "secondary_wf idx2" using d(1) by (simp add: idx2_def)
  have put: "index_Put key entry idx = (addToSecondary key entry idx2)\<lparr>sortedDirty := True\<rparr>"
    using d(2) attrs
    by (simp add: index_Put_def Let_def idx2_def idx1_def cloneAttributes_id same_primary_def)
  have es: "entries (index_Put key entry idx) = AList.update key entry (entries idx)"
    using addToSecondary_same [of key entry idx2] by (simp add: put same_primary_def idx2_def)
  show get: "index_Get (index_Put key entry idx) = (index_Get idx)(key \<mapsto> entry)"
    by (simp add: index_Get_def es update_conv' fun_eq_iff)
  show fs: "indexedFields (index_Put key entry idx) = indexedFields idx"
    using addToSecondary_same [of key entry idx2] fields by (simp add: put same_primary_def)
  have "keys_with (index_Put key entry idx) f v =
      {k. \<exists>e. index_Get (index_Put key entry idx) k = Some e \<and> map_of (ie_Attributes e) f = Some v}"
    if "f \<in> set (indexedFields idx)" for f v
    using that addToSecondary_spec(2) [OF wf, of f key entry v] d(3) [of f v] fields
    unfolding get by (auto simp: put idx2_def)
  moreover have "\<forall>(k, e) \<in> set (AList.update key entry (entries idx)). go_map (ie_Attributes e)"
    using inv attrs set_update_subset [of key entry "entries idx"] by (fastforce simp: index_inv_def)
  ultimately show "index_inv (index_Put key entry idx)"
    using inv fs addToSecondary_spec(1) [OF wf] es [unfolded put]
    by (simp add: index_inv_def put sorted_cache_ok_def)
qed

lemma index_Delete_spec:
  assumes inv: "index_inv idx"
  shows "index_inv (index_Delete key idx)"
    "index_Get (index_Delete key idx) = (index_Get idx)(key := None)"
    "indexedFields (index_Delete key idx) = indexedFields idx"
proof -
  have "index_inv (index_Delete key idx) \<and> index_Get (index_Delete key idx) = (index_Get idx)(key := None) \<and>
    indexedFields (index_Delete key idx) = indexedFields idx"
  proof (cases "map_of (entries idx) key")
    case None
    then show ?thesis using inv by (auto simp: index_Delete_def index_Get_def)
  next
    case (Some e)
    note d = detach_spec [OF inv, where key = key, unfolded Some, simplified]
    have es: "entries (index_Delete key idx) = AList.delete key (entries idx)"
      and fs: "indexedFields (index_Delete key idx) = indexedFields idx"
      using Some d(2) by (simp_all add: index_Delete_def same_primary_def)
    have get: "index_Get (index_Delete key idx) = (index_Get idx)(key := None)"
      by (simp add: index_Get_def es delete_conv' fun_eq_iff)
    have kd: "keys_with (index_Delete key idx) = keys_with (removeFromSecondary key e idx)"
      by (simp add: index_Delete_def Some Let_def)
    have "keys_with (index_Delete key idx) f v =
        {k. \<exists>e. index_Get (index_Delete key idx) k = Some e \<and> map_of (ie_Attributes e) f = Some v}"
      if "f \<in> set (indexedFields idx)" for f v
      using d(3) [OF that, of v] unfolding get by (simp add: kd fun_upd_apply) blast
    moreover have "\<forall>(k, e) \<in> set (AList.delete key (entries idx)). go_map (ie_Attributes e)"
      using inv by (auto simp: index_inv_def AList.delete_eq)
    ultimately have "index_inv (index_Delete key idx)"
      using inv fs d(1) by (simp add: index_inv_def es) (simp add: index_Delete_def Some sorted_cache_ok_def Let_def)
    with get fs show ?thesis by simp
  qed
  then show "index_inv (index_Delete key idx)" "index_Get (index_Delete key idx) = (index_Get idx)(key := None)"
    "indexedFields (index_Delete key idx) = indexedFields idx" by auto
qed

lemma length_sort_pairs [simp]: "length (sort_key snd (map (\<lambda>(key, entry). (key, ie_RecordOffset entry)) es)) = length es"
  by simp

lemma KeysSortedByOffset_spec:
  assumes "index_inv idx"
  shows "fst (KeysSortedByOffset idx) =
      map fst (sort_key snd (map (\<lambda>(key, entry). (key, ie_RecordOffset entry)) (entries idx)))"
    "index_inv (snd (KeysSortedByOffset idx))" "entries (snd (KeysSortedByOffset idx)) = entries idx"
    "index_Get (snd (KeysSortedByOffset idx)) = index_Get idx"
    "byAttribute (snd (KeysSortedByOffset idx)) = byAttribute idx"
    "indexedFields (snd (KeysSortedByOffset idx)) = indexedFields idx"
  using assms
  by (auto simp: KeysSortedByOffset_def Let_def index_inv_def sorted_cache_ok_def index_Get_def fun_eq_iff)

lemma KeysSortedByOffset_keys:
  assumes "index_inv idx"
  shows "set (fst (KeysSortedByOffset idx)) = dom (index_Get idx)" "distinct (fst (KeysSortedByOffset idx))"
    "sorted (map (\<lambda>k. ie_RecordOffset (the (index_Get idx k))) (fst (KeysSortedByOffset idx)))"
proof -
  let ?ps = "sort_key snd (map (\<lambda>(key, entry). (key, ie_RecordOffset entry)) (entries idx))"
  have inv: "go_map (entries idx)" using assms by (simp add: index_inv_def)
  note ks = KeysSortedByOffset_spec(1) [OF assms]
  show "set (fst (KeysSortedByOffset idx)) = dom (index_Get idx)"
    unfolding ks
    by (simp add: index_Get_def [abs_def] dom_map_of_conv_image_fst image_image case_prod_unfold)
  have "mset (map fst ?ps) = mset (map fst (entries idx))"
    by (simp add: image_mset.compositionality comp_def case_prod_unfold)
  then show "distinct (fst (KeysSortedByOffset idx))"
    unfolding ks using inv by (metis mset_eq_imp_distinct_iff)
  have "the (index_Get idx (fst p)) = e \<and> snd p = ie_RecordOffset e"
    if "p \<in> set ?ps" "e = the (index_Get idx (fst p))" for p e
    using that inv by (auto simp: index_Get_def)
  then have "map (\<lambda>k. ie_RecordOffset (the (index_Get idx k))) (map fst ?ps) = map snd ?ps"
    by (simp add: comp_def)
  then show "sorted (map (\<lambda>k. ie_RecordOffset (the (index_Get idx k))) (fst (KeysSortedByOffset idx)))"
    unfolding ks by (simp only: sorted_sort_key)
qed

section \<open>The interface its clients rely on\<close>

text \<open>
  The store, compaction and downgrade use the index as a finite map from keys
  to entries. A log is replayed into it record by record; the locale shows once
  that replaying any sequence of updates gives the map those updates describe.
\<close>

datatype 'e update = Put_update string 'e | Delete_update string

fun apply_update :: "'e update \<Rightarrow> (string \<Rightarrow> 'e option) \<Rightarrow> string \<Rightarrow> 'e option" where
  "apply_update (Put_update k e) m = m(k \<mapsto> e)"
| "apply_update (Delete_update k) m = m(k := None)"

locale entry_index =
  fixes get :: "'i \<Rightarrow> string \<Rightarrow> 'e option"
    and put :: "string \<Rightarrow> 'e \<Rightarrow> 'i \<Rightarrow> 'i"
    and delete :: "string \<Rightarrow> 'i \<Rightarrow> 'i"
    and inv :: "'i \<Rightarrow> bool"
    and valid :: "'e \<Rightarrow> bool"
  assumes get_put: "inv i \<Longrightarrow> valid e \<Longrightarrow> get (put k e i) = (get i)(k \<mapsto> e)"
    and inv_put: "inv i \<Longrightarrow> valid e \<Longrightarrow> inv (put k e i)"
    and get_delete: "inv i \<Longrightarrow> get (delete k i) = (get i)(k := None)"
    and inv_delete: "inv i \<Longrightarrow> inv (delete k i)"
begin

fun run_update :: "'e update \<Rightarrow> 'i \<Rightarrow> 'i" where
  "run_update (Put_update k e) i = put k e i"
| "run_update (Delete_update k) i = delete k i"

lemma run_update_spec:
  assumes "inv i" "\<And>k e. u = Put_update k e \<Longrightarrow> valid e"
  shows "inv (run_update u i)" "get (run_update u i) = apply_update u (get i)"
  using assms by (cases u; simp add: get_put inv_put get_delete inv_delete)+

lemma replay:
  assumes "inv i" "\<forall>k e. Put_update k e \<in> set us \<longrightarrow> valid e"
  shows "inv (fold run_update us i) \<and> get (fold run_update us i) = fold apply_update us (get i)"
  using assms
proof (induction us arbitrary: i)
  case (Cons u us)
  have v: "valid e" if "u = Put_update k e" for k e using Cons.prems(2) that by auto
  have u: "inv (run_update u i)" "get (run_update u i) = apply_update u (get i)"
    by (rule run_update_spec [OF Cons.prems(1)], erule v)+
  show ?case using Cons.IH [OF u(1)] Cons.prems(2) u(2) by auto
qed simp

end

interpretation idx: entry_index index_Get index_Put index_Delete index_inv "\<lambda>e. go_map (ie_Attributes e)"
  by unfold_locales (simp_all add: index_Put_spec index_Delete_spec)

section \<open>Properties\<close>

lemma index_KeysBy_spec:
  assumes "index_inv idx"
  shows "set (index_KeysBy idx field v) =
      (if field \<in> set (indexedFields idx)
       then {k. \<exists>e. index_Get idx k = Some e \<and> map_of (ie_Attributes e) field = Some v} else {})"
    "distinct (index_KeysBy idx field v)"
proof -
  have wf: "secondary_wf idx" using assms by (simp add: index_inv_def)
  have kb: "index_KeysBy idx field v = lookup_or_nil (lookup_or_nil (byAttribute idx) field) v"
    by (simp add: index_KeysBy_def lookup_or_nil_def split: option.splits)
  show "distinct (index_KeysBy idx field v)" unfolding kb by (rule distinct_lookup [OF lookup_or_nil_wf [OF wf]])
  have sk: "set (index_KeysBy idx field v) = keys_with idx field v" by (simp add: kb keys_with_def)
  have "map_of (byAttribute idx) field = None" if "field \<notin> set (indexedFields idx)"
    using that wf by (simp add: secondary_wf_def map_of_eq_None_iff)
  then have "keys_with idx field v = {}" if "field \<notin> set (indexedFields idx)"
    using that by (simp add: keys_with_def lookup_or_nil_def)
  then show "set (index_KeysBy idx field v) =
      (if field \<in> set (indexedFields idx)
       then {k. \<exists>e. index_Get idx k = Some e \<and> map_of (ie_Attributes e) field = Some v} else {})"
    using assms unfolding sk by (simp add: index_inv_def)
qed

lemma index_AttributeValues_spec:
  assumes "index_inv idx" "field \<in> set (indexedFields idx)"
  shows "set (index_AttributeValues idx field) =
      {v. \<exists>k e. index_Get idx k = Some e \<and> map_of (ie_Attributes e) field = Some v}"
    "sorted (index_AttributeValues idx field)" "distinct (index_AttributeValues idx field)"
proof -
  let ?vs = "lookup_or_nil (byAttribute idx) field"
  have wf: "values_wf ?vs" using assms(1) by (auto simp: index_inv_def intro: lookup_or_nil_wf)
  have "v \<in> fst ` set ?vs \<longleftrightarrow> lookup_or_nil ?vs v \<noteq> []" for v
    using wf by (force simp: lookup_or_nil_def [of ?vs] values_wf_def split: option.splits dest!: map_of_SomeD
        simp: map_of_eq_None_iff)
  also have "lookup_or_nil ?vs v \<noteq> [] \<longleftrightarrow> keys_with idx field v \<noteq> {}" for v by (simp add: keys_with_def)
  also have "keys_with idx field v \<noteq> {} \<longleftrightarrow>
      (\<exists>k e. index_Get idx k = Some e \<and> map_of (ie_Attributes e) field = Some v)" for v
    using assms by (auto simp: index_inv_def)
  finally have iff: "v \<in> fst ` set ?vs \<longleftrightarrow>
      (\<exists>k e. index_Get idx k = Some e \<and> map_of (ie_Attributes e) field = Some v)" for v .
  show "set (index_AttributeValues idx field) =
      {v. \<exists>k e. index_Get idx k = Some e \<and> map_of (ie_Attributes e) field = Some v}"
    by (rule set_eqI) (simp only: index_AttributeValues_def set_sort set_map iff mem_Collect_eq)
  show "sorted (index_AttributeValues idx field)" "distinct (index_AttributeValues idx field)"
    using wf by (simp_all add: index_AttributeValues_def values_wf_def)
qed

text \<open>
  C31. After any sequence of insertions and deletions on a new index, the index
  answers like the map those updates describe, and its representation invariant
  holds: the secondary maps list exactly the keys whose current entry carries an
  indexed attribute with that value.
\<close>

theorem index_refines_map:
  assumes "\<forall>k e. Put_update k e \<in> set us \<longrightarrow> go_map (ie_Attributes e)"
  shows "index_inv (fold idx.run_update us (newIndex fs)) \<and>
    index_Get (fold idx.run_update us (newIndex fs)) = fold apply_update us Map.empty"
  using idx.replay [of "newIndex fs" us] assms by (simp add: newIndex_spec)

text \<open>
  The queries on attributes answer from the primary data: \<^verbatim>\<open>KeysBy\<close> returns,
  without duplicates, exactly the keys whose current entry has that value for an
  indexed field, and \<^verbatim>\<open>AttributeValues\<close> returns the sorted distinct values in use.
\<close>

theorem index_queries:
  assumes "index_inv idx" "field \<in> set (indexedFields idx)"
  shows "set (index_KeysBy idx field v) =
      {k. \<exists>e. index_Get idx k = Some e \<and> map_of (ie_Attributes e) field = Some v} \<and>
    distinct (index_KeysBy idx field v) \<and>
    set (index_AttributeValues idx field) =
      {v. \<exists>k e. index_Get idx k = Some e \<and> map_of (ie_Attributes e) field = Some v} \<and>
    sorted (index_AttributeValues idx field) \<and> distinct (index_AttributeValues idx field)"
  using assms by (simp add: index_KeysBy_spec index_AttributeValues_spec)

text \<open>
  \<^verbatim>\<open>KeysSortedByOffset\<close> returns every live key once, in the order of the
  records in the log, whether it answers from its cached list or sorts again,
  and changes nothing the other operations can see.
\<close>

theorem KeysSortedByOffset_correct:
  assumes "index_inv idx" "KeysSortedByOffset idx = (keys, idx')"
  shows "set keys = dom (index_Get idx) \<and> distinct keys \<and>
    sorted (map (\<lambda>k. ie_RecordOffset (the (index_Get idx k))) keys) \<and>
    index_inv idx' \<and> index_Get idx' = index_Get idx \<and> KeysSortedByOffset idx' = (keys, idx')"
proof -
  have "KeysSortedByOffset idx' = (keys, idx')"
    using assms by (auto simp: KeysSortedByOffset_def Let_def split: if_splits)
  then show ?thesis
    using assms KeysSortedByOffset_spec [OF assms(1)] KeysSortedByOffset_keys [OF assms(1)] by simp
qed

text \<open>An index with two keys that share a value, for the witnesses.\<close>

abbreviation sample_entry :: "nat \<Rightarrow> string \<Rightarrow> indexEntry" where
  "sample_entry p c \<equiv> \<lparr>ie_Offset = p + 25, ie_Size = 1, ie_RecordOffset = p, ie_StoredSize = 30,
     ie_Attributes = [(''c'', c)]\<rparr>"

abbreviation sample_updates :: "indexEntry update list" where
  "sample_updates \<equiv> [Put_update ''k'' (sample_entry 46 ''x''), Put_update ''l'' (sample_entry 16 ''x''),
     Put_update ''k'' (sample_entry 76 ''y''), Delete_update ''m'']"

definition sample_idx :: index where
  "sample_idx = fold idx.run_update sample_updates (newIndex [''c''])"

lemma sample_index:
  "index_inv sample_idx" "index_Get sample_idx = [''k'' \<mapsto> sample_entry 76 ''y'', ''l'' \<mapsto> sample_entry 16 ''x'']"
  "set (indexedFields sample_idx) = {''c''}"
proof -
  have r: "index_inv sample_idx \<and> index_Get sample_idx = fold apply_update sample_updates Map.empty"
    unfolding sample_idx_def by (subst newIndex_spec(2) [symmetric], rule idx.replay) (auto simp: newIndex_spec)
  then show "index_inv sample_idx" by simp
  show "index_Get sample_idx = [''k'' \<mapsto> sample_entry 76 ''y'', ''l'' \<mapsto> sample_entry 16 ''x'']"
    using r by (auto simp: fun_eq_iff)
  show "set (indexedFields sample_idx) = {''c''}"
    by (simp add: sample_idx_def index_Put_spec index_Delete_spec newIndex_spec)
qed

theorem index_refines_map_witness:
  "index_Get (fold idx.run_update sample_updates (newIndex [''c''])) ''k'' = Some (sample_entry 76 ''y'')"
proof -
  have "\<forall>k e. Put_update k e \<in> set sample_updates \<longrightarrow> go_map (ie_Attributes e)" by auto
  from index_refines_map [OF this, of "[''c'']"] show ?thesis by simp
qed

lemma sample_get_iff:
  "index_Get sample_idx k = Some e \<longleftrightarrow>
     k = ''k'' \<and> e = sample_entry 76 ''y'' \<or> k = ''l'' \<and> e = sample_entry 16 ''x''"
  by (auto simp: sample_index)

theorem index_queries_witness:
  "set (index_KeysBy sample_idx ''c'' ''x'') = {''l''} \<and> set (index_AttributeValues sample_idx ''c'') = {''x'', ''y''}"
proof -
  have "''c'' \<in> set (indexedFields sample_idx)" by (simp add: sample_index)
  note q = index_queries [OF sample_index(1) this, of "''x''", unfolded sample_get_iff]
  moreover have "{k. \<exists>e. (k = ''k'' \<and> e = sample_entry 76 ''y'' \<or> k = ''l'' \<and> e = sample_entry 16 ''x'') \<and>
      map_of (ie_Attributes e) ''c'' = Some ''x''} = {''l''}"
    by (rule set_eqI) (simp add: conj_disj_distribR ex_disj_distrib)
  moreover have "{v. \<exists>k e. (k = ''k'' \<and> e = sample_entry 76 ''y'' \<or> k = ''l'' \<and> e = sample_entry 16 ''x'') \<and>
      map_of (ie_Attributes e) ''c'' = Some v} = {''x'', ''y''}"
    by (rule set_eqI) (simp add: conj_disj_distribR ex_disj_distrib eq_commute disj_commute)
  ultimately show ?thesis by simp
qed

theorem KeysSortedByOffset_correct_witness:
  "set (fst (KeysSortedByOffset sample_idx)) = {''k'', ''l''}"
  using KeysSortedByOffset_correct [OF sample_index(1) prod.collapse [symmetric]]
  by (auto simp: sample_index)

end
