(* ===== verification/Store.thy ===== *)
theory Store
  imports FileLock Cache Index Complex_Main "HOL-Library.Log_Nat"
begin

text \<open>
  The store of \<^verbatim>\<open>store.go\<close>: its state and all its operations. An operation takes
  the store and returns it updated, together with its result. The mutex of the
  store makes each operation atomic, except \<^verbatim>\<open>ForEach\<close>, which takes it once per
  key; its callback may therefore change the store. The bodies of the two
  background loops are the operations \<open>sync_tick\<close> and \<open>compaction_tick\<close>.
\<close>

section \<open>Floating point\<close>

text \<open>
  \<^verbatim>\<open>float64\<close>: a rational number rounded to 53 significant bits, ties to even.
  The quotients that occur are neither subnormal nor infinite.
\<close>

definition round_even :: "rat \<Rightarrow> int" where
  "round_even x =
     (let n = \<lfloor>x\<rfloor>; d = x - of_int n in
      if d < 1 / 2 then n else if d > 1 / 2 then n + 1 else if even n then n else n + 1)"

definition pow2 :: "int \<Rightarrow> rat" where
  "pow2 k = (if k \<ge> 0 then 2 ^ nat k else 1 / 2 ^ nat (- k))"

definition exponent :: "rat \<Rightarrow> int" where
  "exponent x = (case quotient_of \<bar>x\<bar> of (a, b) \<Rightarrow>
     let k = int (floorlog 2 (nat a)) - int (floorlog 2 (nat b)) in
     if \<bar>x\<bar> \<ge> pow2 k then k else k - 1)"

definition float64 :: "rat \<Rightarrow> rat" where
  "float64 x = (if x = 0 then 0 else
     let e = exponent x - 52 in of_int (round_even (x / pow2 e)) * pow2 e)"

section \<open>State\<close>

record MigrationInfo =
  mi_Path :: path
  mi_FromVersion :: "32 word"
  mi_ToVersion :: "32 word"
  mi_Backup :: path

text \<open>
  \<open>OnError\<close> says whether a callback is set; what it is called with is a result
  of the operations that report errors. \<open>OnMigrate\<close> is the caller's function.
\<close>

record Options =
  CacheSize :: int
  SyncInterval :: int
  CompactionThreshold :: rat
  AutoCompact :: bool
  IndexedFields :: "string list"
  OnError :: bool
  OnMigrate :: "(MigrationInfo \<Rightarrow> error option) option"
  NoMigrationBackup :: bool

record PutOptions =
  po_Attributes :: attributes

record statsCounters =
  Writes :: "64 word"
  Reads :: "64 word"
  CacheHits :: "64 word"
  CacheMisses :: "64 word"
  Deletes :: "64 word"
  Compactions :: "64 word"

text \<open>The fields \<open>s_syncTask\<close> and \<open>s_compactionTask\<close> say which background tasks run.\<close>

record Store =
  s_log :: appendLog
  s_index :: index
  s_cache :: lruCache
  s_lock :: fileLock
  s_options :: Options
  s_closed :: bool
  s_compacting :: bool
  s_readOnlyReason :: "error option"
  s_syncTask :: bool
  s_compactionTask :: bool
  s_stats :: statsCounters

definition new_entry :: "nat \<Rightarrow> 32 word \<Rightarrow> nat \<Rightarrow> nat \<Rightarrow> attributes \<Rightarrow> indexEntry" where
  "new_entry offset sz recordOffset storedSize attrs =
     \<lparr>ie_Offset = offset, ie_Size = sz, ie_RecordOffset = recordOffset, ie_StoredSize = storedSize,
      ie_Attributes = attrs\<rparr>"

text \<open>\<^verbatim>\<open>fmt.Errorf("...: %w", err)\<close> on the way out of an operation.\<close>

definition wrap_result :: "string \<Rightarrow> error + 'a \<Rightarrow> error + 'a" where
  "wrap_result msg r = (case r of Inl err \<Rightarrow> Inl (Wrap msg [err]) | Inr x \<Rightarrow> Inr x)"

section \<open>Mutations\<close>

definition Put :: "Store \<Rightarrow> string \<Rightarrow> bytes \<Rightarrow> PutOptions option \<Rightarrow> ((error + unit) \<times> Store) io" where
  "Put s key value options =
     (if s_closed s then return (Inl ErrStoreClosed, s)
      else case s_readOnlyReason s of Some reason \<Rightarrow> return (Inl reason, s) | None \<Rightarrow>
      let attributes = (case options of Some opts \<Rightarrow> po_Attributes opts | None \<Rightarrow> []) in
      bind_io (Append (s_log s) key value False attributes []) (\<lambda>(r, log).
      let s = s\<lparr>s_log := log\<rparr> in
      case r of
        Inl err \<Rightarrow> return (Inl (Wrap ''failed to append to log'' [err]), s)
      | Inr (offset, sz, recordOffset, storedSize) \<Rightarrow>
          let s = s\<lparr>s_index := index_Put key (new_entry offset sz recordOffset storedSize attributes) (s_index s)\<rparr>;
              s = s\<lparr>s_cache := cache_Remove (s_cache s) key\<rparr>;
              s = s\<lparr>s_stats := (s_stats s)\<lparr>Writes := Writes (s_stats s) + 1\<rparr>\<rparr> in
          if SyncInterval (s_options s) = 0 then
            bind_io (log_Sync (s_log s)) (\<lambda>r. return (wrap_result ''sync appended value'' r, s))
          else return (Inr (), s)))"

definition Delete :: "Store \<Rightarrow> string \<Rightarrow> ((error + unit) \<times> Store) io" where
  "Delete s key =
     (if s_closed s then return (Inl ErrStoreClosed, s)
      else case s_readOnlyReason s of Some reason \<Rightarrow> return (Inl reason, s) | None \<Rightarrow>
      if index_Get (s_index s) key = None then return (Inl (Wrap ''key'' [ErrKeyNotFound]), s)
      else
      bind_io (Append (s_log s) key [] True [] []) (\<lambda>(r, log).
      let s = s\<lparr>s_log := log\<rparr> in
      case r of
        Inl err \<Rightarrow> return (Inl (Wrap ''failed to write tombstone'' [err]), s)
      | Inr _ \<Rightarrow>
          let s = s\<lparr>s_index := index_Delete key (s_index s)\<rparr>;
              s = s\<lparr>s_cache := cache_Remove (s_cache s) key\<rparr>;
              s = s\<lparr>s_stats := (s_stats s)\<lparr>Deletes := Deletes (s_stats s) + 1\<rparr>\<rparr> in
          if SyncInterval (s_options s) = 0 then
            bind_io (log_Sync (s_log s)) (\<lambda>r. return (wrap_result ''sync tombstone'' r, s))
          else return (Inr (), s)))"

section \<open>Reads\<close>

text \<open>\<open>pooled\<close> is the buffer that the pool of \<^verbatim>\<open>ReadRecordAt\<close> hands out, with whatever it holds.\<close>

definition Get :: "bytes \<Rightarrow> Store \<Rightarrow> string \<Rightarrow> ((error + bytes) \<times> Store) io" where
  "Get pooled s key =
     (if s_closed s then return (Inl ErrStoreClosed, s)
      else
      let (hit, cache) = cache_Get (s_cache s) key; s = s\<lparr>s_cache := cache\<rparr> in
      case hit of
        Some value \<Rightarrow>
          let s = s\<lparr>s_stats := (s_stats s)\<lparr>CacheHits := CacheHits (s_stats s) + 1, Reads := Reads (s_stats s) + 1\<rparr>\<rparr> in
          return (Inr value, s)
      | None \<Rightarrow>
      (case index_Get (s_index s) key of
        None \<Rightarrow> return (Inl (Wrap ''key'' [ErrKeyNotFound]), s)
      | Some entry \<Rightarrow>
          bind_io (ReadRecordAt (s_log s) (ie_RecordOffset entry) (ie_StoredSize entry) pooled) (\<lambda>r. case r of
            Inl err \<Rightarrow> return (Inl (Wrap ''failed to read from log'' [err]), s)
          | Inr value \<Rightarrow>
              let s = s\<lparr>s_cache := cache_Put (s_cache s) key value\<rparr>;
                  s = s\<lparr>s_stats := (s_stats s)\<lparr>CacheMisses := CacheMisses (s_stats s) + 1, Reads := Reads (s_stats s) + 1\<rparr>\<rparr> in
              return (Inr value, s))))"

definition GetMetadata :: "Store \<Rightarrow> string \<Rightarrow> error + Metadata" where
  "GetMetadata s key =
     (if s_closed s then Inl ErrStoreClosed
      else case index_Get (s_index s) key of
        None \<Rightarrow> Inl (Wrap ''key'' [ErrKeyNotFound])
      | Some entry \<Rightarrow> Inr \<lparr>md_Attributes = cloneAttributes (ie_Attributes entry)\<rparr>)"

definition Exists :: "Store \<Rightarrow> string \<Rightarrow> bool" where
  "Exists s key = (if s_closed s then False else index_Get (s_index s) key \<noteq> None)"

definition Len :: "Store \<Rightarrow> nat" where
  "Len s = index_Len (s_index s)"

definition Keys :: "Store \<Rightarrow> string list" where
  "Keys s = index_Keys (s_index s)"

text \<open>
  The loop of \<^verbatim>\<open>ForEach\<close>. The callback runs without the mutex: it is a computation
  that may change the store (as may any other writer in between) besides its own
  state \<open>t\<close>.
\<close>

type_synonym 't visitor = "string \<Rightarrow> bytes \<Rightarrow> 't \<Rightarrow> Store \<Rightarrow> (error option \<times> 't \<times> Store) io"

fun forEach_loop :: "'t visitor \<Rightarrow> string list \<Rightarrow> bytes \<Rightarrow> 't \<Rightarrow> Store \<Rightarrow> (error option \<times> 't \<times> Store) io" where
  "forEach_loop fn [] scratch t s = return (None, t, s)"
| "forEach_loop fn (key # keys) scratch t s = (case index_Get (s_index s) key of
       None \<Rightarrow> forEach_loop fn keys scratch t s
     | Some entry \<Rightarrow>
         bind_io (ReadRecordAtInto (s_log s) (ie_RecordOffset entry) (ie_StoredSize entry) scratch) (\<lambda>(r, nextScratch).
         case r of
           Inl err \<Rightarrow> return (Some (Wrap ''failed to read from log'' [err]), t, s)
         | Inr value \<Rightarrow>
             let s = s\<lparr>s_stats := (s_stats s)\<lparr>Reads := Reads (s_stats s) + 1\<rparr>\<rparr> in
             bind_io (fn key value t s) (\<lambda>(e, t, s). case e of
               Some err \<Rightarrow> return (Some err, t, s)
             | None \<Rightarrow> forEach_loop fn keys nextScratch t s)))"

definition ForEach :: "'t visitor \<Rightarrow> 't \<Rightarrow> Store \<Rightarrow> (error option \<times> 't \<times> Store) io" where
  "ForEach fn t s =
     (if s_closed s then return (Some ErrStoreClosed, t, s)
      else
      let (keys, idx) = KeysSortedByOffset (s_index s) in
      forEach_loop fn keys [] t (s\<lparr>s_index := idx\<rparr>))"

definition ForEachMetadata :: "(string \<Rightarrow> Metadata \<Rightarrow> 't \<Rightarrow> error option \<times> 't) \<Rightarrow> 't \<Rightarrow> Store \<Rightarrow> error option \<times> 't" where
  "ForEachMetadata fn t s =
     (if s_closed s then (Some ErrStoreClosed, t)
      else case index_ForEach (\<lambda>key entry pairs. (None, pairs @ [(key, cloneAttributes (ie_Attributes entry))])) (s_index s) [] of
        (Some err, _) \<Rightarrow> (Some err, t)
      | (None, pairs) \<Rightarrow> for_each (\<lambda>(key, attributes). fn key \<lparr>md_Attributes = attributes\<rparr>) pairs t)"

definition KeysBy :: "Store \<Rightarrow> string \<Rightarrow> string \<Rightarrow> string list" where
  "KeysBy s field value = index_KeysBy (s_index s) field value"

definition CountBy :: "Store \<Rightarrow> string \<Rightarrow> string \<Rightarrow> nat" where
  "CountBy s field value = length (index_KeysBy (s_index s) field value)"

definition AttributeValues :: "Store \<Rightarrow> string \<Rightarrow> string list" where
  "AttributeValues s field = index_AttributeValues (s_index s) field"

definition NeedsCompaction :: "Store \<Rightarrow> bool" where
  "NeedsCompaction s =
     (let liveSize = index_TotalSize (s_index s);
          dataSize = int (log_Size (s_log s)) - int logHeaderSize in
      if dataSize \<le> 0 then False
      else
      let deadRatio = float64 (1 - float64 (float64 (of_nat liveSize) / float64 (of_int dataSize))) in
      deadRatio > CompactionThreshold (s_options s))"

definition Sync :: "Store \<Rightarrow> (error + unit) io" where
  "Sync s = (if s_closed s then return (Inl ErrStoreClosed) else log_Sync (s_log s))"

definition Stats :: "Store \<Rightarrow> statsCounters" where
  "Stats s = s_stats s"

definition DiskSize :: "Store \<Rightarrow> nat" where
  "DiskSize s = log_Size (s_log s)"

definition MemoryUsage :: "Store \<Rightarrow> nat" where
  "MemoryUsage s = index_MemoryUsage (s_index s) + cache_MemoryUsage (s_cache s)"

definition ReadOnly :: "Store \<Rightarrow> bool" where
  "ReadOnly s = (s_readOnlyReason s \<noteq> None)"

definition Close :: "Store \<Rightarrow> ((error + unit) \<times> Store) io" where
  "Close s =
     (if s_closed s then return (Inr (), s)
      else
      let s = s\<lparr>s_closed := True, s_syncTask := False, s_compactionTask := False\<rparr> in
      bind_io (if SyncInterval (s_options s) \<ge> 0 then log_Sync (s_log s) else return (Inr ())) (\<lambda>syncErr.
      bind_io (log_Close (s_log s)) (\<lambda>(closeErr, log).
      bind_io (lock_release (s_lock s)) (\<lambda>(lockErr, lock).
      return (errors_Join [syncErr, closeErr, lockErr], s\<lparr>s_log := log, s_lock := lock\<rparr>)))))"

end
