(* ===== verification/StoreInv.thy ===== *)
theory StoreInv
  imports Store
begin

text \<open>
  What a store holds, and the correctness of its operations on a log of the
  current format. The abstraction is a finite map from keys to items; a log is a
  list of entries, and replaying it gives the map. The invariant says that the
  file is the log of some list of entries, that the index points at the live
  ones, and that the cache is coherent with their values.
\<close>

section \<open>The contents of a log\<close>

record item =
  it_value :: bytes
  it_attrs :: "string \<Rightarrow> string option"
  it_ext :: bytes

type_synonym db = "string \<Rightarrow> item option"

definition ent_key :: "ent \<Rightarrow> string" where
  "ent_key e = string_of (e_key e)"

definition ent_deleted :: "ent \<Rightarrow> bool" where
  "ent_deleted e = bit (e_flags e ! 0) 0"

definition item_of :: "ent \<Rightarrow> item" where
  "item_of e = \<lparr>it_value = e_value e, it_attrs = map_of (ent_attributes e), it_ext = e_ext e\<rparr>"

definition live_step :: "nat \<times> ent \<Rightarrow> (string \<Rightarrow> (nat \<times> ent) option) \<Rightarrow> string \<Rightarrow> (nat \<times> ent) option" where
  "live_step pe m = (if ent_deleted (snd pe) then m(ent_key (snd pe) := None) else m(ent_key (snd pe) \<mapsto> pe))"

text \<open>The live record of each key, with its position in the file, and the item it holds.\<close>

definition live :: "ent list \<Rightarrow> string \<Rightarrow> (nat \<times> ent) option" where
  "live es = fold live_step (places logHeaderSize es) Map.empty"

definition items_of :: "ent list \<Rightarrow> db" where
  "items_of es k = map_option (item_of \<circ> snd) (live es k)"

definition values_of :: "ent list \<Rightarrow> string \<Rightarrow> bytes option" where
  "values_of es k = map_option it_value (items_of es k)"

definition log_end :: "ent list \<Rightarrow> nat" where
  "log_end es = logHeaderSize + length (log_body es)"

lemma live_Nil [simp]: "live [] = Map.empty"
  by (simp add: live_def)

lemma live_snoc: "live (es @ [e]) = live_step (log_end es, e) (live es)"
  by (simp add: live_def places_append log_end_def)

lemma items_of_Nil [simp]: "items_of [] = Map.empty"
  by (simp add: items_of_def fun_eq_iff)

lemma items_of_snoc:
  "items_of (es @ [e]) = (items_of es)(ent_key e := if ent_deleted e then None else Some (item_of e))"
  by (auto simp: items_of_def live_snoc live_step_def fun_eq_iff)

lemma values_of_snoc:
  "values_of (es @ [e]) = (values_of es)(ent_key e := if ent_deleted e then None else Some (e_value e))"
  by (auto simp: values_of_def items_of_snoc item_of_def)

lemma log_end_snoc [simp]: "log_end (es @ [e]) = log_end es + length (ent_bytes e)"
  by (simp add: log_end_def)

lemma live_places: "live es k = Some pe \<Longrightarrow> pe \<in> set (places logHeaderSize es) \<and> ent_key (snd pe) = k \<and> \<not> ent_deleted (snd pe)"
proof (induction es rule: rev_induct)
  case (snoc e es)
  then show ?case
    by (auto simp: live_snoc live_step_def places_append log_end_def split: if_splits)
qed simp

lemma places_slice:
  "(p, e) \<in> set (places q es) \<Longrightarrow> q = length h \<Longrightarrow> e \<in> set es \<and> q \<le> p \<and> p + length (ent_bytes e) \<le> q + length (log_body es) \<and>
     slice p (length (ent_bytes e)) (h @ log_body es @ tail) = ent_bytes e"
proof (induction es arbitrary: q h)
  case (Cons e' es)
  show ?case
  proof (cases "(p, e) = (q, e')")
    case False
    then have "(p, e) \<in> set (places (q + length (ent_bytes e')) es)" using Cons.prems(1) by auto
    from Cons.IH [OF this, of "h @ ent_bytes e'"] Cons.prems(2) show ?thesis by (simp del: drop_append take_append)
  qed (use Cons.prems in auto)
qed simp

section \<open>The index and the log\<close>

fun entry_for :: "nat \<times> ent \<Rightarrow> indexEntry \<Rightarrow> bool" where
  "entry_for (p, e) en \<longleftrightarrow> ie_Offset en = p + (20 + length (e_key e) + length (e_attrs e)) \<and>
     ie_Size en = of_nat (length (e_value e)) \<and> ie_RecordOffset en = p \<and> ie_StoredSize en = length (ent_bytes e) \<and>
     map_of (ie_Attributes en) = map_of (ent_attributes e)"

definition indexes :: "index \<Rightarrow> ent list \<Rightarrow> bool" where
  "indexes idx es \<longleftrightarrow> index_inv idx \<and> (\<forall>k. rel_option entry_for (live es k) (index_Get idx k))"

lemma indexes_get:
  assumes "indexes idx es" "index_Get idx k = Some en"
  obtains p e where "live es k = Some (p, e)" "entry_for (p, e) en"
  using assms unfolding indexes_def by (metis option.rel_cases option.distinct(1) option.inject surj_pair)

lemma indexes_none: "indexes idx es \<Longrightarrow> index_Get idx k = None \<longleftrightarrow> items_of es k = None"
  unfolding indexes_def items_of_def by (metis option.rel_distinct option.map_disc_iff not_None_eq)

lemma indexes_newIndex: "indexes (newIndex fs) []"
  by (simp add: indexes_def newIndex_spec)

lemma indexes_put:
  assumes "indexes idx es" "entry_for (log_end es, e) en" "go_map (ie_Attributes en)" "\<not> ent_deleted e" "k = ent_key e"
  shows "indexes (index_Put k en idx) (es @ [e])"
  using assms by (auto simp: indexes_def index_Put_spec live_snoc live_step_def simp del: entry_for.simps)

lemma indexes_delete:
  assumes "indexes idx es" "ent_deleted e" "k = ent_key e"
  shows "indexes (index_Delete k idx) (es @ [e])"
  using assms by (auto simp: indexes_def index_Delete_spec live_snoc live_step_def)

lemma indexes_sorted: "indexes idx es \<Longrightarrow> indexes (snd (KeysSortedByOffset idx)) es"
  by (simp add: indexes_def KeysSortedByOffset_spec)

lemma mk_ent_simps [simp]:
  "ent_key (mk_ent key v d attrs x) = key" "ent_deleted (mk_ent key v d attrs x) = d"
  "e_value (mk_ent key v d attrs x) = v" "e_ext (mk_ent key v d attrs x) = x" "e_key (mk_ent key v d attrs x) = bytes_of key"
  by (simp_all add: mk_ent_def ent_key_def ent_deleted_def)

lemma item_of_mk_ent:
  assumes "appendable key v attrs x" "go_map attrs"
  shows "item_of (mk_ent key v d attrs x) = \<lparr>it_value = v, it_attrs = map_of attrs, it_ext = x\<rparr>"
  using mk_ent_ok(3) [OF assms] assms(2) by (simp add: item_of_def by_name_props)

lemma entry_for_mk_ent:
  assumes "appendable key v attrs x" "go_map attrs" "e = mk_ent key v d attrs x"
  shows "entry_for (p, e) (new_entry (p + (20 + length key + length (e_attrs e))) (of_nat (length v)) p (length (ent_bytes e)) attrs)"
  using mk_ent_ok(3) [OF assms(1,2), of d] assms(2,3) by (simp add: new_entry_def by_name_props)

section \<open>The invariant of the store\<close>

text \<open>The log \<open>l\<close> with the file \<open>f\<close> holds the entries \<open>es\<close>; behind its end the file may have leftover bytes \<open>tail\<close>.\<close>

definition log_holds :: "appendLog \<Rightarrow> ent list \<Rightarrow> bytes \<Rightarrow> os_file \<Rightarrow> bool" where
  "log_holds l es tail f \<longleftrightarrow> content f = header_bytes l @ log_body es @ tail \<and> \<not> l_closed l \<and>
     l_version l = logVersion \<and> l_incompatibleFeatures l = 0 \<and> l_writePos l = log_end es \<and> (\<forall>e \<in> set es. ent_ok e)"

definition coherent :: "Store \<Rightarrow> ent list \<Rightarrow> bool" where
  "coherent s es \<longleftrightarrow> cache_inv (s_cache s) \<and> map_of (recency (s_cache s)) \<subseteq>\<^sub>m values_of es"

text \<open>The part of the state that no operation but \<^verbatim>\<open>Close\<close> changes, apart from the counters.\<close>

definition store_open :: "Store \<Rightarrow> path \<Rightarrow> world \<Rightarrow> bool" where
  "store_open s p w \<longleftrightarrow> l_path (s_log s) = p \<and> \<not> s_closed s \<and> \<not> s_compacting s \<and>
     lk_file (s_lock s) = Some (p @ lockFileSuffix) \<and> p @ lockFileSuffix \<in> locked w \<and>
     set (indexedFields (s_index s)) = set (IndexedFields (s_options s)) - {[]} \<and>
     (ReadOnly s \<longleftrightarrow> unknownReadOnly (s_log s) \<noteq> 0) \<and>
     (\<forall>err. s_readOnlyReason s = Some err \<longrightarrow> errors_Is err ErrReadOnly)"

definition store_inv :: "Store \<Rightarrow> path \<Rightarrow> ent list \<Rightarrow> bytes \<Rightarrow> world \<Rightarrow> bool" where
  "store_inv s p es tail w \<longleftrightarrow> store_open s p w \<and> indexes (s_index s) es \<and> coherent s es \<and>
     (\<exists>f. files w p = Some f \<and> log_holds (s_log s) es tail f)"

lemma length_header_bytes [simp]: "length (header_bytes l) = logHeaderSize"
  by (simp add: header_bytes_def logMagic_def logHeaderSize_def)

lemma log_holds_entry:
  assumes "log_holds l es tail f" "live es k = Some (p, e)" "entry_for (p, e) en"
  shows "ent_ok e" "in_log l f (ie_RecordOffset en) (ie_StoredSize en)"
    "slice (ie_RecordOffset en) (ie_StoredSize en) (content f) = ent_bytes e"
proof -
  have "(p, e) \<in> set (places logHeaderSize es)" using live_places [OF assms(2)] by simp
  note pl = places_slice [OF this length_header_bytes [symmetric], of l tail]
  show ok: "ent_ok e" using pl assms(1) by (simp add: log_holds_def)
  show "in_log l f (ie_RecordOffset en) (ie_StoredSize en)"
    using pl assms stored_ent(3) [OF ok] by (simp add: log_holds_def in_log_def log_end_def)
  show "slice (ie_RecordOffset en) (ie_StoredSize en) (content f) = ent_bytes e"
    using pl assms by (simp add: log_holds_def del: drop_append take_append)
qed

lemma log_holds_same: "log_holds l es tail f \<Longrightarrow> same_log l l' \<Longrightarrow> log_holds l' es tail f"
  by (simp add: log_holds_def same_log_simps)

lemma header_bytes_writePos [simp]: "header_bytes (l\<lparr>l_writePos := n\<rparr>) = header_bytes l"
  by (simp add: header_bytes_def)

lemma log_holds_append:
  assumes "log_holds l es tail f" "ent_ok e" "same_log (l\<lparr>l_writePos := l_writePos l + length (ent_bytes e)\<rparr>) l'"
  shows "log_holds l' (es @ [e]) tail' (f\<lparr>content := header_bytes l @ log_body es @ ent_bytes e @ tail'\<rparr>)"
  using assms(1,2) same_log_simps [OF assms(3)] by (simp add: log_holds_def)

lemma log_holds_tail:
  assumes "log_holds l es tail f" "same_log l l'"
  shows "log_holds l' es tail' (f\<lparr>content := header_bytes l @ log_body es @ tail'\<rparr>)"
  using assms(1) same_log_simps [OF assms(2)] by (simp add: log_holds_def)

lemma store_open_log:
  "store_open s p w \<Longrightarrow> l_path l = p \<Longrightarrow> unknownReadOnly l = unknownReadOnly (s_log s) \<Longrightarrow> store_open (s\<lparr>s_log := l\<rparr>) p w"
  by (simp add: store_open_def ReadOnly_def)

lemma store_inv_faults [simp]: "store_inv s p es tail (w\<lparr>faults := fs\<rparr>) = store_inv s p es tail w"
  by (simp add: store_inv_def store_open_def)

lemma store_inv_file: "store_inv s p es tail w \<Longrightarrow> \<exists>f. files w p = Some f \<and> log_holds (s_log s) es tail f"
  by (simp add: store_inv_def)

lemma store_inv_path: "store_inv s p es tail w \<Longrightarrow> l_path (s_log s) = p \<and> \<not> s_closed s"
  by (simp add: store_inv_def store_open_def)

text \<open>Counting and refilling the cache leave the invariant alone.\<close>

lemma store_inv_stats [simp]: "store_inv (s\<lparr>s_stats := st\<rparr>) p es tail w = store_inv s p es tail w"
  by (simp add: store_inv_def store_open_def coherent_def ReadOnly_def)

lemma store_inv_cache: "store_inv s p es tail w \<Longrightarrow> cache_inv c \<Longrightarrow> map_of (recency c) \<subseteq>\<^sub>m values_of es \<Longrightarrow>
    store_inv (s\<lparr>s_cache := c\<rparr>) p es tail w"
  by (simp add: store_inv_def store_open_def coherent_def ReadOnly_def)

lemma store_inv_index:
  "store_inv s p es tail w \<Longrightarrow> indexes idx es \<Longrightarrow> indexedFields idx = indexedFields (s_index s) \<Longrightarrow>
    store_inv (s\<lparr>s_index := idx\<rparr>) p es tail w"
  by (simp add: store_inv_def store_open_def coherent_def ReadOnly_def)

section \<open>Reads\<close>

text \<open>What the index entry of a key leads to: the record of its item.\<close>

lemma store_inv_entry:
  assumes "store_inv s p es tail w" "index_Get (s_index s) k = Some en"
  obtains f e where "files w (l_path (s_log s)) = Some f" "in_log (s_log s) f (ie_RecordOffset en) (ie_StoredSize en)"
    "slice (ie_RecordOffset en) (ie_StoredSize en) (content f) = ent_bytes e" "ent_ok e"
    "items_of es k = Some (item_of e)" "map_of (ie_Attributes en) = map_of (ent_attributes e)"
proof -
  obtain f where f: "files w p = Some f" "log_holds (s_log s) es tail f" using store_inv_file [OF assms(1)] by blast
  have "indexes (s_index s) es" using assms(1) by (simp add: store_inv_def)
  then obtain q e where e: "live es k = Some (q, e)" "entry_for (q, e) en" using assms(2) by (rule indexes_get)
  show ?thesis
    using that [of f e] f(1) store_inv_path [OF assms(1)] e log_holds_entry [OF f(2) e] by (simp add: items_of_def)
qed

text \<open>What no operation on an open store changes.\<close>

definition same_config :: "Store \<Rightarrow> Store \<Rightarrow> bool" where
  "same_config s s' \<longleftrightarrow> s_options s' = s_options s \<and> s_readOnlyReason s' = s_readOnlyReason s"

lemma wp_Get:
  assumes inv: "store_inv s p es tail w"
  shows "wp (Get pooled s key)
    (\<lambda>(r, s') w'. store_inv s' p es tail w' \<and> only_changes {} w w' \<and> (calm w \<longrightarrow> calm w') \<and> same_config s s' \<and> (case r of
       Inr v \<Rightarrow> values_of es key = Some v
     | Inl err \<Rightarrow> items_of es key = None \<and> errors_Is err ErrKeyNotFound \<or> \<not> calm w \<and> errors_Is err IOError))
    (\<lambda>w'. \<not> calm w \<and> only_changes {} w w') w"
proof -
  obtain hit c where hit: "cache_Get (s_cache s) key = (hit, c)" by fastforce
  have co: "cache_inv (s_cache s)" "map_of (recency (s_cache s)) \<subseteq>\<^sub>m values_of es" and closed: "\<not> s_closed s"
    and idx: "indexes (s_index s) es"
    using inv by (simp_all add: store_inv_def store_open_def coherent_def)
  have c: "map_of (recency c) \<subseteq>\<^sub>m values_of es" "cache_inv c"
    "case hit of Some v \<Rightarrow> values_of es key = Some v | None \<Rightarrow> map_of (recency (s_cache s)) key = None"
    using lru.coherent_lookup [OF co hit] by auto
  define s1 where "s1 = s\<lparr>s_cache := c\<rparr>"
  have inv1: "store_inv s1 p es tail w" unfolding s1_def by (rule store_inv_cache [OF inv c(2,1)])
  show ?thesis
  proof (cases hit)
    case (Some v)
    then show ?thesis
      using closed hit c(3) inv1 by (simp add: Get_def wp_return s1_def [symmetric] Let_def) (simp add: s1_def same_config_def)
  next
    case None
    show ?thesis
    proof (cases "index_Get (s_index s) key")
      case none: None
      then show ?thesis
        using closed hit None inv1 indexes_none [OF idx, of key]
        by (simp add: Get_def wp_return s1_def [symmetric] Let_def) (simp add: s1_def same_config_def)
    next
      case (Some en)
      obtain f e where f: "files w (l_path (s_log s)) = Some f" "in_log (s_log s) f (ie_RecordOffset en) (ie_StoredSize en)"
        "slice (ie_RecordOffset en) (ie_StoredSize en) (content f) = ent_bytes e" "ent_ok e"
        "items_of es key = Some (item_of e)"
        using store_inv_entry [OF inv Some] by metis
      have val: "values_of es key = Some (e_value e)" using f(5) by (simp add: values_of_def item_of_def)
      have fill: "store_inv (s1\<lparr>s_cache := cache_Put c key (e_value e)\<rparr>) p es tail w"
        using lru.coherent_fill [OF c(2,1) val] lru.fill_inv [OF c(2)] by (intro store_inv_cache [OF inv1])
      show ?thesis
        unfolding Get_def using closed hit None Some inv1 fill val
        by (auto simp: Let_def wp_bind wp_return f(3) stored_ent [OF f(4)] s1_def still_def same_config_def
            intro!: wp_ReadRecordAt [OF f(1,2)] split: sum.splits)
    qed
  qed
qed

section \<open>Mutations\<close>

definition synced :: "path \<Rightarrow> world \<Rightarrow> bool" where
  "synced p w \<longleftrightarrow> (\<exists>f. files w p = Some f \<and> durable f = content f)"

text \<open>The state of the file while the record \<open>e\<close> is being written behind the entries \<open>es\<close>.\<close>

definition part_written :: "appendLog \<Rightarrow> path \<Rightarrow> ent list \<Rightarrow> ent \<Rightarrow> bytes \<Rightarrow> world \<Rightarrow> bool" where
  "part_written l p es e tail w \<longleftrightarrow> (\<exists>f n. files w p = Some f \<and> n \<le> length (ent_bytes e) \<and>
     content f = header_bytes l @ log_body es @ take n (ent_bytes e) @ drop n tail)"

lemma log_Sync_open:
  assumes "\<not> l_closed l" "files w (l_path l) = Some f"
    and "\<And>fs. still w fs \<Longrightarrow> Q (Inr ()) (set_file (l_path l) (Some (f\<lparr>durable := content f\<rparr>)) (w\<lparr>faults := fs\<rparr>))"
    and "\<And>fs. \<not> calm w \<Longrightarrow> Q (Inl IOError) (w\<lparr>faults := fs\<rparr>)" "\<And>fs. \<not> calm w \<Longrightarrow> C (w\<lparr>faults := fs\<rparr>)"
  shows "wp (log_Sync l) Q C w"
  unfolding log_Sync_def file_sync_def on_handle_open [OF assms(1)] using assms(2-) by (intro wp_Sync) auto

text \<open>
  Both mutations append a record and then bring the index and the cache up to
  date (\<open>upd\<close>); with a sync interval of zero they sync the file.
\<close>

definition logged :: "Store \<Rightarrow> (nat \<times> 32 word \<times> nat \<times> nat \<Rightarrow> Store \<Rightarrow> Store) \<Rightarrow> string \<Rightarrow> string
    \<Rightarrow> (error + (nat \<times> 32 word \<times> nat \<times> nat)) \<times> appendLog \<Rightarrow> ((error + unit) \<times> Store) io" where
  "logged s upd m1 m2 = (\<lambda>(r, log). let s = s\<lparr>s_log := log\<rparr> in case r of
       Inl err \<Rightarrow> return (Inl (Wrap m1 [err]), s)
     | Inr res \<Rightarrow>
         let s = upd res s in
         if SyncInterval (s_options s) = 0 then
           bind_io (log_Sync (s_log s)) (\<lambda>r. return (wrap_result m2 r, s))
         else return (Inr (), s))"

lemma wp_logged:
  assumes inv: "store_inv s p es tail w" and rw: "\<not> ReadOnly s" and attrs: "go_map attrs" and e: "e = mk_ent key v d attrs []"
    and upd: "\<And>log w'. appendable key v attrs [] \<Longrightarrow> store_open (s\<lparr>s_log := log\<rparr>) p w' \<Longrightarrow>
      (\<exists>f. files w' p = Some f \<and> log_holds log (es @ [e]) (drop (length (ent_bytes e)) tail) f) \<Longrightarrow>
      store_inv (upd (log_end es + (20 + length key + length (e_attrs e)), of_nat (length v), log_end es, length (ent_bytes e)) (s\<lparr>s_log := log\<rparr>))
        p (es @ [e]) (drop (length (ent_bytes e)) tail) w'"
    and keep: "\<And>res log. same_config s (upd res (s\<lparr>s_log := log\<rparr>)) \<and> s_log (upd res (s\<lparr>s_log := log\<rparr>)) = log"
  shows "wp (bind_io (Append (s_log s) key v d attrs []) (logged s upd m1 m2))
    (\<lambda>(r, s') w'. only_changes {p} w w' \<and> (calm w \<longrightarrow> calm w') \<and> same_config s s' \<and> (case r of
       Inr _ \<Rightarrow> appendable key v attrs [] \<and> store_inv s' p (es @ [e]) (drop (length (ent_bytes e)) tail) w' \<and>
         (SyncInterval (s_options s) = 0 \<longrightarrow> synced p w')
     | Inl err \<Rightarrow> \<not> appendable key v attrs [] \<and> s' = s \<and> w' = w \<or>
         \<not> calm w \<and> appendable key v attrs [] \<and> (store_inv s' p (es @ [e]) (drop (length (ent_bytes e)) tail) w' \<or>
           (\<exists>n \<le> length (ent_bytes e). store_inv s' p es (take n (ent_bytes e) @ drop n tail) w'))))
    (\<lambda>w'. \<not> calm w \<and> only_changes {p} w w' \<and> appendable key v attrs [] \<and> part_written (s_log s) p es e tail w') w"
proof -
  obtain f where f: "files w p = Some f" "log_holds (s_log s) es tail f" using store_inv_file [OF inv] by blast
  have op: "store_open s p w" and path: "l_path (s_log s) = p" and ro: "unknownReadOnly (s_log s) = 0"
    using inv rw by (simp_all add: store_inv_def store_open_def)
  have l: "l_version (s_log s) = logVersion" "\<not> l_closed (s_log s)" "l_writePos (s_log s) = log_end es"
    "content f = header_bytes (s_log s) @ log_body es @ tail"
    using f(2) by (simp_all add: log_holds_def)
  show ?thesis (is "wp _ ?Q ?C w")
    unfolding wp_bind
  proof (rule wp_Append [where a = "header_bytes (s_log s) @ log_body es" and tail = tail and f = f and e = e], goal_cases)
    case (9 fs l')
    let ?res = "(log_end es + (20 + length key + length (e_attrs e)), of_nat (length v), log_end es, length (ent_bytes e))"
    let ?f = "f\<lparr>content := header_bytes (s_log s) @ log_body es @ ent_bytes e @ drop (length (ent_bytes e)) tail\<rparr>"
    let ?s = "upd ?res (s\<lparr>s_log := l'\<rparr>)"
    let ?w = "set_file p (Some ?f) (w\<lparr>faults := fs\<rparr>)"
    have l': "l_path l' = p" "unknownReadOnly l' = unknownReadOnly (s_log s)" "\<not> l_closed l'"
      using same_log_simps [OF 9(3)] path l(2) by (simp_all add: unknownReadOnly_def)
    have ok: "ent_ok e" using mk_ent_ok(1) [OF 9(2) attrs] e by simp
    note holds = log_holds_append [OF f(2) ok 9(3)]
    have put: "store_inv ?s p (es @ [e]) (drop (length (ent_bytes e)) tail) w'"
      if "files w' p = Some g" "content g = content ?f" "locked w' = locked w" for w' g
      using upd [OF 9(2), of l' w'] store_open_log [OF op l'(1,2)] that holds
      by (simp add: store_open_def log_holds_def)
    have cf: "same_config s ?s" "s_log ?s = l'" using keep by auto
    then have so: "s_options ?s = s_options s" by (simp add: same_config_def)
    have oc: "only_changes {p} w (set_file p g (w\<lparr>faults := fs\<rparr>))" for g fs by (auto simp: only_changes_def)
    have res: "(l_writePos (s_log s) + (20 + length key + length (e_attrs e)), of_nat (length v), l_writePos (s_log s), length (ent_bytes e)) = ?res"
      by (simp add: l)
    have w: "part_written (s_log s) p es e tail (set_file p (Some ?f) (w\<lparr>faults := fs\<rparr>))" for fs
      by (auto simp: part_written_def intro!: exI [of _ "length (ent_bytes e)"])
    have st: "files ?w (l_path l') = Some ?f" by (simp add: l'(1))
    have "wp (log_Sync l') (\<lambda>r. wp (return (wrap_result m2 r, ?s)) ?Q ?C) ?C ?w"
      by (rule log_Sync_open [OF l'(3) st])
        (use put cf oc 9(1,2) w in \<open>auto simp: wp_return wrap_result_def l'(1) synced_def still_def\<close>)
    then show ?case
      unfolding res path using put [of ?w ?f] cf oc 9(1,2)
      by (simp add: logged_def Let_def so wp_bind wp_return still_def)
  next
    case (10 err)
    have "s\<lparr>s_log := s_log s\<rparr> = s" by simp
    then show ?case using 10 by (simp add: logged_def Let_def wp_return same_config_def)
  next
    case (11 fs l' n)
    have "store_inv (s\<lparr>s_log := l'\<rparr>) p es (take n (ent_bytes e) @ drop n tail)
        (set_file p (Some (f\<lparr>content := header_bytes (s_log s) @ log_body es @ take n (ent_bytes e) @ drop n tail\<rparr>)) (w\<lparr>faults := fs\<rparr>))"
      using inv log_holds_tail [OF f(2) 11(3)] same_log_simps [OF 11(3)] path
      by (simp add: store_inv_def store_open_def coherent_def ReadOnly_def)
    then show ?case
      using 11 path by (auto simp: logged_def Let_def wp_return same_config_def only_changes_def)
  next
    case (12 fs n)
    then show ?case using path by (auto simp: part_written_def only_changes_def)
  qed (use f(1) path l ro attrs e in \<open>simp_all add: log_end_def\<close>)
qed

definition put_update :: "string \<Rightarrow> attributes \<Rightarrow> nat \<times> 32 word \<times> nat \<times> nat \<Rightarrow> Store \<Rightarrow> Store" where
  "put_update key attrs = (\<lambda>(offset, sz, recordOffset, storedSize) s.
     s\<lparr>s_index := index_Put key (new_entry offset sz recordOffset storedSize attrs) (s_index s),
       s_cache := cache_Remove (s_cache s) key, s_stats := (s_stats s)\<lparr>Writes := Writes (s_stats s) + 1\<rparr>\<rparr>)"

definition delete_update :: "string \<Rightarrow> nat \<times> 32 word \<times> nat \<times> nat \<Rightarrow> Store \<Rightarrow> Store" where
  "delete_update key = (\<lambda>_ s.
     s\<lparr>s_index := index_Delete key (s_index s), s_cache := cache_Remove (s_cache s) key,
       s_stats := (s_stats s)\<lparr>Deletes := Deletes (s_stats s) + 1\<rparr>\<rparr>)"

definition put_attributes :: "PutOptions option \<Rightarrow> attributes" where
  "put_attributes options = (case options of Some opts \<Rightarrow> po_Attributes opts | None \<Rightarrow> [])"

lemma Put_logged:
  assumes "\<not> s_closed s" "\<not> ReadOnly s"
  shows "Put s key v options = bind_io (Append (s_log s) key v False (put_attributes options) [])
    (logged s (put_update key (put_attributes options)) ''failed to append to log'' ''sync appended value'')"
  using assms unfolding Put_def put_attributes_def [symmetric]
  by (simp add: ReadOnly_def Let_def cong: if_cong)
    (rule arg_cong2 [where f = bind_io, OF refl ext], auto simp: logged_def put_update_def split: sum.splits)

lemma Delete_logged:
  assumes "\<not> s_closed s" "\<not> ReadOnly s" "index_Get (s_index s) key \<noteq> None"
  shows "Delete s key = bind_io (Append (s_log s) key [] True [] [])
    (logged s (delete_update key) ''failed to write tombstone'' ''sync tombstone'')"
  using assms unfolding Delete_def
  by (simp only: ReadOnly_def Let_def if_False simp_thms option.case)
    (rule arg_cong2 [where f = bind_io, OF refl ext], auto simp: logged_def delete_update_def split: sum.splits)

lemma coherent_remove:
  assumes "coherent s es" "key = ent_key e"
  shows "cache_inv (cache_Remove (s_cache s) key)" "map_of (recency (cache_Remove (s_cache s) key)) \<subseteq>\<^sub>m values_of (es @ [e])"
  using assms lru.remove_inv lru.coherent_write by (auto simp: coherent_def values_of_snoc)

lemma put_update_inv:
  assumes "store_inv s p es tail w" "appendable key v attrs []" "go_map attrs" "e = mk_ent key v False attrs []"
    and "store_open (s\<lparr>s_log := l\<rparr>) p w'" "\<exists>f. files w' p = Some f \<and> log_holds l (es @ [e]) tail' f"
  shows "store_inv (put_update key attrs (log_end es + (20 + length key + length (e_attrs e)), of_nat (length v), log_end es, length (ent_bytes e))
      (s\<lparr>s_log := l\<rparr>)) p (es @ [e]) tail' w'"
proof -
  have e: "ent_key e = key" "\<not> ent_deleted e" using assms(4) by simp_all
  have "indexes (s_index s) es" "coherent s es" using assms(1) by (simp_all add: store_inv_def)
  note idx = indexes_put [OF this(1) entry_for_mk_ent [OF assms(2-4)] _ e(2)] and co = coherent_remove [OF this(2), of key e]
  have "index_inv (s_index s)" using assms(1) by (simp add: store_inv_def indexes_def)
  then show ?thesis
    using assms(3,5,6) idx co e(1)
    by (simp add: store_inv_def put_update_def store_open_def coherent_def ReadOnly_def index_Put_spec new_entry_def)
qed

lemma delete_update_inv:
  assumes "store_inv s p es tail w" "e = mk_ent key [] True [] []"
    and "store_open (s\<lparr>s_log := l\<rparr>) p w'" "\<exists>f. files w' p = Some f \<and> log_holds l (es @ [e]) tail' f"
  shows "store_inv (delete_update key res (s\<lparr>s_log := l\<rparr>)) p (es @ [e]) tail' w'"
proof -
  have e: "ent_key e = key" "ent_deleted e" using assms(2) by simp_all
  have "indexes (s_index s) es" "coherent s es" using assms(1) by (simp_all add: store_inv_def)
  note idx = indexes_delete [OF this(1) e(2)] and co = coherent_remove [OF this(2), of key e]
  have "index_inv (s_index s)" using assms(1) by (simp add: store_inv_def indexes_def)
  then show ?thesis
    using assms(3,4) idx co e(1)
    by (simp add: store_inv_def delete_update_def store_open_def coherent_def ReadOnly_def index_Delete_spec)
qed

lemma update_keeps:
  "same_config s (put_update key attrs res (s\<lparr>s_log := l\<rparr>)) \<and> s_log (put_update key attrs res (s\<lparr>s_log := l\<rparr>)) = l"
  "same_config s (delete_update key res (s\<lparr>s_log := l\<rparr>)) \<and> s_log (delete_update key res (s\<lparr>s_log := l\<rparr>)) = l"
  by (cases res; simp add: put_update_def delete_update_def same_config_def)+

text \<open>
  The outcome of a mutation that appends the entry \<open>e\<close>: it succeeds, it is
  refused before anything is written, or a call fails, and then the store holds
  either the entries before or those after it.
\<close>

definition mutated :: "Store \<Rightarrow> path \<Rightarrow> ent list \<Rightarrow> ent \<Rightarrow> bytes \<Rightarrow> (error \<Rightarrow> bool) \<Rightarrow> world \<Rightarrow> (error + unit) \<times> Store \<Rightarrow> world \<Rightarrow> bool" where
  "mutated s p es e tail refused w = (\<lambda>(r, s') w'. only_changes {p} w w' \<and> (calm w \<longrightarrow> calm w') \<and> same_config s s' \<and> (case r of
       Inr _ \<Rightarrow> store_inv s' p (es @ [e]) (drop (length (ent_bytes e)) tail) w' \<and>
         (SyncInterval (s_options s) = 0 \<longrightarrow> synced p w') \<and> (\<forall>err. \<not> refused err)
     | Inl err \<Rightarrow> refused err \<and> s' = s \<and> w' = w \<or>
         \<not> calm w \<and> ent_ok e \<and> (\<forall>err. \<not> refused err) \<and> (store_inv s' p (es @ [e]) (drop (length (ent_bytes e)) tail) w' \<or>
           (\<exists>n \<le> length (ent_bytes e). store_inv s' p es (take n (ent_bytes e) @ drop n tail) w'))))"

definition put_refused :: "Store \<Rightarrow> string \<Rightarrow> bytes \<Rightarrow> attributes \<Rightarrow> error \<Rightarrow> bool" where
  "put_refused s key v attrs err \<longleftrightarrow> ReadOnly s \<and> errors_Is err ErrReadOnly \<or> \<not> ReadOnly s \<and> \<not> appendable key v attrs []"

definition delete_refused :: "Store \<Rightarrow> db \<Rightarrow> string \<Rightarrow> error \<Rightarrow> bool" where
  "delete_refused s db key err \<longleftrightarrow> ReadOnly s \<and> errors_Is err ErrReadOnly \<or>
     \<not> ReadOnly s \<and> db key = None \<and> errors_Is err ErrKeyNotFound"

lemma read_only_reason:
  assumes "store_inv s p es tail w" "ReadOnly s"
  obtains err where "s_readOnlyReason s = Some err" "errors_Is err ErrReadOnly"
  using assms by (auto simp: ReadOnly_def store_inv_def store_open_def)

lemma wp_Put:
  assumes inv: "store_inv s p es tail w" and attrs: "go_map (put_attributes options)"
    and e: "e = mk_ent key v False (put_attributes options) []"
  shows "wp (Put s key v options) (mutated s p es e tail (put_refused s key v (put_attributes options)) w)
    (\<lambda>w'. \<not> calm w \<and> only_changes {p} w w' \<and> ent_ok e \<and> part_written (s_log s) p es e tail w') w"
proof (cases "ReadOnly s")
  case True
  obtain err where "s_readOnlyReason s = Some err" "errors_Is err ErrReadOnly" using inv True by (rule read_only_reason)
  then show ?thesis using store_inv_path [OF inv] True
    by (simp add: Put_def wp_return mutated_def put_refused_def same_config_def)
next
  case False
  note wp = wp_logged [where upd = "put_update key (put_attributes options)", OF inv False attrs e put_update_inv [OF inv _ attrs e] update_keeps(1)]
  show ?thesis
    unfolding Put_logged [OF conjunct2 [OF store_inv_path [OF inv]] False]
    by (rule wp_mono [OF wp]) (use False mk_ent_ok(1) [OF _ attrs] e in \<open>auto simp: mutated_def put_refused_def split: sum.splits\<close>)
qed

lemma wp_Delete:
  assumes inv: "store_inv s p es tail w" and e: "e = mk_ent key [] True [] []"
  shows "wp (Delete s key) (mutated s p es e tail (delete_refused s (items_of es) key) w)
    (\<lambda>w'. \<not> calm w \<and> only_changes {p} w w' \<and> ent_ok e \<and> part_written (s_log s) p es e tail w') w"
proof -
  have idx: "indexes (s_index s) es" using inv by (simp add: store_inv_def)
  note none = indexes_none [OF idx, of key]
  consider "ReadOnly s" | "\<not> ReadOnly s" "items_of es key = None" | "\<not> ReadOnly s" "items_of es key \<noteq> None" by blast
  then show ?thesis
  proof cases
    case 1
    obtain err where "s_readOnlyReason s = Some err" "errors_Is err ErrReadOnly" using inv 1 by (rule read_only_reason)
    then show ?thesis using store_inv_path [OF inv] 1
      by (simp add: Delete_def wp_return mutated_def delete_refused_def same_config_def)
  next
    case 2
    then show ?thesis using store_inv_path [OF inv] none
      by (simp add: Delete_def ReadOnly_def wp_return mutated_def delete_refused_def same_config_def)
  next
    case 3
    then obtain en where "index_Get (s_index s) key = Some en" using none by fastforce
    then obtain q e' where "live es key = Some (q, e')" "entry_for (q, e') en" using idx by (metis indexes_get)
    then have "ent_ok e'" "ent_key e' = key" using log_holds_entry(1) store_inv_file [OF inv] live_places by fastforce+
    then have "appendable key [] [] []"
      by (auto simp: appendable_def ent_ok_def record_fits_def ent_key_def valid_attributes_def attr_size_def limits
          validateExtensions_def validateExtensions_from.simps)
    then have ok: "ent_ok e" using mk_ent_ok(1) [of key "[]" "[]" "[]"] e by simp
    note wp = wp_logged [where upd = "delete_update key", OF inv 3(1) _ e delete_update_inv [OF inv e] update_keeps(2)]
    have none': "index_Get (s_index s) key \<noteq> None" using 3(2) none by simp
    show ?thesis
      unfolding Delete_logged [OF conjunct2 [OF store_inv_path [OF inv]] 3(1) none']
      by (rule wp_mono [OF wp]) (use 3 ok \<open>appendable key [] [] []\<close> in \<open>auto simp: mutated_def delete_refused_def split: sum.splits\<close>)
  qed
qed

section \<open>Scans and queries\<close>

text \<open>
  The rule for the loop of \<^verbatim>\<open>ForEach\<close>. \<open>J ks t s w\<close> holds when the keys \<open>ks\<close> are
  still to be visited; the visitor and whatever runs in between may change the
  store, as long as it stays a store. Each key that is then present is visited
  with the value that it has at that moment.
\<close>

lemma wp_forEach_loop:
  assumes J: "J ks t s w"
    and st: "\<And>ks t s w. J ks t s w \<Longrightarrow> \<exists>es tail. store_inv s p es tail w"
    and quiet: "\<And>ks t s w fs st. J ks t s w \<Longrightarrow> still w fs \<Longrightarrow> J ks t (s\<lparr>s_stats := st\<rparr>) (w\<lparr>faults := fs\<rparr>)"
    and skip: "\<And>k ks t s w es tail. J (k # ks) t s w \<Longrightarrow> store_inv s p es tail w \<Longrightarrow> values_of es k = None \<Longrightarrow> J ks t s w"
    and visit: "\<And>k ks t s w es tail v. J (k # ks) t s w \<Longrightarrow> store_inv s p es tail w \<Longrightarrow> values_of es k = Some v \<Longrightarrow>
      wp (fn k v t s) (\<lambda>(e, t', s') w'. case e of None \<Rightarrow> J ks t' s' w' | Some err \<Rightarrow> Q (Some err, t', s') w') C w"
    and fin: "\<And>t s w. J [] t s w \<Longrightarrow> Q (None, t, s) w"
    and bad: "\<And>ks t s w fs err. J ks t s w \<Longrightarrow> \<not> calm w \<Longrightarrow> Q (Some err, t, s) (w\<lparr>faults := fs\<rparr>)"
    and crash: "\<And>ks t s w fs. J ks t s w \<Longrightarrow> \<not> calm w \<Longrightarrow> C (w\<lparr>faults := fs\<rparr>)"
  shows "wp (forEach_loop fn ks scratch t s) Q C w"
  using J
proof (induction ks arbitrary: scratch t s w)
  case Nil
  then show ?case by (simp add: wp_return fin)
next
  case (Cons k ks)
  obtain es tail where inv: "store_inv s p es tail w" using st [OF Cons.prems] by blast
  then have idx: "indexes (s_index s) es" by (simp add: store_inv_def)
  show ?case
  proof (cases "index_Get (s_index s) k")
    case None
    then have "values_of es k = None" using indexes_none [OF idx] by (simp add: values_of_def)
    then show ?thesis using Cons.IH skip [OF Cons.prems inv] None by simp
  next
    case (Some en)
    obtain f e where f: "files w (l_path (s_log s)) = Some f" "in_log (s_log s) f (ie_RecordOffset en) (ie_StoredSize en)"
      "slice (ie_RecordOffset en) (ie_StoredSize en) (content f) = ent_bytes e" "ent_ok e" "items_of es k = Some (item_of e)"
      using store_inv_entry [OF inv Some] by metis
    have val: "values_of es k = Some (e_value e)" using f(5) by (simp add: values_of_def item_of_def)
    have "wp (fn k (e_value e) t (s\<lparr>s_stats := st\<rparr>)) (\<lambda>x. wp (case x of (er, t, s) \<Rightarrow> case er of
          Some err \<Rightarrow> return (Some err, t, s) | None \<Rightarrow> forEach_loop fn ks scratch' t s) Q C) C (w\<lparr>faults := fs\<rparr>)"
      if "still w fs" for st fs scratch'
    proof (rule wp_mono [OF visit [OF quiet [OF Cons.prems that, of st], of es tail "e_value e"]])
      show "store_inv (s\<lparr>s_stats := st\<rparr>) p es tail (w\<lparr>faults := fs\<rparr>)" using inv by simp
    qed (use val Cons.IH in \<open>auto simp: wp_return split: option.splits\<close>)
    then show ?thesis
      using Some bad [OF Cons.prems] crash [OF Cons.prems]
      by (auto simp: wp_bind wp_return Let_def f(3) stored_ent [OF f(4)] intro!: wp_ReadRecordAtInto [OF f(1,2)])
  qed
qed

text \<open>The queries answer from the index.\<close>

lemma index_keys: "index_inv idx \<Longrightarrow> set (index_Keys idx) = dom (index_Get idx) \<and> distinct (index_Keys idx)"
  by (simp add: index_Keys_def index_Get_def [abs_def] dom_map_of_conv_image_fst index_inv_def)

lemma indexes_dom: "indexes idx es \<Longrightarrow> dom (index_Get idx) = dom (items_of es)"
  by (simp add: dom_def indexes_none)

lemma indexes_attrs:
  assumes "indexes idx es"
  shows "(\<exists>en. index_Get idx k = Some en \<and> map_of (ie_Attributes en) f = Some v) \<longleftrightarrow>
    (\<exists>it. items_of es k = Some it \<and> it_attrs it f = Some v)"
proof (cases "index_Get idx k")
  case None
  then show ?thesis using indexes_none [OF assms, of k] by (simp add: None)
next
  case (Some en)
  then obtain p e where "live es k = Some (p, e)" "entry_for (p, e) en" using assms by (metis indexes_get)
  then show ?thesis using Some by (simp add: items_of_def item_of_def)
qed

end
