(* ===== verification/Compaction.thy ===== *)
theory Compaction
  imports StoreInv
begin

text \<open>
  Compaction (\<^verbatim>\<open>Compact\<close> of \<^verbatim>\<open>store.go\<close>) and its correctness: the live records are
  copied to a new log, which then replaces the old one through two renames. The
  result holds the same items; at every point at which the process can die the
  database can be recovered, with the one exception stated below (two renames
  fail and the process goes on).
\<close>

section \<open>Definitions\<close>

text \<open>Removing the leftovers of an earlier attempt and creating the new log.\<close>

definition compact_prepare :: "path \<Rightarrow> (error + appendLog) io" where
  "compact_prepare oldPath =
     (let newLogPath = oldPath @ compactionTempSuffix;
          readyPath = oldPath @ compactionReadySuffix;
          backupPath = oldPath @ compactionBackupSuffix in
      try_io (removeIfExists newLogPath) (\<lambda>_.
      try_io (removeIfExists readyPath) (\<lambda>_.
      try_io (removeIfExists backupPath) (\<lambda>_.
      try_io (wrap_error ''failed to stat log before compaction'' (os_Stat oldPath)) (\<lambda>(_, mode).
      wrap_error ''failed to create compaction log'' (createAppendLogMode newLogPath mode))))))"

text \<open>The value and the extensions of a live record, read from the old log.\<close>

definition read_live :: "appendLog \<Rightarrow> indexEntry \<Rightarrow> (error + (bytes \<times> bytes)) io" where
  "read_live l entry =
     (if l_version l \<ge> 4 then ReadRecordAndExtensionsAt l (ie_RecordOffset entry) (ie_StoredSize entry)
      else try_io (ReadAt l (ie_Offset entry) (ie_Size entry)) (\<lambda>value. return (Inr (value, []))))"

fun compact_copy :: "appendLog \<Rightarrow> index \<Rightarrow> string list \<Rightarrow> appendLog \<Rightarrow> index \<Rightarrow> ((error + unit) \<times> appendLog \<times> index) io" where
  "compact_copy l idx [] newLog newIdx = return (Inr (), newLog, newIdx)"
| "compact_copy l idx (key # keys) newLog newIdx = (case index_Get idx key of
       None \<Rightarrow> compact_copy l idx keys newLog newIdx
     | Some entry \<Rightarrow>
         bind_io (read_live l entry) (\<lambda>r. case r of
           Inl err \<Rightarrow> return (Inl (Wrap ''failed to read during compaction'' [err]), newLog, newIdx)
         | Inr (value, extensions) \<Rightarrow>
             bind_io (Append newLog key value False (ie_Attributes entry) extensions) (\<lambda>(r, newLog). case r of
               Inl err \<Rightarrow> return (Inl (Wrap ''failed to write during compaction'' [err]), newLog, newIdx)
             | Inr (offset, sz, recordOffset, storedSize) \<Rightarrow>
                 compact_copy l idx keys newLog
                   (index_Put key (new_entry offset sz recordOffset storedSize (ie_Attributes entry)) newIdx))))"

text \<open>\<^verbatim>\<open>_ = newLog.Close(); _ = os.Remove(newLogPath)\<close> before an error is returned.\<close>

definition abandon :: "appendLog \<Rightarrow> error \<Rightarrow> (error + 'a) io" where
  "abandon newLog err =
     bind_io (log_Close newLog) (\<lambda>_. ignore_io (os_Remove (l_path newLog)) (return (Inl err)))"

text \<open>Making the new log durable and giving it the name from which it can be installed.\<close>

definition compact_seal :: "path \<Rightarrow> appendLog \<Rightarrow> (error + unit) io" where
  "compact_seal oldPath newLog =
     (let newLogPath = oldPath @ compactionTempSuffix;
          readyPath = oldPath @ compactionReadySuffix in
      bind_io (log_Sync newLog) (\<lambda>r. case r of
        Inl err \<Rightarrow> abandon newLog (Wrap ''failed to sync compaction log'' [err])
      | Inr _ \<Rightarrow>
      bind_io (log_Close newLog) (\<lambda>(r, _). case r of
        Inl err \<Rightarrow> ignore_io (os_Remove newLogPath) (return (Inl (Wrap ''failed to close compaction log'' [err])))
      | Inr _ \<Rightarrow>
      bind_io (os_Rename newLogPath readyPath) (\<lambda>r. case r of
        Inl err \<Rightarrow> ignore_io (os_Remove newLogPath) (return (Inl (Wrap ''failed to prepare compaction log'' [err])))
      | Inr _ \<Rightarrow>
      bind_io (syncParentDirectory oldPath) (\<lambda>r. case r of
        Inl err \<Rightarrow> ignore_io (os_Remove readyPath) (return (Inl (Wrap ''failed to sync prepared compaction log'' [err])))
      | Inr _ \<Rightarrow> return (Inr ()))))))"

definition reopen :: "path \<Rightarrow> Store \<Rightarrow> ((error + unit) \<times> Store) io" where
  "reopen oldPath s = bind_io (openAppendLogFile oldPath) (\<lambda>r. return (case r of
       Inl reopenErr \<Rightarrow> (Inl reopenErr, s)
     | Inr reopened \<Rightarrow> (Inr (), s\<lparr>s_log := reopened\<rparr>)))"

text \<open>The end of the replacement, with the new log in its place and the old one under the backup name.\<close>

definition compact_finish :: "path \<Rightarrow> Store \<Rightarrow> index \<Rightarrow> ((error + unit) \<times> Store) io" where
  "compact_finish oldPath s newIdx =
     (let backupPath = oldPath @ compactionBackupSuffix in
      bind_io (openAppendLogFile oldPath) (\<lambda>r. case r of
        Inl err \<Rightarrow>
          bind_io (os_Remove oldPath) (\<lambda>removeErr.
          bind_io (os_Rename backupPath oldPath) (\<lambda>restoreErr.
          bind_io (reopen oldPath s) (\<lambda>(reopenErr, s).
          return (errors_Join [Inl (Wrap ''failed to reopen compacted log'' [err]), removeErr, restoreErr, reopenErr], s))))
      | Inr reopened \<Rightarrow>
          let s = s\<lparr>s_log := reopened, s_index := newIdx, s_cache := cache_Clear (s_cache s)\<rparr> in
          bind_io (removeIfExists backupPath) (\<lambda>r. case r of
            Inl err \<Rightarrow> return (Inl err, s)
          | Inr _ \<Rightarrow>
          bind_io (syncParentDirectory oldPath) (\<lambda>r. case r of
            Inl err \<Rightarrow> return (Inl (Wrap ''failed to sync compacted log replacement'' [err]), s)
          | Inr _ \<Rightarrow>
              return (Inr (), s\<lparr>s_stats := (s_stats s)\<lparr>Compactions := Compactions (s_stats s) + 1\<rparr>\<rparr>)))))"

definition compact_install :: "path \<Rightarrow> Store \<Rightarrow> index \<Rightarrow> ((error + unit) \<times> Store) io" where
  "compact_install oldPath s newIdx =
     (let readyPath = oldPath @ compactionReadySuffix;
          backupPath = oldPath @ compactionBackupSuffix in
      bind_io (log_Close (s_log s)) (\<lambda>(r, oldLog).
      let s = s\<lparr>s_log := oldLog\<rparr> in
      case r of
        Inl err \<Rightarrow>
          bind_io (reopen oldPath s) (\<lambda>(reopenErr, s).
          ignore_io (os_Remove readyPath)
            (return (errors_Join [Inl (Wrap ''failed to close old log during compaction'' [err]), reopenErr], s)))
      | Inr _ \<Rightarrow>
      bind_io (os_Rename oldPath backupPath) (\<lambda>r. case r of
        Inl err \<Rightarrow>
          bind_io (reopen oldPath s) (\<lambda>(reopenErr, s).
          ignore_io (os_Remove readyPath)
            (return (errors_Join [Inl (Wrap ''failed to back up old log'' [err]), reopenErr], s)))
      | Inr _ \<Rightarrow>
      bind_io (os_Rename readyPath oldPath) (\<lambda>r. case r of
        Inl err \<Rightarrow>
          bind_io (os_Rename backupPath oldPath) (\<lambda>restoreErr.
          bind_io (reopen oldPath s) (\<lambda>(reopenErr, s).
          return (errors_Join [Inl (Wrap ''failed to install compacted log'' [err]), restoreErr, reopenErr], s)))
      | Inr _ \<Rightarrow> compact_finish oldPath s newIdx))))"

text \<open>The part of \<^verbatim>\<open>Compact\<close> that runs with the mutex held.\<close>

definition compact_locked :: "Store \<Rightarrow> ((error + unit) \<times> Store) io" where
  "compact_locked s =
     (let oldPath = l_path (s_log s) in
      bind_io (compact_prepare oldPath) (\<lambda>r. case r of
        Inl err \<Rightarrow> return (Inl err, s)
      | Inr newLog \<Rightarrow>
          let (keys, idx) = KeysSortedByOffset (s_index s); s = s\<lparr>s_index := idx\<rparr> in
          bind_io (compact_copy (s_log s) idx keys newLog (newIndex (IndexedFields (s_options s)))) (\<lambda>(r, newLog, newIdx).
          case r of
            Inl err \<Rightarrow> bind_io (abandon newLog err) (\<lambda>r. return (r, s))
          | Inr _ \<Rightarrow>
              bind_io (compact_seal oldPath newLog) (\<lambda>r. case r of
                Inl err \<Rightarrow> return (Inl err, s)
              | Inr _ \<Rightarrow> compact_install oldPath s newIdx))))"

definition Compact :: "Store \<Rightarrow> ((error + unit) \<times> Store) io" where
  "Compact s =
     (if s_closed s then return (Inl ErrStoreClosed, s)
      else case s_readOnlyReason s of Some reason \<Rightarrow> return (Inl reason, s) | None \<Rightarrow>
      if s_compacting s then return (Inl ErrCompactionInProgress, s)
      else bind_io (compact_locked (s\<lparr>s_compacting := True\<rparr>)) (\<lambda>(r, s). return (r, s\<lparr>s_compacting := False\<rparr>)))"

section \<open>What the old log offers\<close>

text \<open>
  Compaction reads the old log only through the index, in the same way for all
  versions of the format: every live entry can be read, and what it gives can be
  appended to a log of the current format.
\<close>

definition readable :: "appendLog \<Rightarrow> os_file \<Rightarrow> indexEntry \<Rightarrow> bytes \<Rightarrow> bytes \<Rightarrow> bool" where
  "readable l f en v x \<longleftrightarrow> \<not> l_closed l \<and>
     (if l_version l \<ge> 4 then in_log l f (ie_RecordOffset en) (ie_StoredSize en) \<and>
        stored_parts (slice (ie_RecordOffset en) (ie_StoredSize en) (content f)) = Inr (v, x)
      else x = [] \<and> \<not> sint (ie_Size en) < 0 \<and> ie_Offset en + unat (ie_Size en) \<le> length (content f) \<and>
        v = slice (ie_Offset en) (unat (ie_Size en)) (content f))"

definition gives :: "appendLog \<Rightarrow> os_file \<Rightarrow> string \<Rightarrow> indexEntry \<Rightarrow> item \<Rightarrow> bool" where
  "gives l f k en it \<longleftrightarrow> readable l f en (it_value it) (it_ext it) \<and>
     map_of (ie_Attributes en) = it_attrs it \<and> appendable k (it_value it) (ie_Attributes en) (it_ext it)"

definition offers :: "appendLog \<Rightarrow> index \<Rightarrow> os_file \<Rightarrow> db \<Rightarrow> bool" where
  "offers l idx f db \<longleftrightarrow> index_inv idx \<and> (\<forall>k. rel_option (gives l f k) (index_Get idx k) (db k))"

lemma wp_read_live:
  assumes "files w (l_path l) = Some f" "readable l f en v x"
    and "\<And>fs. still w fs \<Longrightarrow> Q (Inr (v, x)) (w\<lparr>faults := fs\<rparr>)"
    and "\<And>fs. \<not> calm w \<Longrightarrow> Q (Inl IOError) (w\<lparr>faults := fs\<rparr>)" "\<And>fs. \<not> calm w \<Longrightarrow> C (w\<lparr>faults := fs\<rparr>)"
  shows "wp (read_live l en) Q C w"
proof (cases "l_version l \<ge> 4")
  case True
  then show ?thesis
    using assms unfolding read_live_def readable_def by (auto intro!: wp_ReadRecordAndExtensionsAt)
next
  case False
  then show ?thesis
    using assms unfolding read_live_def readable_def ReadAt_def
    by (auto simp: wp_try wp_return intro!: wp_ReadAt)
qed

lemma offers_sorted: "offers l idx f db \<Longrightarrow> offers l (snd (KeysSortedByOffset idx)) f db"
  by (simp add: offers_def KeysSortedByOffset_spec)

lemma rel_option_None: "rel_option R x y \<Longrightarrow> x = None \<longleftrightarrow> y = None"
  by (cases x; cases y) simp_all

lemma offers_dom: "offers l idx f db \<Longrightarrow> dom (index_Get idx) = dom db"
proof -
  assume "offers l idx f db"
  then have "index_Get idx k = None \<longleftrightarrow> db k = None" for k
    unfolding offers_def using rel_option_None [of "gives l f k"] by blast
  then show ?thesis by (simp add: dom_def)
qed

lemma offers_get:
  assumes "offers l idx f db" "index_Get idx k = Some en"
  obtains it where "db k = Some it" "gives l f k en it" "go_map (ie_Attributes en)"
proof -
  have "rel_option (gives l f k) (Some en) (db k)" using assms by (metis offers_def)
  moreover have "go_map (ie_Attributes en)" using assms(1) index_inv_attrs [OF _ assms(2)] by (simp add: offers_def)
  ultimately show ?thesis using that by (auto simp: option_rel_Some1)
qed

text \<open>A log of the current format offers its items.\<close>

lemma valid_attributes_set:
  assumes "go_map m" "go_map m'" "map_of m = map_of m'"
  shows "valid_attributes m = valid_attributes m'"
proof -
  have "set m = set m'" using assms go_map_eq_iff by blast
  moreover have "mset m = mset m'"
    using assms(1,2) calculation by (metis distinct_map set_eq_iff_mset_eq_distinct)
  then have "length m = length m'" "attr_size m = attr_size m'"
    by (auto simp: attr_size_def dest: mset_eq_length simp flip: sum_mset_sum_list)
  ultimately show ?thesis by (simp add: valid_attributes_def)
qed

lemma ent_attributes_valid:
  assumes "ent_ok e"
  shows "go_map (ent_attributes e)" "valid_attributes (ent_attributes e)"
proof -
  have d: "decodeAttributes (e_attrs e) = Inr (ent_attributes e)" and "length (e_attrs e) \<le> maxAttributesSize"
    using assms by (simp_all add: ent_ok_def record_fits_def)
  then show "go_map (ent_attributes e)" "valid_attributes (ent_attributes e)"
    by (auto simp: decodeAttributes_Inr_iff valid_attributes_def entry_ok_def length_attr_block)
qed

lemma ents_offer:
  assumes f: "content f = h @ log_body es @ tail" "length h = logHeaderSize" "\<forall>e \<in> set es. ent_ok e"
    and l: "\<not> l_closed l" "4 \<le> l_version l" "l_writePos l = log_end es" and idx: "indexes idx es"
  shows "offers l idx f (items_of es)"
proof -
  have iv: "index_inv idx" using idx by (simp add: indexes_def)
  have "rel_option (gives l f k) (index_Get idx k) (items_of es k)" for k
  proof (cases "index_Get idx k")
    case None
    then show ?thesis using indexes_none [OF idx, of k] by simp
  next
    case (Some en)
    obtain q e where e: "live es k = Some (q, e)" "entry_for (q, e) en" using idx Some by (rule indexes_get)
    have "(q, e) \<in> set (places logHeaderSize es)" "ent_key e = k" "\<not> ent_deleted e" using live_places [OF e(1)] by simp_all
    note pl = places_slice [OF this(1) f(2) [symmetric], of tail] and key = this(2,3)
    have ok: "ent_ok e" using pl f(3) by blast
    have gm: "go_map (ie_Attributes en)" using index_inv_attrs [OF iv Some] .
    have "valid_attributes (ie_Attributes en)"
      using valid_attributes_set [OF gm ent_attributes_valid(1) [OF ok]] ent_attributes_valid(2) [OF ok] e(2) by simp
    then have "appendable k (e_value e) (ie_Attributes en) (e_ext e)"
      using ok key by (auto simp: appendable_def ent_ok_def record_fits_def ent_key_def)
    moreover have "in_log l f (ie_RecordOffset en) (ie_StoredSize en)"
      using pl e(2) l stored_ent(3) [OF ok] f(1,2) by (simp add: in_log_def log_end_def)
    moreover have "slice (ie_RecordOffset en) (ie_StoredSize en) (content f) = ent_bytes e"
      using pl e(2) f(1) by (simp del: drop_append take_append)
    ultimately show ?thesis
      using e l stored_ent(2) [OF ok] by (simp add: Some items_of_def item_of_def gives_def readable_def)
  qed
  then show ?thesis using iv by (simp add: offers_def)
qed

lemma store_inv_offers:
  assumes inv: "store_inv s p es tail w" and f: "files w p = Some f"
  shows "offers (s_log s) (s_index s) f (items_of es)"
proof -
  have "log_holds (s_log s) es tail f" using store_inv_file [OF inv] f by simp
  moreover have "indexes (s_index s) es" using inv by (simp add: store_inv_def)
  ultimately show ?thesis
    by (intro ents_offer [where h = "header_bytes (s_log s)" and tail = tail]) (simp_all add: log_holds_def logVersion_def)
qed

section \<open>Copying the live records\<close>

definition copies :: "index \<Rightarrow> db \<Rightarrow> string list \<Rightarrow> ent list" where
  "copies idx db keys = map (\<lambda>k. mk_ent k (it_value (the (db k))) False (ie_Attributes (the (index_Get idx k))) (it_ext (the (db k)))) keys"

lemma items_of_copies:
  assumes "offers l idx f db" "set keys \<subseteq> dom db"
  shows "items_of (copies idx db keys) = db |` set keys"
  using assms(2)
proof (induction keys rule: rev_induct)
  case (snoc k keys)
  then have "k \<in> dom (index_Get idx)" using offers_dom [OF assms(1)] by simp
  then obtain en where en: "index_Get idx k = Some en" by blast
  obtain it where it: "db k = Some it" "gives l f k en it" "go_map (ie_Attributes en)" using assms(1) en by (rule offers_get)
  have "item_of (mk_ent k (it_value it) False (ie_Attributes en) (it_ext it)) = it"
    using item_of_mk_ent [of k "it_value it" "ie_Attributes en" "it_ext it"] it by (simp add: gives_def)
  then show ?case
    using snoc it(1) en by (auto simp: copies_def items_of_snoc restrict_map_def fun_eq_iff)
qed (simp add: copies_def)

text \<open>Appending a live record to a whole log.\<close>

lemma wp_Append_live:
  assumes l: "log_holds l es [] g" "files w (l_path l) = Some g" "unknownReadOnly l = 0"
    and e: "appendable k v attrs x" "go_map attrs" "e = mk_ent k v False attrs x"
    and good: "\<And>fs l' g'. still w fs \<Longrightarrow> same_log (l\<lparr>l_writePos := l_writePos l + length (ent_bytes e)\<rparr>) l' \<Longrightarrow> log_holds l' (es @ [e]) [] g' \<Longrightarrow>
      Q (Inr (log_end es + (20 + length k + length (e_attrs e)), of_nat (length v), log_end es, length (ent_bytes e)), l')
        (set_file (l_path l) (Some g') (w\<lparr>faults := fs\<rparr>))"
    and bad: "\<And>fs l' g'. \<not> calm w \<Longrightarrow> same_log l l' \<Longrightarrow> Q (Inl IOError, l') (set_file (l_path l) (Some g') (w\<lparr>faults := fs\<rparr>))"
    and crash: "\<And>fs g'. \<not> calm w \<Longrightarrow> C (set_file (l_path l) (Some g') (w\<lparr>faults := fs\<rparr>))"
  shows "wp (Append l k v False attrs x) Q C w"
proof -
  have h: "l_version l = logVersion" "\<not> l_closed l" "l_writePos l = log_end es" "content g = header_bytes l @ log_body es"
    using l(1) by (simp_all add: log_holds_def)
  have ok: "ent_ok e" using mk_ent_ok(1) [OF e(1,2)] e(3) by simp
  show ?thesis
  proof (rule wp_Append [where a = "header_bytes l @ log_body es" and tail = "[]" and f = g and e = e], goal_cases)
    case (9 fs l')
    then show ?case using good [OF 9(1,3) log_holds_append [OF l(1) ok 9(3), of "[]"]] by (simp add: h(3))
  qed (use h l e bad crash in \<open>simp_all add: log_end_def\<close>)
qed

lemma wp_compact_copy:
  assumes "files w (l_path l) = Some f" "offers l idx f db" "l_path l \<noteq> np"
    and "files w np = Some g" "log_holds nl es [] g" "l_path nl = np" "unknownReadOnly nl = 0" "indexes nidx es"
    and "set keys \<subseteq> dom db"
  shows "wp (compact_copy l idx keys nl nidx)
    (\<lambda>(r, nl', nidx') w'. only_changes {np} w w' \<and> (calm w \<longrightarrow> calm w') \<and> l_path nl' = np \<and> \<not> l_closed nl' \<and> (case r of
       Inl _ \<Rightarrow> \<not> calm w
     | Inr _ \<Rightarrow> (\<exists>g'. files w' np = Some g' \<and> log_holds nl' (es @ copies idx db keys) [] g') \<and>
         indexes nidx' (es @ copies idx db keys) \<and> unknownReadOnly nl' = 0 \<and> indexedFields nidx' = indexedFields nidx))
    (\<lambda>w'. \<not> calm w \<and> only_changes {np} w w') w"
  using assms(1,4-)
proof (induction keys arbitrary: w g nl es nidx)
  case Nil
  then show ?case by (auto simp: wp_return copies_def log_holds_def)
next
  case (Cons k keys)
  have "k \<in> dom (index_Get idx)" using offers_dom [OF assms(2)] Cons.prems by simp
  then obtain en where en: "index_Get idx k = Some en" by blast
  obtain it where it: "db k = Some it" "gives l f k en it" and gm: "go_map (ie_Attributes en)"
    using assms(2) en by (rule offers_get)
  have rd: "readable l f en (it_value it) (it_ext it)" and ap: "appendable k (it_value it) (ie_Attributes en) (it_ext it)"
    using it(2) by (simp_all add: gives_def)
  define e where "e = mk_ent k (it_value it) False (ie_Attributes en) (it_ext it)"
  have cp: "copies idx db (k # keys) = e # copies idx db keys" by (simp add: copies_def it en e_def)
  have nl: "\<not> l_closed nl" using Cons.prems(3) by (simp add: log_holds_def)
  let ?en = "new_entry (log_end es + (20 + length k + length (e_attrs e))) (of_nat (length (it_value it))) (log_end es)
      (length (ent_bytes e)) (ie_Attributes en)"
  have idx: "indexes (index_Put k ?en nidx) (es @ [e])" "indexedFields (index_Put k ?en nidx) = indexedFields nidx"
    using indexes_put [OF Cons.prems(6) entry_for_mk_ent [OF ap gm e_def]] gm index_Put_spec(3) [of nidx ?en k] Cons.prems(6)
    by (simp_all add: e_def new_entry_def indexes_def)
  show ?case (is "wp _ ?Q ?C w")
  proof -
    have app: "wp (Append nl k (it_value it) False (ie_Attributes en) (it_ext it))
        (\<lambda>x. wp (case x of (r, newLog) \<Rightarrow> case r of
             Inl err \<Rightarrow> return (Inl (Wrap ''failed to write during compaction'' [err]), newLog, nidx)
           | Inr (offset, sz, recordOffset, storedSize) \<Rightarrow>
               compact_copy l idx keys newLog (index_Put k (new_entry offset sz recordOffset storedSize (ie_Attributes en)) nidx)) ?Q ?C)
        ?C (w\<lparr>faults := fs\<rparr>)" if fs: "still w fs" for fs
    proof (rule wp_Append_live [OF Cons.prems(3) _ Cons.prems(5) ap gm e_def], goal_cases)
      case (2 fs' l' g')
      let ?w = "set_file np (Some g') (w\<lparr>faults := fs'\<rparr>)"
      have l': "l_path l' = np" "unknownReadOnly l' = 0"
        using same_log_simps [OF 2(2)] Cons.prems(4,5) by (simp_all add: unknownReadOnly_def)
      have st: "still w fs'" using still_trans [OF fs] 2(1) by simp
      have fl: "files ?w (l_path l) = Some f" "files ?w np = Some g'" "set keys \<subseteq> dom db" using Cons.prems(1,7) assms(3) by simp_all
      have oc: "only_changes {np} w w'" if "only_changes {np} ?w w'" for w' using that by (auto simp: only_changes_def)
      have "wp (compact_copy l idx keys l' (index_Put k ?en nidx)) ?Q ?C ?w"
        by (rule wp_mono [OF Cons.IH [OF fl(1,2) 2(3) l' idx(1) fl(3)]]) (use st idx(2) oc in \<open>auto simp: still_def cp split: sum.splits\<close>)
      then show ?case using Cons.prems(4) by simp
    next
      case (3 fs' l' g')
      then show ?case
        using Cons.prems(4) still_not_calm [OF fs] same_log_simps(1,2) [OF 3(2)] nl by (auto simp: wp_return only_changes_def)
    next
      case (4 fs' g')
      then show ?case using Cons.prems(4) still_not_calm [OF fs] by (auto simp: only_changes_def)
    qed (use Cons.prems in simp)
    show ?thesis
      unfolding compact_copy.simps en option.case wp_bind
      by (rule wp_read_live [OF Cons.prems(1) rd]) (use app Cons.prems(4) nl in \<open>auto simp: wp_return wp_bind\<close>)
  qed
qed

section \<open>The steps on the files\<close>

lemma suffixes_nonempty [simp]:
  "compactionTempSuffix \<noteq> []" "compactionReadySuffix \<noteq> []" "compactionBackupSuffix \<noteq> []" "legacyCompactionSuffix \<noteq> []"
  by (simp_all add: suffixes)

lemma wp_log_Close:
  assumes "\<not> l_closed l"
    and "\<And>fs. still w fs \<Longrightarrow> Q (Inr (), l\<lparr>l_mapped := None, l_closed := True\<rparr>) (w\<lparr>faults := fs\<rparr>)"
    and "\<And>fs. \<not> calm w \<Longrightarrow> Q (Inl IOError, l\<lparr>l_mapped := None, l_closed := True\<rparr>) (w\<lparr>faults := fs\<rparr>)"
    and "\<And>fs. \<not> calm w \<Longrightarrow> C (w\<lparr>faults := fs\<rparr>)"
  shows "wp (log_Close l) Q C w"
proof -
  have l: "l\<lparr>l_mapped := None\<rparr> = l" if "l_mapped l = None" using that by (cases l) simp
  have cl: "wp (bind_io (on_handle (l\<lparr>l_mapped := None\<rparr>) file_Close) (\<lambda>r. return (r, (l\<lparr>l_mapped := None\<rparr>)\<lparr>l_closed := True\<rparr>))) Q C (w\<lparr>faults := fs\<rparr>)"
    if "still w fs" for fs
    using assms that by (auto simp: wp_bind wp_return still_def intro!: wp_Close)
  show ?thesis
  proof (cases "l_mapped l")
    case None
    then show ?thesis using cl [of "faults w"] l by (simp add: log_Close_def wp_bind wp_return)
  next
    case (Some n)
    then show ?thesis
      unfolding log_Close_def using cl assms(4) by (simp add: wp_bind wp_ignore wp_return) (rule wp_Munmap; simp)
  qed
qed

lemma wp_compact_prepare:
  assumes "files w p = Some f"
  shows "wp (compact_prepare p)
    (\<lambda>r w'. only_changes (set (artifacts p)) w w' \<and> (calm w \<longrightarrow> calm w') \<and> (case r of Inl _ \<Rightarrow> \<not> calm w
      | Inr nl \<Rightarrow> files w' (p @ compactionReadySuffix) = None \<and> files w' (p @ compactionBackupSuffix) = None \<and>
          (\<exists>g. files w' (p @ compactionTempSuffix) = Some g \<and> content g = new_header) \<and>
          same_log ((new_log (p @ compactionTempSuffix))\<lparr>l_writePos := logHeaderSize\<rparr>) nl))
    (\<lambda>w'. \<not> calm w \<and> only_changes (set (artifacts p)) w w') w"
  unfolding compact_prepare_def Let_def wp_try wp_wrap using assms
  by (auto simp: artifacts_def only_changes_def still_def wp_wrap wp_try
      intro!: wp_removeIfExists wp_Stat wp_createAppendLogMode)

lemma wp_abandon:
  assumes "\<not> l_closed nl" "l_path nl = np" "\<not> calm w0" "only_changes P w0 w" "np \<in> P"
  shows "wp (abandon nl err) (\<lambda>r w'. r = Inl err \<and> only_changes P w0 w') (\<lambda>w'. only_changes P w0 w') w"
  unfolding abandon_def using assms
  by (auto simp: wp_bind wp_ignore wp_return intro!: wp_log_Close wp_Remove only_changes_set)

text \<open>A log file that holds the items \<open>db\<close> and is on stable storage as it is.\<close>

definition compacted :: "os_file \<Rightarrow> ent list \<Rightarrow> bool" where
  "compacted g es \<longleftrightarrow> content g = new_header @ log_body es \<and> durable g = content g \<and> (\<forall>e \<in> set es. ent_ok e)"

lemma wp_compact_seal:
  assumes w: "files w p = Some f" "files w (p @ compactionTempSuffix) = Some g"
    and nl: "log_holds nl es [] g" "header_bytes nl = new_header" "l_path nl = p @ compactionTempSuffix"
  shows "wp (compact_seal p nl)
    (\<lambda>r w'. only_changes (set (artifacts p)) w w' \<and> (calm w \<longrightarrow> calm w') \<and> (case r of Inl _ \<Rightarrow> \<not> calm w
      | Inr _ \<Rightarrow> (\<exists>g'. files w' (p @ compactionReadySuffix) = Some g' \<and> compacted g' es) \<and>
          files w' (p @ compactionBackupSuffix) = files w (p @ compactionBackupSuffix) \<and>
          files w' (p @ compactionTempSuffix) = None))
    (\<lambda>w'. \<not> calm w \<and> only_changes (set (artifacts p)) w w') w" (is "wp _ ?Q ?C w")
proof -
  have cl: "\<not> l_closed nl" and new: "content g = new_header @ log_body es" "\<forall>e \<in> set es. ent_ok e"
    using nl by (simp_all add: log_holds_def)
  have T: "p @ compactionTempSuffix \<in> set (artifacts p)" "p @ compactionReadySuffix \<in> set (artifacts p)"
    by (simp_all add: artifacts_def)
  have ab: "wp (abandon nl err) ?Q ?C (w\<lparr>faults := fs\<rparr>)" if "\<not> calm w" for fs err
    by (rule wp_mono [OF wp_abandon [OF cl nl(3) that _ T(1)]]) (use that in auto)
  have comp: "compacted (g\<lparr>durable := content g\<rparr>) es" using new by (simp add: compacted_def)
  show ?thesis
    unfolding compact_seal_def Let_def wp_bind
    by (rule log_Sync_open [OF cl, of w g]) (use w nl(3) comp ab in \<open>auto simp: wp_simps syncParentDirectory_def still_def cl
        intro!: wp_log_Close wp_Rename wp_Remove wp_SyncDir only_changes_set T\<close>)
qed

lemma header_current:
  assumes "l_version l = logVersion" "l_incompatibleFeatures l = 0" "unknownReadOnly l = 0"
  shows "header_bytes l = new_header"
  using assms by (simp add: header_bytes_def new_header_def new_log_def unknownReadOnly_def knownReadOnlyFeatures_def)

section \<open>Installing the new log\<close>

lemma wp_bindI: "wp m (\<lambda>x. wp (f x) Q C) C w \<Longrightarrow> wp (bind_io m f) Q C w"
  by (simp add: wp_bind)

text \<open>What opening the file \<open>f\<close> gives.\<close>

definition opens :: "path \<Rightarrow> os_file \<Rightarrow> appendLog \<Rightarrow> bool" where
  "opens p f l \<longleftrightarrow> logHeaderSize \<le> length (content f) \<and>
     (\<exists>l0. parse_header (new_log p) (take logHeaderSize (content f)) = Inr l0 \<and> same_log (l0\<lparr>l_writePos := length (content f)\<rparr>) l)"

lemma opens_nonempty: "opens p f l \<Longrightarrow> content f \<noteq> []"
  by (auto simp: opens_def logHeaderSize_def)

lemma wp_open_again:
  assumes "files w p = Some f" "opens p f l0"
    and "\<And>fs l. still w fs \<Longrightarrow> opens p f l \<Longrightarrow> Q (Inr l) (w\<lparr>faults := fs\<rparr>)"
    and "\<And>fs err. \<not> calm w \<Longrightarrow> Q (Inl err) (w\<lparr>faults := fs\<rparr>)" "\<And>fs. \<not> calm w \<Longrightarrow> C (w\<lparr>faults := fs\<rparr>)"
  shows "wp (openAppendLogFile p) Q C w"
  by (rule wp_openAppendLogFile [OF assms(1) opens_nonempty [OF assms(2)]])
    (use assms in \<open>auto simp: opens_def still_def\<close>)

lemma wp_reopen:
  assumes "files w p = Some f" "opens p f l0"
    and "\<And>fs l r. still w fs \<Longrightarrow> opens p f l \<or> \<not> calm w \<and> l = s_log s \<Longrightarrow> Q (r, s\<lparr>s_log := l\<rparr>) (w\<lparr>faults := fs\<rparr>)"
    and "\<And>fs. \<not> calm w \<Longrightarrow> C (w\<lparr>faults := fs\<rparr>)"
  shows "wp (reopen p s) Q C w"
proof -
  have "Q (Inl err, s) (w\<lparr>faults := fs\<rparr>)" if "\<not> calm w" for fs err
    using assms(3) [of fs "s_log s" "Inl err"] that by simp
  then show ?thesis
    unfolding reopen_def wp_bind wp_return by (intro wp_open_again [OF assms(1,2)]) (use assms(3,4) in auto)
qed

text \<open>Opening where there is no file creates an empty log.\<close>

lemma wp_reopen_missing:
  assumes "files w p = None"
    and "\<And>fs l r. Q (r, s\<lparr>s_log := l\<rparr>) (w\<lparr>faults := fs\<rparr>)"
    and "\<And>fs l r g n. content g = take n new_header \<Longrightarrow> Q (r, s\<lparr>s_log := l\<rparr>) (set_file p (Some g) (w\<lparr>faults := fs\<rparr>))"
    and "\<And>fs. C (w\<lparr>faults := fs\<rparr>)" "\<And>fs g n. content g = take n new_header \<Longrightarrow> C (set_file p (Some g) (w\<lparr>faults := fs\<rparr>))"
  shows "wp (reopen p s) Q C w"
proof -
  have "Q (Inl err, s) (w\<lparr>faults := fs\<rparr>)" for fs err using assms(2) [of "Inl err" "s_log s" fs] by simp
  moreover have "Q (Inl err, s) (set_file p (Some g) (w\<lparr>faults := fs\<rparr>))" if "content g = take n new_header" for fs err g n
    using assms(3) [OF that, of "Inl err" "s_log s" fs] by simp
  moreover have "Q (r, s\<lparr>s_log := l\<rparr>) (set_file p (Some g) (w\<lparr>faults := fs\<rparr>))" if "content g = new_header" for fs r l g
    using assms(3) [of g "length new_header"] that by simp
  ultimately show ?thesis
    unfolding reopen_def wp_bind wp_return using assms by (intro wp_openAppendLogFile_new) auto
qed

text \<open>
  The database on disk while the old log \<open>f\<close> is replaced by the new log with the
  entries \<open>es\<close>: it is one of the two. The exception is the file of an empty log in
  its place, which can only appear when a rename and the attempt to undo it both
  fail; the old log is then still there under its backup name.
\<close>

definition clobbered :: "path \<Rightarrow> os_file \<Rightarrow> world \<Rightarrow> bool" where
  "clobbered p f w \<longleftrightarrow> files w (p @ compactionBackupSuffix) = Some f \<and>
     (\<exists>g n. files w p = Some g \<and> content g = take n new_header)"

definition disk_ok :: "path \<Rightarrow> os_file \<Rightarrow> ent list \<Rightarrow> world \<Rightarrow> bool" where
  "disk_ok p f es w \<longleftrightarrow> survivor p w = Some f \<or> (\<exists>g. survivor p w = Some g \<and> compacted g es) \<or> clobbered p f w"

definition installed :: "path \<Rightarrow> ent list \<Rightarrow> index \<Rightarrow> Store \<Rightarrow> Store \<Rightarrow> world \<Rightarrow> bool" where
  "installed p es nidx s s' w \<longleftrightarrow> (\<exists>g l st. files w p = Some g \<and> compacted g es \<and> opens p g l \<and>
     s' = s\<lparr>s_log := l, s_index := nidx, s_cache := cache_Clear (s_cache s), s_stats := st\<rparr>)"

definition kept :: "path \<Rightarrow> os_file \<Rightarrow> Store \<Rightarrow> Store \<Rightarrow> world \<Rightarrow> bool" where
  "kept p f s s' w \<longleftrightarrow> files w p = Some f \<and> (\<exists>l. s' = s\<lparr>s_log := l\<rparr> \<and> (opens p f l \<or> l_closed l \<or> l = s_log s))"

lemma survivor_main: "files w p = Some f \<Longrightarrow> survivor p w = Some f"
  by (simp add: survivor_def)

lemma errors_Join_Inl: "\<exists>err. errors_Join (Inl e # rs) = Inl err"
  by (simp add: errors_Join_def Let_def)

lemma compacted_opens:
  assumes "compacted g es"
  shows "\<exists>l. opens p g l"
proof -
  have "parse_header (new_log p) new_header = Inr (new_log p)"
    using parse_header_bytes [of "new_log p" p] new_header(1) [of p]
    by (simp add: new_log_def logVersion_def)
  moreover have "take logHeaderSize (content g) = new_header" "logHeaderSize \<le> length (content g)"
    using assms length_header_bytes [of "new_log []"] by (simp_all add: compacted_def new_header_def)
  ultimately show ?thesis by (simp add: opens_def) (rule exI, rule same_log_refl)
qed

text \<open>The old log is not back in its place.\<close>

definition displaced :: "path \<Rightarrow> os_file \<Rightarrow> world \<Rightarrow> bool" where
  "displaced p f w \<longleftrightarrow> files w p \<noteq> Some f \<or> files w (p @ compactionBackupSuffix) \<noteq> None"

definition install_post :: "path \<Rightarrow> os_file \<Rightarrow> ent list \<Rightarrow> index \<Rightarrow> Store \<Rightarrow> world \<Rightarrow> (error + unit) \<times> Store \<Rightarrow> world \<Rightarrow> bool" where
  "install_post p f es nidx s w = (\<lambda>(r, s') w'. only_changes (log_paths p) w w' \<and> (calm w \<longrightarrow> calm w') \<and> (case r of
       Inr _ \<Rightarrow> installed p es nidx s s' w' \<and> files w' (p @ compactionReadySuffix) = None \<and> files w' (p @ compactionBackupSuffix) = None
     | Inl _ \<Rightarrow> \<not> calm w \<and> (installed p es nidx s s' w' \<or> kept p f s s' w' \<or> (\<exists>l. s' = s\<lparr>s_log := l\<rparr>) \<and> displaced p f w' \<and> disk_ok p f es w')))"

definition install_crash :: "path \<Rightarrow> os_file \<Rightarrow> ent list \<Rightarrow> world \<Rightarrow> world \<Rightarrow> bool" where
  "install_crash p f es w w' \<longleftrightarrow> \<not> calm w \<and> only_changes (log_paths p) w w' \<and> disk_ok p f es w'"

lemma install_failed:
  assumes "\<not> calm w" "only_changes (log_paths p) w w'"
    "kept p f s s' w' \<or> (\<exists>l. s' = s\<lparr>s_log := l\<rparr>) \<and> displaced p f w' \<and> disk_ok p f es w'"
  shows "install_post p f es nidx s w (errors_Join (Inl e # rs), s') w'"
  using assms errors_Join_Inl [of e rs] by (auto simp: install_post_def)

lemma paths_in [simp]: "p @ compactionTempSuffix \<in> set (artifacts p)" "p @ compactionReadySuffix \<in> set (artifacts p)"
    "p @ compactionBackupSuffix \<in> set (artifacts p)"
  by (simp_all add: artifacts_def)

lemma disk_ok_main: "compacted g es \<Longrightarrow> files w p = Some f \<or> files w p = Some g \<Longrightarrow> disk_ok p f es w"
  using survivor_main by (auto simp: disk_ok_def)

lemma disk_ok_aside:
  "compacted g es \<Longrightarrow> files w p = None \<Longrightarrow> files w (p @ compactionBackupSuffix) = Some f \<Longrightarrow>
    files w (p @ compactionReadySuffix) = None \<or> files w (p @ compactionReadySuffix) = Some g \<Longrightarrow> disk_ok p f es w"
  by (auto simp: disk_ok_def survivor_def)

text \<open>The ways back: the old log is still in its place, or has to be renamed back.\<close>

lemma wp_undo:
  assumes f: "opens p f l0" and s: "l_closed l1" and w: "\<not> calm w" "only_changes (log_paths p) w w'" "files w' p = Some f"
    and g: "compacted g es"
  shows "wp (bind_io (reopen p (s\<lparr>s_log := l1\<rparr>)) (\<lambda>(re, s). ignore_io (os_Remove (p @ compactionReadySuffix))
      (return (errors_Join [Inl e, re], s)))) (install_post p f es nidx s w) (install_crash p f es w) w'" (is "wp _ ?Q ?C _")
proof (rule wp_bindI, rule wp_reopen [OF w(3) f])
  fix fs l r
  assume "opens p f l \<or> \<not> calm w' \<and> l = s_log (s\<lparr>s_log := l1\<rparr>)"
  then have "kept p f s (s\<lparr>s_log := l\<rparr>) w''" if "files w'' p = Some f" for w'' using that s by (auto simp: kept_def)
  then show "wp (case (r, s\<lparr>s_log := l1, s_log := l\<rparr>) of (re, s) \<Rightarrow> ignore_io (os_Remove (p @ compactionReadySuffix))
      (return (errors_Join [Inl e, re], s))) ?Q ?C (w'\<lparr>faults := fs\<rparr>)"
    unfolding prod.case wp_ignore wp_return using w disk_ok_main [OF g]
    by (intro wp_Remove) (auto simp: install_crash_def intro!: install_failed only_changes_set)
next
  show "?C (w'\<lparr>faults := fs\<rparr>)" for fs using w disk_ok_main [OF g] by (simp add: install_crash_def)
qed

lemma wp_restore:
  assumes f: "opens p f l0" and s: "l_closed l1" and g: "compacted g es" and w: "\<not> calm w" "only_changes (log_paths p) w w'"
    and p: "files w' p = Some f \<or> files w' p = Some g \<or> files w' p = None \<and> files w' (p @ compactionBackupSuffix) = Some f \<and>
      (files w' (p @ compactionReadySuffix) = None \<or> files w' (p @ compactionReadySuffix) = Some g)"
  shows "wp (bind_io (reopen p (s\<lparr>s_log := l1\<rparr>)) (\<lambda>(re, s). return (errors_Join (Inl e # es' @ [re]), s)))
    (install_post p f es nidx s w) (install_crash p f es w) w'"
proof (cases "files w' p")
  case None
  have "disk_ok p f es w''" if "files w'' p = Some h" "content h = take n new_header" "files w'' (p @ compactionBackupSuffix) = Some f" for w'' h n
    using that by (auto simp: disk_ok_def clobbered_def)
  then show ?thesis
    using w p None disk_ok_aside [OF g]
    by (intro wp_bindI wp_reopen_missing) (auto simp: wp_return install_crash_def displaced_def intro!: install_failed only_changes_set)
next
  case (Some h)
  moreover obtain lg where "opens p g lg" using compacted_opens [OF g] by blast
  ultimately obtain l where l: "opens p h l" using f p by auto
  show ?thesis
    by (rule wp_bindI, rule wp_reopen [OF Some l])
      (use w p s Some disk_ok_main [OF g] in \<open>auto simp: wp_return install_crash_def kept_def displaced_def intro!: install_failed\<close>)
qed

lemma wp_bring_back:
  assumes f: "opens p f l0" and s: "l_closed l1" and g: "compacted g es" and w: "\<not> calm w" "only_changes (log_paths p) w w'"
    and b: "files w' (p @ compactionBackupSuffix) = Some f"
    and r: "files w' (p @ compactionReadySuffix) = None \<or> files w' (p @ compactionReadySuffix) = Some g"
    and p: "files w' p = None \<or> files w' p = Some g"
  shows "wp (bind_io (os_Rename (p @ compactionBackupSuffix) p) (\<lambda>re. bind_io (reopen p (s\<lparr>s_log := l1\<rparr>)) (\<lambda>(re', s).
      return (errors_Join (Inl e # es' @ [re, re']), s)))) (install_post p f es nidx s w) (install_crash p f es w) w'"
proof (rule wp_bindI, rule wp_Rename, goal_cases)
  case (1 fs f')
  let ?w = "set_file p (Some f') (set_file (p @ compactionBackupSuffix) None (w'\<lparr>faults := fs\<rparr>))"
  have "only_changes (log_paths p) w ?w" using w(2) by (intro only_changes_set) simp_all
  then show ?case using 1 b wp_restore [OF f s g w(1), where w' = ?w and e = e and es' = "es' @ [Inr ()]" and s = s] by simp
next
  case (3 fs)
  show ?case using b r p w wp_restore [OF f s g w(1), where w' = "w'\<lparr>faults := fs\<rparr>" and e = e and es' = "es' @ [Inl IOError]" and s = s] by auto
next
  case (4 fs)
  then show ?case using b r p w disk_ok_main [OF g] disk_ok_aside [OF g] by (auto simp: install_crash_def)
qed (use b in simp)

lemma wp_compact_finish:
  assumes f: "opens p f l0" and s: "l_closed l1" and g: "compacted g es" and w: "only_changes (log_paths p) w w'" "calm w \<longrightarrow> calm w'"
    and p: "files w' p = Some g" and b: "files w' (p @ compactionBackupSuffix) = Some f" and r: "files w' (p @ compactionReadySuffix) = None"
  shows "wp (compact_finish p (s\<lparr>s_log := l1\<rparr>) nidx) (install_post p f es nidx s w) (install_crash p f es w) w'" (is "wp _ ?Q ?C _")
proof -
  obtain lg where lg: "opens p g lg" using compacted_opens [OF g] by blast
  have inst: "installed p es nidx s (s\<lparr>s_log := l, s_index := nidx, s_cache := cache_Clear (s_cache s), s_stats := st\<rparr>) w''"
    if "files w'' p = Some g" "opens p g l" for l w'' st
    using that g by (auto simp: installed_def)
  have inst': "installed p es nidx s (s\<lparr>s_log := l, s_index := nidx, s_cache := cache_Clear (s_cache s)\<rparr>) w''"
    if "files w'' p = Some g" "opens p g l" for l w'' using inst [OF that, of "s_stats s"] by simp
  show ?thesis
    unfolding compact_finish_def Let_def
  proof (rule wp_bindI, rule wp_open_again [OF p lg], goal_cases)
    case (1 fs l)
    show ?case
      unfolding sum.case
      by (rule wp_bindI, rule wp_removeIfExists)
        (use 1 w p r disk_ok_main [OF g] inst [OF _ 1(2)] inst' [OF _ 1(2)] in
          \<open>auto simp: wp_bind wp_return syncParentDirectory_def install_post_def install_crash_def still_def intro!: wp_SyncDir only_changes_set\<close>)
  next
    case (2 fs err)
    have nc: "\<not> calm w" using 2 w(2) by blast
    have gone: "only_changes (log_paths p) w (set_file p None (w'\<lparr>faults := fs'\<rparr>))" for fs'
      using w(1) by (intro only_changes_set) simp_all
    show ?case
      unfolding sum.case
      by (rule wp_bindI, rule wp_Remove)
        (use nc w p b r gone disk_ok_main [OF g] wp_bring_back [OF f s g nc, where e = "Wrap ''failed to reopen compacted log'' [err]" and es' = "[_]"] in
          \<open>auto simp: install_crash_def\<close>)
  next
    case (3 fs)
    then show ?case using w p disk_ok_main [OF g] by (auto simp: install_crash_def)
  qed
qed

lemma wp_compact_install:
  assumes w: "files w p = Some f" "files w (p @ compactionReadySuffix) = Some g" "files w (p @ compactionBackupSuffix) = None"
    and g: "compacted g es" and f: "opens p f l0" and s: "\<not> l_closed (s_log s)"
  shows "wp (compact_install p s nidx) (install_post p f es nidx s w) (install_crash p f es w) w" (is "wp _ ?Q ?C w")
proof -
  let ?R = "p @ compactionReadySuffix" and ?B = "p @ compactionBackupSuffix"
  let ?l = "(s_log s)\<lparr>l_mapped := None, l_closed := True\<rparr>"
  note undo = wp_undo [OF f, where ?l1.0 = ?l and w = w and g = g] and main = disk_ok_main [OF g]
  show ?thesis
    unfolding compact_install_def Let_def
  proof (rule wp_bindI, (rule wp_log_Close [OF s]; (simp only: prod.case sum.case)?), goal_cases)
    case (1 fs)
    have noisy: "\<not> calm w" if "fs \<noteq> []" using still_not_calm [OF 1 that] .
    show ?case
    proof (rule wp_bindI, (rule wp_Rename; (simp only: sum.case)?), goal_cases)
      case (1 fs' f')
      then have f': "f' = f" using w by simp
      have oc: "only_changes (log_paths p) w (set_file ?B (Some f) (set_file p None (w\<lparr>faults := x\<rparr>)))" for x
        by (intro only_changes_set) simp_all
      have calm: "calm w \<longrightarrow> fs' = []" using 1 \<open>still w fs\<close> by (auto simp: still_def)
      have "only_changes (log_paths p) w (set_file p (Some g) (set_file ?R None (set_file ?B (Some f) (set_file p None (w\<lparr>faults := x\<rparr>)))))" for x
        by (intro only_changes_set) simp_all
      then have fin: "wp (compact_finish p (s\<lparr>s_log := ?l\<rparr>) nidx) ?Q ?C
          (set_file p (Some g) (set_file ?R None (set_file ?B (Some f) (set_file p None (w\<lparr>faults := x\<rparr>)))))"
        if "calm w \<longrightarrow> x = []" for x using that by (intro wp_compact_finish [OF f _ g]) simp_all
      show ?case
        unfolding f'
        by (rule wp_bindI, rule wp_Rename)
          (use w oc calm fin wp_bring_back [OF f _ g, where w = w and ?l1.0 = ?l and e = "Wrap ''failed to install compacted log'' [_]" and es' = "[]"] disk_ok_aside [OF g] in
            \<open>auto simp: install_crash_def still_def\<close>)
    qed (use w noisy undo main g in \<open>auto simp: install_crash_def\<close>)
  next
    case (2 fs)
    then show ?case using undo w g by simp
  next
    case (3 fs)
    then show ?case using w main by (simp add: install_crash_def)
  qed
qed

section \<open>Compaction as a whole\<close>

definition all_live :: "ent list \<Rightarrow> bool" where
  "all_live es \<longleftrightarrow> distinct (map ent_key es) \<and> (\<forall>e \<in> set es. \<not> ent_deleted e)"

lemma all_live_copies: "distinct keys \<Longrightarrow> all_live (copies idx db keys)"
  by (auto simp: all_live_def copies_def comp_def)

definition installed_db :: "path \<Rightarrow> db \<Rightarrow> Store \<Rightarrow> Store \<Rightarrow> world \<Rightarrow> bool" where
  "installed_db p db s s' w \<longleftrightarrow> (\<exists>es nidx. items_of es = db \<and> all_live es \<and> indexes nidx es \<and>
     set (indexedFields nidx) = set (IndexedFields (s_options s)) - {[]} \<and> installed p es nidx s s' w)"

definition disk_ok_db :: "path \<Rightarrow> os_file \<Rightarrow> db \<Rightarrow> world \<Rightarrow> bool" where
  "disk_ok_db p f db w \<longleftrightarrow> (\<exists>es. items_of es = db \<and> disk_ok p f es w)"

definition compact_post :: "path \<Rightarrow> os_file \<Rightarrow> db \<Rightarrow> Store \<Rightarrow> world \<Rightarrow> (error + unit) \<times> Store \<Rightarrow> world \<Rightarrow> bool" where
  "compact_post p f db s w = (\<lambda>(r, s') w'. only_changes (log_paths p) w w' \<and> (calm w \<longrightarrow> calm w') \<and> (case r of
       Inr _ \<Rightarrow> installed_db p db s s' w' \<and> files w' (p @ compactionReadySuffix) = None \<and> files w' (p @ compactionBackupSuffix) = None
     | Inl _ \<Rightarrow> \<not> calm w \<and> (installed_db p db s s' w' \<or>
         (\<exists>idx \<in> {s_index s, snd (KeysSortedByOffset (s_index s))}. kept p f (s\<lparr>s_index := idx\<rparr>) s' w' \<or>
            (\<exists>l. s' = s\<lparr>s_index := idx, s_log := l\<rparr>) \<and> displaced p f w' \<and> disk_ok_db p f db w'))))"

definition compact_crash :: "path \<Rightarrow> os_file \<Rightarrow> db \<Rightarrow> world \<Rightarrow> world \<Rightarrow> bool" where
  "compact_crash p f db w w' \<longleftrightarrow> \<not> calm w \<and> only_changes (log_paths p) w w' \<and> (disk_ok_db p f db w' \<or> files w' p = Some f)"

lemma only_artifacts:
  assumes "only_changes (set (artifacts p)) w w'"
  shows "files w' p = files w p" "only_changes (log_paths p) w w'"
  using assms artifacts_distinct [of p] by (auto simp: only_changes_def)

lemma compact_early:
  assumes w: "files w p = Some f" "\<not> calm w" "only_changes (set (artifacts p)) w w'"
    and s: "s' = s \<or> s' = s\<lparr>s_index := snd (KeysSortedByOffset (s_index s))\<rparr>"
  shows "compact_post p f db s w (Inl err, s') w'" "compact_crash p f db w w'"
proof -
  have "\<exists>idx \<in> {s_index s, snd (KeysSortedByOffset (s_index s))}. s' = s\<lparr>s_index := idx\<rparr>" using s by auto
  then obtain idx where idx: "idx \<in> {s_index s, snd (KeysSortedByOffset (s_index s))}" "s' = s\<lparr>s_index := idx\<rparr>" by blast
  have "kept p f (s\<lparr>s_index := idx\<rparr>) s' w'"
    using w only_artifacts [OF w(3)] idx(2) by (auto simp: kept_def intro: exI [of _ "s_log s"])
  then show "compact_post p f db s w (Inl err, s') w'" "compact_crash p f db w w'"
    using w only_artifacts [OF w(3)] idx(1) by (auto simp: compact_post_def compact_crash_def)
qed

lemma restrict_dom: "m |` dom m = m"
  by (rule ext) (simp add: restrict_map_def domIff)

text \<open>
  Between the steps: only the files of the compaction have changed, there is no backup, and the
  index \<open>nidx\<close> built so far is that of the entries \<open>es\<close>, which make up the database.
\<close>

definition staged :: "path \<Rightarrow> db \<Rightarrow> Store \<Rightarrow> ent list \<Rightarrow> index \<Rightarrow> world \<Rightarrow> world \<Rightarrow> bool" where
  "staged p db s es nidx w w' \<longleftrightarrow> only_changes (set (artifacts p)) w w' \<and> (calm w \<longrightarrow> calm w') \<and>
     files w' (p @ compactionBackupSuffix) = None \<and> items_of es = db \<and> all_live es \<and> indexes nidx es \<and>
     set (indexedFields nidx) = set (IndexedFields (s_options s)) - {[]}"

abbreviation sorted_store :: "Store \<Rightarrow> Store" where
  "sorted_store s \<equiv> s\<lparr>s_index := snd (KeysSortedByOffset (s_index s))\<rparr>"

lemma wp_install_db:
  assumes w: "files w p = Some f" and s: "\<not> l_closed (s_log s)" and f: "opens p f l0" and st: "staged p db s es nidx w w'"
    and g: "files w' (p @ compactionReadySuffix) = Some g" "compacted g es"
  shows "wp (compact_install p (sorted_store s) nidx) (compact_post p f db s w) (compact_crash p f db w) w'"
proof -
  have oa: "files w' p = files w p" "only_changes (log_paths p) w w'" and st': "calm w \<longrightarrow> calm w'" "files w' (p @ compactionBackupSuffix) = None"
    using st only_artifacts [of p w w'] by (auto simp: staged_def)
  have fp: "files w' p = Some f" and cl: "\<not> l_closed (s_log (sorted_store s))" using oa w s by simp_all
  have oc: "only_changes (log_paths p) w w''" if "only_changes (log_paths p) w' w''" for w'' using only_changes_trans [OF oa(2) that] .
  have inst: "installed_db p db s s' w''" if "installed p es nidx (sorted_store s) s' w''" for s' w''
  proof -
    have "installed p es nidx s s' w''" using that by (simp add: installed_def)
    then show ?thesis using st unfolding installed_db_def staged_def by blast
  qed
  have ok: "disk_ok_db p f db w''" if "disk_ok p f es w''" for w'' using that st by (auto simp: disk_ok_db_def staged_def)
  show ?thesis
  proof (rule wp_mono [OF wp_compact_install [OF fp g(1) st'(2) g(2) f cl]], goal_cases)
    case (1 x w'')
    obtain r s' where x: "x = (r, s')" by (cases x)
    show ?case
      using 1 oc [of w''] inst [of s' w''] ok [of w''] st'(1) unfolding x install_post_def compact_post_def
      by (cases r) (simp_all, blast)
  next
    case (2 w'')
    then show ?case using oc ok st'(1) by (auto simp: install_crash_def compact_crash_def)
  qed
qed

lemma wp_seal_db:
  assumes w: "files w p = Some f" and s: "\<not> l_closed (s_log s)" and f: "opens p f l0" and st: "staged p db s es nidx w w'"
    and nl: "files w' (p @ compactionTempSuffix) = Some g" "log_holds nl es [] g" "header_bytes nl = new_header" "l_path nl = p @ compactionTempSuffix"
  shows "wp (bind_io (compact_seal p nl) (\<lambda>r. case r of Inl err \<Rightarrow> return (Inl err, sorted_store s) | Inr _ \<Rightarrow> compact_install p (sorted_store s) nidx))
    (compact_post p f db s w) (compact_crash p f db w) w'"
proof -
  have oa: "only_changes (set (artifacts p)) w w'" "calm w \<longrightarrow> calm w'" using st by (simp_all add: staged_def)
  note early = compact_early [OF w _ only_changes_trans [OF oa(1)] disjI2 [OF refl]]
  show ?thesis
  proof (rule wp_bindI, rule wp_mono [OF wp_compact_seal [of w' p f g nl es]], goal_cases)
    case (6 r w'')
    show ?case
    proof (cases r)
      case (Inl err)
      then show ?thesis using early(1) 6 oa(2) by (auto simp: wp_return)
    next
      case (Inr u)
      then obtain g' where g': "files w'' (p @ compactionReadySuffix) = Some g'" "compacted g' es" using 6 by auto
      have "staged p db s es nidx w w''" using st 6 Inr only_changes_trans [OF oa(1)] by (auto simp: staged_def)
      then show ?thesis using wp_install_db [OF w s f _ g'] Inr by simp
    qed
  next
    case (7 w'')
    then show ?case using early(2) oa(2) by blast
  qed (use nl w only_artifacts(1) [OF oa(1)] in simp_all)
qed

lemma wp_copy_db:
  assumes w: "files w p = Some f" and s: "l_path (s_log s) = p" "\<not> l_closed (s_log s)" and f: "opens p f l0"
    and db: "offers (s_log s) (s_index s) f db" and k: "KeysSortedByOffset (s_index s) = (keys, idx)"
    and w': "only_changes (set (artifacts p)) w w'" "calm w \<longrightarrow> calm w'" "files w' (p @ compactionBackupSuffix) = None"
    and nl: "files w' (p @ compactionTempSuffix) = Some g" "content g = new_header"
      "same_log ((new_log (p @ compactionTempSuffix))\<lparr>l_writePos := logHeaderSize\<rparr>) nl"
  shows "wp (bind_io (compact_copy (s_log s) idx keys nl (newIndex (IndexedFields (s_options s)))) (\<lambda>(r, newLog, newIdx). case r of
            Inl err \<Rightarrow> bind_io (abandon newLog err) (\<lambda>r. return (r, sorted_store s))
          | Inr _ \<Rightarrow> bind_io (compact_seal p newLog) (\<lambda>r. case r of Inl err \<Rightarrow> return (Inl err, sorted_store s)
              | Inr _ \<Rightarrow> compact_install p (sorted_store s) newIdx))) (compact_post p f db s w) (compact_crash p f db w) w'"
proof -
  let ?T = "p @ compactionTempSuffix"
  have of: "offers (s_log s) idx f db" and iv: "index_inv (s_index s)" using offers_sorted [OF db] db k by (simp_all add: offers_def)
  have kd: "set keys = dom db" "distinct keys"
    using KeysSortedByOffset_keys [OF iv] KeysSortedByOffset_keys(1) [of "s_index s"] offers_dom [OF db] k by simp_all
  define es where "es = copies idx db keys"
  have es: "items_of es = db" "all_live es"
    using items_of_copies [OF of, of keys] all_live_copies [of keys] kd by (simp_all add: es_def restrict_dom)
  have nl': "log_holds nl [] [] g" "l_path nl = ?T" "unknownReadOnly nl = 0"
    using same_log_simps [OF nl(3)] nl(2) new_header(2)
    by (simp_all add: log_holds_def log_end_def) (simp_all add: new_log_def unknownReadOnly_def)
  have fp: "files w' (l_path (s_log s)) = Some f" using w s only_artifacts(1) [OF w'(1)] by simp
  have trans: "only_changes (set (artifacts p)) w w''" if "only_changes {?T} w' w''" for w''
    using only_changes_trans [OF w'(1) only_changes_mono [OF that]] by simp
  note early = compact_early [OF w _ _ disjI2 [OF refl]]
  show ?thesis
  proof (rule wp_bindI, rule wp_mono [OF wp_compact_copy [OF fp of _ nl(1) nl' indexes_newIndex, of keys "IndexedFields (s_options s)"]], goal_cases)
    case (3 x w'')
    obtain r nl1 nidx where x: "x = (r, nl1, nidx)" by (cases x)
    have oc: "only_changes (set (artifacts p)) w w''" using 3 trans by (auto simp: x)
    show ?case
    proof (cases r)
      case (Inl err)
      then have nc: "\<not> calm w" "l_path nl1 = ?T" "\<not> l_closed nl1" using 3 w'(2) by (auto simp: x)
      show ?thesis
        unfolding x Inl prod.case sum.case
        by (rule wp_bindI, rule wp_mono [OF wp_abandon [OF nc(3,2,1) oc]]) (use early [OF nc(1)] in \<open>auto simp: wp_return\<close>)
    next
      case (Inr u)
      then obtain g' where g': "files w'' ?T = Some g'" "log_holds nl1 es [] g'" using 3 by (auto simp: x es_def)
      have h: "header_bytes nl1 = new_header" using 3 Inr g' by (intro header_current) (auto simp: x log_holds_def)
      have "files w'' (p @ compactionBackupSuffix) = None" using 3 w'(3) by (auto simp: x only_changes_def)
      then have "staged p db s es nidx w w''"
        using 3 Inr es oc w'(2) newIndex_spec(3) [of "IndexedFields (s_options s)"] by (auto simp: x es_def staged_def)
      from wp_seal_db [OF w s(2) f this g' h] show ?thesis using 3 Inr by (simp add: x)
    qed
  next
    case (4 w'')
    then show ?case using early(2) trans w'(2) by blast
  qed (use s kd in auto)
qed

lemma wp_compact_locked:
  assumes w: "files w p = Some f" and s: "l_path (s_log s) = p" "\<not> l_closed (s_log s)" and f: "opens p f l0"
    and db: "offers (s_log s) (s_index s) f db"
  shows "wp (compact_locked s) (compact_post p f db s w) (compact_crash p f db w) w"
proof -
  obtain keys idx where k: "KeysSortedByOffset (s_index s) = (keys, idx)" by fastforce
  have sl: "s_log (s\<lparr>s_index := idx\<rparr>) = s_log s" "s_options (s\<lparr>s_index := idx\<rparr>) = s_options s" by simp_all
  note cp = wp_copy_db [OF w s f db k, unfolded k snd_conv]
  show ?thesis
    unfolding compact_locked_def Let_def s(1) k prod.case sl
  proof (rule wp_bindI, rule wp_mono [OF wp_compact_prepare [OF w]], goal_cases)
    case (1 r w')
    then show ?case
    proof (cases r)
      case (Inl err)
      then show ?thesis using 1 compact_early(1) [OF w _ _ disjI1 [OF refl]] by (auto simp: wp_return)
    next
      case (Inr nl)
      then show ?thesis using 1 cp [of w' _ nl] by auto
    qed
  next
    case (2 w')
    then show ?case using compact_early(2) [OF w _ _ disjI1 [OF refl]] by blast
  qed
qed

section \<open>Files from which a database is recovered\<close>

text \<open>A log of the current format that holds \<open>db\<close>, up to an incomplete record at its end.\<close>

definition recoverable :: "os_file \<Rightarrow> db \<Rightarrow> bool" where
  "recoverable f db \<longleftrightarrow> (\<exists>es tail. log_file new_header es tail f \<and> items_of es = db)"

lemma length_new_header [simp]: "length new_header = logHeaderSize"
  by (simp add: new_header_def)

lemma tombstone_ok: "length key \<le> maxKeySize \<Longrightarrow> appendable key [] [] []"
  by (simp add: appendable_def valid_attributes_def attr_size_def limits validateExtensions_def validateExtensions_from.simps)

lemma log_file_torn:
  assumes "content f = h @ log_body es @ take m (ent_bytes e)" "length h = logHeaderSize" "\<forall>e \<in> set es. ent_ok e" "ent_ok e"
    "m \<le> length (ent_bytes e)"
  shows "m < length (ent_bytes e) \<Longrightarrow> log_file h es (take m (ent_bytes e)) f"
    "m = length (ent_bytes e) \<Longrightarrow> log_file h (es @ [e]) [] f"
  using assms ent_bytes_nonempty [of e] by (auto simp: log_file_def)

lemma log_file_whole:
  assumes "content f = h @ log_body es" "length h = logHeaderSize" "\<forall>e \<in> set es. ent_ok e"
  shows "log_file h es [] f"
proof -
  have "ent_ok (mk_ent [] [] True [] [])" by (intro mk_ent_ok tombstone_ok) simp_all
  then show ?thesis using assms ent_bytes_nonempty by (fastforce simp: log_file_def intro!: exI [of _ "0::nat"])
qed

lemma recoverable_compacted: "compacted g es \<Longrightarrow> recoverable g (items_of es)"
  using log_file_whole [of g new_header es] by (auto simp: recoverable_def compacted_def)

lemma recoverable_holds:
  assumes "log_holds l es [] f" "unknownReadOnly l = 0"
  shows "recoverable f (items_of es)"
  using assms header_current [of l] log_file_whole [of f new_header es] by (auto simp: recoverable_def log_holds_def)

lemma recoverable_part_written:
  assumes "log_holds l es [] f0" "unknownReadOnly l = 0" "part_written l p es e [] w" "ent_ok e"
  shows "\<exists>f. files w p = Some f \<and> (recoverable f (items_of es) \<or> recoverable f (items_of (es @ [e])))"
proof -
  have h: "header_bytes l = new_header" "\<forall>e \<in> set es. ent_ok e" using assms(1,2) header_current by (simp_all add: log_holds_def)
  obtain f n where f: "files w p = Some f" "n \<le> length (ent_bytes e)" "content f = new_header @ log_body es @ take n (ent_bytes e)"
    using assms(3) h by (auto simp: part_written_def)
  note t = log_file_torn [OF f(3) length_new_header h(2) assms(4) f(2)]
  show ?thesis
  proof (cases "n < length (ent_bytes e)")
    case True
    then show ?thesis using t(1) f(1) unfolding recoverable_def by blast
  next
    case False
    then show ?thesis using t(2) f(1,2) unfolding recoverable_def by (metis le_neq_implies_less)
  qed
qed

section \<open>Compaction of an open store\<close>

lemma store_inv_opens:
  assumes "store_inv s p es [] w" "files w p = Some f"
  shows "\<exists>l. opens p f l" and "opens p f l \<Longrightarrow> log_holds l es [] f \<and> l_path l = p \<and> unknownReadOnly l = unknownReadOnly (s_log s)"
proof -
  have lh: "log_holds (s_log s) es [] f" using assms by (simp add: store_inv_def)
  let ?l = "(new_log p)\<lparr>l_version := logVersion, l_readOnlyFeatures := l_readOnlyFeatures (s_log s)\<rparr>"
  have ph: "parse_header (new_log p) (take logHeaderSize (content f)) = Inr ?l" and len: "length (content f) = log_end es"
    using lh parse_header_bytes [of "s_log s" p] by (auto simp: log_holds_def log_end_def logVersion_def)
  show "\<exists>l. opens p f l" using ph len by (auto simp: opens_def log_end_def intro!: exI same_log_refl)
  have "header_bytes (?l\<lparr>l_writePos := n\<rparr>) = header_bytes (s_log s)" for n
    using lh by (simp add: header_bytes_def log_holds_def new_log_def)
  then show "log_holds l es [] f \<and> l_path l = p \<and> unknownReadOnly l = unknownReadOnly (s_log s)" if "opens p f l"
    using that ph lh len same_log_simps [of "?l\<lparr>l_writePos := length (content f)\<rparr>" l]
    by (auto simp: opens_def log_holds_def) (simp_all add: new_log_def unknownReadOnly_def)
qed

lemma installed_inv:
  assumes s: "store_open s p w" "\<not> ReadOnly s" and inst: "installed_db p db s s' w'" and w': "locked w' = locked w"
  shows "\<exists>es. store_inv s' p es [] w' \<and> items_of es = db \<and> all_live es \<and> synced p w'" "same_config s s'"
proof -
  obtain es nidx g l st where *: "items_of es = db" "indexes nidx es" "set (indexedFields nidx) = set (IndexedFields (s_options s)) - {[]}"
    "files w' p = Some g" "compacted g es" "opens p g l"
    "s' = s\<lparr>s_log := l, s_index := nidx, s_cache := cache_Clear (s_cache s), s_stats := st\<rparr>"
    and live: "all_live es"
    using inst by (auto simp: installed_db_def installed_def)
  have "parse_header (new_log p) (take logHeaderSize (content g)) = Inr (new_log p)"
    using parse_header_bytes [of "new_log p" p] *(5) new_header(1) [of p]
    by (simp add: compacted_def new_log_def logVersion_def)
  then have l: "same_log ((new_log p)\<lparr>l_writePos := length (content g)\<rparr>) l" using *(6) by (auto simp: opens_def)
  have lh: "log_holds l es [] g" "l_path l = p" "unknownReadOnly l = 0"
    using same_log_simps [OF l] *(5) new_header(2)
    by (simp_all add: log_holds_def compacted_def log_end_def) (simp_all add: new_log_def unknownReadOnly_def)
  have "coherent s' es" using *(7) by (simp add: coherent_def cache_Clear_spec)
  then have "store_inv s' p es [] w'"
    using * s lh w' by (simp add: store_inv_def store_open_def ReadOnly_def)
  moreover have "synced p w'" using *(4,5) by (simp add: synced_def compacted_def)
  ultimately show "\<exists>es. store_inv s' p es [] w' \<and> items_of es = db \<and> all_live es \<and> synced p w'" using *(1) live by blast
  show "same_config s s'" using *(7) by (simp add: same_config_def)
qed

text \<open>
  The database \<open>db\<close> is on disk: in the file that recovery will use, or, in the
  exceptional case, in the backup of the old log \<open>f\<close>.
\<close>

definition on_disk :: "path \<Rightarrow> os_file \<Rightarrow> db \<Rightarrow> world \<Rightarrow> bool" where
  "on_disk p f db w \<longleftrightarrow> (\<exists>g. survivor p w = Some g \<and> recoverable g db) \<or> clobbered p f w"

lemma on_disk_main: "files w p = Some f \<Longrightarrow> recoverable f db \<Longrightarrow> on_disk p f db w"
  by (auto simp: on_disk_def survivor_main)

lemma disk_ok_on_disk: "disk_ok_db p f db w \<Longrightarrow> recoverable f db \<Longrightarrow> on_disk p f db w"
  using recoverable_compacted by (auto simp: disk_ok_db_def disk_ok_def on_disk_def)

lemma installed_on_disk: "installed_db p db s s' w \<Longrightarrow> on_disk p f db w"
  using recoverable_compacted survivor_main by (fastforce simp: installed_db_def installed_def on_disk_def)

lemma installed_compacting:
  assumes "installed_db p db (s\<lparr>s_compacting := True\<rparr>) s' w" "\<not> s_compacting s"
  shows "installed_db p db s (s'\<lparr>s_compacting := False\<rparr>) w"
proof -
  have "(s\<lparr>s_compacting := True, s_log := l, s_index := i, s_cache := c, s_stats := st\<rparr>)\<lparr>s_compacting := False\<rparr> =
      s\<lparr>s_log := l, s_index := i, s_cache := c, s_stats := st\<rparr>" for l i c st
    using assms(2) by (cases s) simp
  moreover obtain es nidx g l st where *: "items_of es = db" "indexes nidx es" "set (indexedFields nidx) = set (IndexedFields (s_options s)) - {[]}"
    "files w p = Some g" "compacted g es" "opens p g l"
    "s' = s\<lparr>s_compacting := True, s_log := l, s_index := nidx, s_cache := cache_Clear (s_cache s), s_stats := st\<rparr>"
    and live: "all_live es"
    using assms(1) by (auto simp: installed_db_def installed_def)
  ultimately have "installed p es nidx s (s'\<lparr>s_compacting := False\<rparr>) w" by (auto simp: installed_def)
  then show ?thesis using *(1-3) live unfolding installed_db_def by blast
qed

lemma kept_inv:
  assumes inv: "store_inv s p es [] w" and f: "files w p = Some f" and w': "files w' p = Some f" "locked w' = locked w"
    and idx: "idx \<in> {s_index s, snd (KeysSortedByOffset (s_index s))}" and l: "opens p f l \<or> l = s_log s"
  shows "store_inv (s\<lparr>s_index := idx, s_log := l\<rparr>) p es [] w'"
proof -
  have "index_inv (s_index s)" using inv by (simp add: store_inv_def indexes_def)
  then have i: "indexes idx es" "indexedFields idx = indexedFields (s_index s)"
    using idx inv indexes_sorted by (auto simp: store_inv_def KeysSortedByOffset_spec)
  have "log_holds l es [] f" "l_path l = p" "unknownReadOnly l = unknownReadOnly (s_log s)"
    using l store_inv_opens(2) [OF inv f] store_inv_file [OF inv] store_inv_path [OF inv] f by auto
  then show ?thesis using inv w' i by (simp add: store_inv_def store_open_def coherent_def ReadOnly_def)
qed

text \<open>The outcome for the store when the old log stayed in its place.\<close>

lemma kept_outcome:
  assumes inv: "store_inv s p es [] w" and f: "files w p = Some f" and rec: "recoverable f (items_of es)" and lk: "locked w' = locked w"
    and s: "\<not> s_compacting s" and i: "idx \<in> {s_index s, snd (KeysSortedByOffset (s_index s))}"
    and kp: "kept p f ((s\<lparr>s_compacting := True\<rparr>)\<lparr>s_index := idx\<rparr>) s1 w'"
  defines "t \<equiv> s1\<lparr>s_compacting := False\<rparr>"
  shows "on_disk p f (items_of es) w' \<and> same_config s t \<and>
    ((\<exists>es'. store_inv t p es' [] w' \<and> items_of es' = items_of es) \<or> l_closed (s_log t) \<or> displaced p f w')"
proof -
  obtain l where l: "files w' p = Some f" "s1 = s\<lparr>s_compacting := True, s_index := idx, s_log := l\<rparr>" "opens p f l \<or> l_closed l \<or> l = s_log s"
    using kp by (auto simp: kept_def)
  then have t: "t = s\<lparr>s_index := idx, s_log := l\<rparr>" using s by (cases s) (simp add: t_def)
  show ?thesis
    using kept_inv [OF inv f l(1) lk i, of l] l(3) on_disk_main [OF l(1) rec] unfolding t by (auto simp: same_config_def)
qed

lemma wp_Compact:
  assumes inv: "store_inv s p es [] w" and f: "files w p = Some f"
  shows "wp (Compact s)
    (\<lambda>(r, s') w'. only_changes (log_paths p) w w' \<and> (calm w \<longrightarrow> calm w') \<and> same_config s s' \<and> (case r of
       Inr _ \<Rightarrow> \<not> ReadOnly s \<and> (\<exists>es'. store_inv s' p es' [] w' \<and> items_of es' = items_of es \<and> all_live es') \<and> synced p w'
     | Inl err \<Rightarrow> ReadOnly s \<and> errors_Is err ErrReadOnly \<and> s' = s \<and> w' = w \<or>
         \<not> ReadOnly s \<and> \<not> calm w \<and> on_disk p f (items_of es) w' \<and>
         ((\<exists>es'. store_inv s' p es' [] w' \<and> items_of es' = items_of es) \<or> l_closed (s_log s') \<or> displaced p f w')))
    (\<lambda>w'. \<not> calm w \<and> only_changes (log_paths p) w w' \<and> on_disk p f (items_of es) w') w"
proof (cases "ReadOnly s")
  case True
  obtain err where "s_readOnlyReason s = Some err" "errors_Is err ErrReadOnly" using inv True by (rule read_only_reason)
  then show ?thesis using store_inv_path [OF inv] True by (simp add: Compact_def wp_return same_config_def)
next
  case False
  let ?s = "s\<lparr>s_compacting := True\<rparr>"
  have s: "\<not> s_closed s" "\<not> s_compacting s" "s_readOnlyReason s = None" "store_open s p w" "l_path (s_log s) = p" "unknownReadOnly (s_log s) = 0"
    using inv False by (auto simp: store_inv_def store_open_def ReadOnly_def)
  have lh: "log_holds (s_log s) es [] f" and cl: "\<not> l_closed (s_log s)"
    using store_inv_file [OF inv] f by (auto simp: log_holds_def)
  have rec: "recoverable f (items_of es)" using recoverable_holds [OF lh s(6)] .
  obtain l0 where l0: "opens p f l0" using store_inv_opens(1) [OF inv f] by blast
  have offers: "offers (s_log ?s) (s_index ?s) f (items_of es)" using store_inv_offers [OF inv f] by simp
  have reset: "(?s\<lparr>s_index := idx, s_log := l\<rparr>)\<lparr>s_compacting := False\<rparr> = s\<lparr>s_index := idx, s_log := l\<rparr>" for idx l
    using s(2) by (cases s) simp
  have path: "l_path (s_log ?s) = p" "\<not> l_closed (s_log ?s)" using s(5) cl by simp_all
  have eq: "Compact s = bind_io (compact_locked ?s) (\<lambda>(r, s). return (r, s\<lparr>s_compacting := False\<rparr>))"
    using s(1-3) by (simp add: Compact_def)
  show ?thesis
    unfolding eq
  proof (rule wp_bindI, rule wp_mono [OF wp_compact_locked [OF f path l0 offers]], goal_cases)
    case (1 x w')
    obtain r s1 where x: "x = (r, s1)" by (cases x)
    have post: "compact_post p f (items_of es) ?s w (r, s1) w'" using 1 x by simp
    then have w': "only_changes (log_paths p) w w'" "calm w \<longrightarrow> calm w'" "locked w' = locked w"
      by (auto simp: compact_post_def only_changes_def)
    let ?t = "s1\<lparr>s_compacting := False\<rparr>"
    have inst: "(\<exists>es'. store_inv ?t p es' [] w' \<and> items_of es' = items_of es \<and> all_live es') \<and> synced p w' \<and> same_config s ?t \<and> on_disk p f (items_of es) w'"
      if "installed_db p (items_of es) ?s s1 w'"
      using installed_inv [OF s(4) False installed_compacting [OF that s(2)] w'(3)]
        installed_on_disk [OF installed_compacting [OF that s(2)]] by blast
    note old = kept_outcome [OF inv f rec w'(3) s(2)]
    have gone: "on_disk p f (items_of es) w' \<and> same_config s ?t"
      if "s1 = ?s\<lparr>s_index := idx, s_log := l\<rparr>" "disk_ok_db p f (items_of es) w'" for idx l
      using disk_ok_on_disk [OF that(2) rec] reset [of l idx] that(1) by (simp add: same_config_def)
    show ?case
    proof (cases r)
      case (Inr u)
      then show ?thesis using post w' inst False by (simp add: x wp_return compact_post_def)
    next
      case (Inl err)
      then have nc: "\<not> calm w" and c: "installed_db p (items_of es) ?s s1 w' \<or>
          (\<exists>idx \<in> {s_index s, snd (KeysSortedByOffset (s_index s))}. kept p f (?s\<lparr>s_index := idx\<rparr>) s1 w' \<or>
            (\<exists>l. s1 = ?s\<lparr>s_index := idx, s_log := l\<rparr>) \<and> displaced p f w' \<and> disk_ok_db p f (items_of es) w')"
        using post by (simp_all add: compact_post_def)
      have "on_disk p f (items_of es) w' \<and> same_config s ?t \<and>
        ((\<exists>es'. store_inv ?t p es' [] w' \<and> items_of es' = items_of es) \<or> l_closed (s_log ?t) \<or> displaced p f w')"
        using c inst old gone by metis
      then show ?thesis using Inl w' nc False by (simp add: x wp_return)
    qed
  next
    case (2 w')
    then show ?case
      using disk_ok_on_disk [OF _ rec] on_disk_main [OF _ rec] by (auto simp: compact_crash_def)
  qed
qed

end
