(* ===== verification/StoreOpen.thy ===== *)
theory StoreOpen
  imports Compaction
begin

text \<open>
  Opening a store (\<^verbatim>\<open>Open\<close>, \<^verbatim>\<open>recover\<close>, \<^verbatim>\<open>migrate\<close> and \<^verbatim>\<open>copyLogFile\<close> of \<^verbatim>\<open>store.go\<close>)
  and the bodies of its background tasks. The theorems say which database a store
  holds after it was opened: the one its log describes, whatever an earlier
  process left behind and whatever the version of the log.
\<close>

section \<open>Definitions\<close>

definition migrationBackupSuffix :: string where "migrationBackupSuffix = ''.bak''"
definition migrationBackupTempSuffix :: string where "migrationBackupTempSuffix = ''.tmp''"

definition recover_record :: "logRecord \<Rightarrow> index \<times> lruCache \<Rightarrow> error option \<times> (index \<times> lruCache)" where
  "recover_record rec = (\<lambda>(idx, cache). (None,
     if lr_Deleted rec then (index_Delete (lr_Key rec) idx, cache_Remove cache (lr_Key rec))
     else (index_Put (lr_Key rec)
            (new_entry (lr_Offset rec) (lr_Size rec) (lr_RecordOffset rec) (lr_StoredSize rec) (lr_Attributes rec)) idx,
           cache)))"

definition recover :: "Store \<Rightarrow> ((error + unit) \<times> Store) io" where
  "recover s =
     bind_io (Iterate (s_log s) recover_record (s_index s, s_cache s)) (\<lambda>(r, (idx, cache), log).
     return (r, s\<lparr>s_log := log, s_index := idx, s_cache := cache\<rparr>))"

text \<open>
  The copy of a log that is kept before a migration. The reader of the source is
  closed on every way out.
\<close>

definition discard_copy :: "path \<Rightarrow> error \<Rightarrow> (error + unit) io" where
  "discard_copy tmp err = ignore_io (os_Remove tmp) (return (Inl err))"

definition copy_contents :: "path \<Rightarrow> path \<Rightarrow> (error + unit) io" where
  "copy_contents src dst =
     (let tmp = dst @ migrationBackupTempSuffix in
      try_io (os_OpenFile tmp True 420) (\<lambda>_.
      bind_io (io_Copy src tmp) (\<lambda>r. case r of
        Inl err \<Rightarrow> ignore_io file_Close (discard_copy tmp err)
      | Inr _ \<Rightarrow>
      bind_io (file_Sync tmp) (\<lambda>r. case r of
        Inl err \<Rightarrow> ignore_io file_Close (discard_copy tmp err)
      | Inr _ \<Rightarrow>
      bind_io file_Close (\<lambda>r. case r of
        Inl err \<Rightarrow> discard_copy tmp err
      | Inr _ \<Rightarrow>
      bind_io (os_Rename tmp dst) (\<lambda>r. case r of
        Inl err \<Rightarrow> discard_copy tmp err
      | Inr _ \<Rightarrow> syncParentDirectory dst))))))"

definition copyLogFile :: "path \<Rightarrow> path \<Rightarrow> (error + unit) io" where
  "copyLogFile src dst =
     bind_io (os_Stat dst) (\<lambda>r. case r of
       Inr _ \<Rightarrow> return (Inr ())
     | Inl err \<Rightarrow>
         if \<not> errors_Is err ErrNotExist then return (Inl err)
         else try_io (os_Open src) (\<lambda>_.
           bind_io (copy_contents src dst) (\<lambda>r. ignore_io file_Close (return r))))"

definition backup_path :: "path \<Rightarrow> 32 word \<Rightarrow> path" where
  "backup_path path version = path @ ''.v'' @ nat_digits (unat version) @ migrationBackupSuffix"

definition migrate :: "Store \<Rightarrow> path \<Rightarrow> ((error + unit) \<times> Store) io" where
  "migrate s path =
     (let info = \<lparr>mi_Path = path, mi_FromVersion = l_version (s_log s), mi_ToVersion = logVersion, mi_Backup = []\<rparr> in
      bind_io
        (if NoMigrationBackup (s_options s) then return (Inr info)
         else
           let info = info\<lparr>mi_Backup := backup_path path (mi_FromVersion info)\<rparr> in
           try_io (wrap_error ''back up log before migrating'' (copyLogFile path (mi_Backup info))) (\<lambda>_. return (Inr info)))
      (\<lambda>r. case r of
        Inl err \<Rightarrow> return (Inl err, s)
      | Inr info \<Rightarrow>
          (case (case OnMigrate (s_options s) of Some fn \<Rightarrow> fn info | None \<Rightarrow> None) of
            Some err \<Rightarrow> return (Inl err, s)
          | None \<Rightarrow>
              if mi_FromVersion info = 4 then
                bind_io (setVersion (s_log s) logVersion) (\<lambda>(r, log).
                return (wrap_result ''migrate log'' r, s\<lparr>s_log := log\<rparr>))
              else bind_io (Compact s) (\<lambda>(r, s). return (wrap_result ''migrate log'' r, s)))))"

text \<open>Giving everything up again when a store cannot be opened.\<close>

definition give_up :: "Store \<Rightarrow> error \<Rightarrow> (error + Store) io" where
  "give_up s err =
     bind_io (log_Close (s_log s)) (\<lambda>_. bind_io (lock_release (s_lock s)) (\<lambda>_. return (Inl err)))"

definition startSyncTask :: "Store \<Rightarrow> Store" where
  "startSyncTask s = s\<lparr>s_syncTask := True\<rparr>"

definition startCompactionTask :: "Store \<Rightarrow> Store" where
  "startCompactionTask s = s\<lparr>s_compactionTask := True\<rparr>"

definition new_store :: "Options \<Rightarrow> fileLock \<Rightarrow> appendLog \<Rightarrow> Store" where
  "new_store options lock l =
     \<lparr>s_log = l, s_index = newIndex (IndexedFields options), s_cache = newLRUCache (CacheSize options), s_lock = lock,
      s_options = options, s_closed = False, s_compacting = False,
      s_readOnlyReason = (if unknownReadOnly l \<noteq> 0
        then Some (Wrap ''read-only'' [ErrReadOnly, unknownFeatureError ''read-only'' (unknownReadOnly l)]) else None),
      s_syncTask = False, s_compactionTask = False,
      s_stats = \<lparr>Writes = 0, Reads = 0, CacheHits = 0, CacheMisses = 0, Deletes = 0, Compactions = 0\<rparr>\<rparr>"

definition open_locked :: "path \<Rightarrow> Options \<Rightarrow> fileLock \<Rightarrow> (error + Store) io" where
  "open_locked path options lock =
     bind_io (openAppendLog path) (\<lambda>r. case r of
       Inl err \<Rightarrow> bind_io (lock_release lock) (\<lambda>_. return (Inl (Wrap ''failed to open append log'' [err])))
     | Inr l \<Rightarrow>
         bind_io (recover (new_store options lock l)) (\<lambda>(r, s). case r of
           Inl err \<Rightarrow> give_up s (Wrap ''failed to recover from log'' [err])
         | Inr _ \<Rightarrow>
             bind_io (if l_version (s_log s) < logVersion then migrate s path else return (Inr (), s)) (\<lambda>(r, s). case r of
               Inl err \<Rightarrow> give_up s err
             | Inr _ \<Rightarrow>
                 let s = (if SyncInterval options > 0 then startSyncTask s else s);
                     s = (if AutoCompact options \<and> \<not> ReadOnly s then startCompactionTask s else s) in
                 return (Inr s))))"

definition apply_defaults :: "Options \<Rightarrow> Options" where
  "apply_defaults options =
     (let options = (if CacheSize options \<le> 0 then options\<lparr>CacheSize := 1000\<rparr> else options) in
      if CompactionThreshold options \<le> 0 then options\<lparr>CompactionThreshold := float64 (1 / 5)\<rparr> else options)"

definition Open :: "path \<Rightarrow> Options \<Rightarrow> (error + Store) io" where
  "Open path options =
     (if path = [] then return (Inl (Errorf ''path is required''))
      else
      let options = apply_defaults options in
      if CompactionThreshold options > 1 then
        return (Inl (Errorf ''compaction threshold must be between 0 and 1''))
      else if [] \<in> set (IndexedFields options) then
        return (Inl (Wrap ''indexed field is empty'' [ErrInvalidAttribute]))
      else try_io (acquireFileLock path) (open_locked path options))"

text \<open>One turn of each background loop, while its task runs; the result lists the errors passed to \<^verbatim>\<open>OnError\<close>.\<close>

definition reportError :: "Store \<Rightarrow> error \<Rightarrow> error list" where
  "reportError s err = (if OnError (s_options s) then [err] else [])"

definition sync_tick :: "Store \<Rightarrow> (error list \<times> Store) io" where
  "sync_tick s = bind_io (log_Sync (s_log s)) (\<lambda>r. return (case r of
       Inl err \<Rightarrow> (reportError s (Wrap ''periodic sync'' [err]), s)
     | Inr _ \<Rightarrow> ([], s)))"

definition compaction_tick :: "Store \<Rightarrow> (error list \<times> Store) io" where
  "compaction_tick s =
     (if NeedsCompaction s then
        bind_io (Compact s) (\<lambda>(r, s). return (case r of
          Inl err \<Rightarrow> (reportError s (Wrap ''automatic compaction'' [err]), s)
        | Inr _ \<Rightarrow> ([], s)))
      else return ([], s))"

section \<open>Rebuilding the index\<close>

text \<open>The last record of each key, unless it is a deletion, and the index entry made of a record.\<close>

definition replay_step :: "logRecord \<Rightarrow> (string \<Rightarrow> logRecord option) \<Rightarrow> string \<Rightarrow> logRecord option" where
  "replay_step rec m = (if lr_Deleted rec then m(lr_Key rec := None) else m(lr_Key rec \<mapsto> rec))"

definition replay :: "logRecord list \<Rightarrow> string \<Rightarrow> logRecord option" where
  "replay recs = fold replay_step recs Map.empty"

definition rec_entry :: "logRecord \<Rightarrow> indexEntry" where
  "rec_entry rec = new_entry (lr_Offset rec) (lr_Size rec) (lr_RecordOffset rec) (lr_StoredSize rec) (lr_Attributes rec)"

abbreviation recovered :: "logRecord list \<Rightarrow> index \<times> lruCache \<Rightarrow> index \<times> lruCache" where
  "recovered \<equiv> fold (\<lambda>rec st. snd (recover_record rec st))"

lemma recover_record_total: "recover_record rec st = (None, snd (recover_record rec st))"
  by (cases st) (simp add: recover_record_def)

lemma replay_snoc: "replay (recs @ [rec]) = replay_step rec (replay recs)"
  by (simp add: replay_def)

lemma replay_mem: "replay recs k = Some rec \<Longrightarrow> rec \<in> set recs \<and> lr_Key rec = k"
  by (induction recs rule: rev_induct) (auto simp: replay_snoc replay_step_def replay_def split: if_splits)

lemma recovered_spec:
  assumes "\<forall>rec \<in> set recs. go_map (lr_Attributes rec)" "recovered recs (newIndex fs, newLRUCache n) = (idx, c)"
  shows "index_inv idx" "index_Get idx k = map_option rec_entry (replay recs k)"
    "set (indexedFields idx) = set fs - {[]}" "cache_inv c" "recency c = []"
proof -
  have "index_inv idx \<and> (\<forall>k. index_Get idx k = map_option rec_entry (replay recs k)) \<and>
    set (indexedFields idx) = set fs - {[]} \<and> cache_inv c \<and> recency c = []"
    using assms
  proof (induction recs arbitrary: idx c rule: rev_induct)
    case Nil
    then show ?case by (auto simp: newIndex_spec newLRUCache_spec replay_def)
  next
    case (snoc rec recs)
    obtain i d where st: "recovered recs (newIndex fs, newLRUCache n) = (i, d)" by fastforce
    note IH = snoc.IH [OF _ st]
    have rec: "go_map (ie_Attributes (rec_entry rec))" using snoc.prems(1) by (simp add: rec_entry_def new_entry_def)
    show ?case
      using snoc.prems st IH rec
      by (auto simp: recover_record_def rec_entry_def [symmetric] replay_snoc replay_step_def index_Put_spec index_Delete_spec
          cache_Remove_spec lru_drop_def split: if_splits)
  qed
  then show "index_inv idx" "index_Get idx k = map_option rec_entry (replay recs k)"
    "set (indexedFields idx) = set fs - {[]}" "cache_inv c" "recency c = []" by auto
qed

text \<open>Records of the current layout: the index describes exactly the live entries.\<close>

lemma replay_ents: "replay (map ent_record (places logHeaderSize es)) k = map_option ent_record (live es k)"
proof (induction es arbitrary: k rule: rev_induct)
  case Nil
  then show ?case by (simp add: replay_def)
next
  case (snoc e es)
  have "lr_Key (ent_record (q, e)) = ent_key e" "lr_Deleted (ent_record (q, e)) = ent_deleted e" for q
    by (simp_all add: ent_record_def the_record_def ent_key_def ent_deleted_def)
  then show ?case
    using snoc by (auto simp: places_append replay_snoc replay_step_def live_snoc live_step_def log_end_def fun_upd_def)
qed

lemma ent_ok_attributes: "ent_ok e \<Longrightarrow> go_map (ent_attributes e)"
  by (simp add: ent_ok_def decodeAttributes_Inr_iff)

lemma entry_for_record: "ent_ok e \<Longrightarrow> entry_for (q, e) (rec_entry (ent_record (q, e)))"
  by (simp add: rec_entry_def new_entry_def ent_record_def the_record_def length_ent_bytes)

lemma places_ok: "pe \<in> set (places q es) \<Longrightarrow> snd pe \<in> set es"
  by (induction es arbitrary: q) auto

lemma recovered_ents:
  assumes "\<forall>e \<in> set es. ent_ok e" "recovered (map ent_record (places logHeaderSize es)) (newIndex fs, newLRUCache n) = (idx, c)"
  shows "indexes idx es" "set (indexedFields idx) = set fs - {[]}" "cache_inv c" "recency c = []"
proof -
  have "\<forall>rec \<in> set (map ent_record (places logHeaderSize es)). go_map (lr_Attributes rec)"
    using assms(1) ent_ok_attributes places_ok by (fastforce simp: ent_record_def the_record_def)
  note r = recovered_spec [OF this assms(2)]
  have "rel_option entry_for (live es k) (index_Get idx k)" for k
  proof (cases "live es k")
    case (Some pe)
    then have "ent_ok (snd pe)" using live_places [OF Some] places_ok assms(1) by blast
    then show ?thesis using Some entry_for_record [of "snd pe" "fst pe"] by (simp add: r(2) replay_ents)
  qed (simp add: r(2) replay_ents)
  then show "indexes idx es" using r(1) by (simp add: indexes_def)
  show "set (indexedFields idx) = set fs - {[]}" "cache_inv c" "recency c = []" using r by simp_all
qed

section \<open>The steps of Open\<close>

lemma wp_openAppendLog:
  assumes f: "survivor p w = Some f" "opens p f l0"
    and good: "\<And>l w'. opens p f l \<Longrightarrow> files w' p = Some f \<Longrightarrow> only_changes (log_paths p) w w' \<Longrightarrow> (calm w \<longrightarrow> calm w') \<Longrightarrow> Q (Inr l) w'"
    and bad: "\<And>err w'. \<not> calm w \<Longrightarrow> survivor p w' = Some f \<Longrightarrow> only_changes (log_paths p) w w' \<Longrightarrow> Q (Inl err) w'"
    and crash: "\<And>w'. \<not> calm w \<Longrightarrow> survivor p w' = Some f \<Longrightarrow> only_changes (log_paths p) w w' \<Longrightarrow> C w'"
  shows "wp (openAppendLog p) Q C w"
  unfolding openAppendLog_def wp_try
proof (rule wp_mono [OF wp_recoverCompactionArtifacts], goal_cases)
  case (1 r w')
  show ?case
  proof (cases r)
    case (Inr u)
    then have w': "files w' p = Some f" "survivor p w' = Some f" "only_changes (log_paths p) w w'" "calm w \<longrightarrow> calm w'"
      using 1 f(1) by simp_all
    have sv: "survivor p (w'\<lparr>faults := fs\<rparr>) = Some f" for fs using w'(1) by (simp add: survivor_main)
    show ?thesis
      unfolding Inr sum.case
      by (rule wp_open_again [OF w'(1) f(2)]) (use w' sv good bad crash in \<open>auto simp: still_def\<close>)
  qed (use 1 f(1) bad in simp)
qed (use f(1) crash in simp)

lemma wp_log_Close_any:
  assumes "\<And>r l' fs. still w fs \<Longrightarrow> Q (r, l') (w\<lparr>faults := fs\<rparr>)" "\<And>fs. \<not> calm w \<Longrightarrow> C (w\<lparr>faults := fs\<rparr>)"
  shows "wp (log_Close l) Q C w"
  unfolding log_Close_def on_handle_def using assms assms(1) [of "faults w"]
  by (auto simp: wp_simps split: option.split intro!: wp_Munmap wp_Close)

text \<open>Giving up releases the lock, and changes no file.\<close>

lemma wp_give_up:
  assumes "lk_file (s_lock s) = Some lp"
  shows "wp (give_up s err)
    (\<lambda>r w'. r = Inl err \<and> (calm w \<longrightarrow> calm w') \<and> only_changes {} (w\<lparr>locked := locked w - {lp}\<rparr>) w')
    (\<lambda>w'. \<not> calm w \<and> files w' = files w) w"
proof -
  have rel: "wp (lock_release (s_lock s)) (\<lambda>_ w'. (calm w \<longrightarrow> calm w') \<and> only_changes {} (w\<lparr>locked := locked w - {lp}\<rparr>) w')
      (\<lambda>w'. \<not> calm w \<and> files w' = files w) (w\<lparr>faults := fs\<rparr>)" if "still w fs" for fs
    using that by (intro wp_mono [OF wp_lock_release [OF assms]]) (auto simp: only_changes_def still_def fun_eq_iff)
  show ?thesis
    unfolding give_up_def wp_bind wp_return
    by (rule wp_log_Close_any) (use rel in \<open>auto elim: wp_mono\<close>)
qed

text \<open>
  Recovery: the log is cut behind its last whole record, unless it may not be
  written, and the index and the cache are those of its records.
\<close>

lemma wp_recover:
  assumes l: "\<not> l_closed (s_log s)" "l_writePos (s_log s) = length (content f)"
    and w: "files w (l_path (s_log s)) = Some f" "content f = hdr @ concat bs @ tail" "length hdr = logHeaderSize"
      "accepts (l_version (s_log s)) logHeaderSize bs recs"
      "cut_tail (l_version (s_log s)) (logHeaderSize + length (concat bs)) tail"
    and good: "\<And>fs idx c. still w fs \<Longrightarrow> recovered recs (s_index s, s_cache s) = (idx, c) \<Longrightarrow>
      Q (Inr (), s\<lparr>s_log := (s_log s)\<lparr>l_writePos := logHeaderSize + length (concat bs)\<rparr>, s_index := idx, s_cache := c\<rparr>)
        (if unknownReadOnly (s_log s) = 0 then set_file (l_path (s_log s)) (Some (f\<lparr>content := hdr @ concat bs\<rparr>)) (w\<lparr>faults := fs\<rparr>)
         else w\<lparr>faults := fs\<rparr>)"
    and bad: "\<And>fs err idx c. \<not> calm w \<Longrightarrow> Q (Inl err, s\<lparr>s_index := idx, s_cache := c\<rparr>) (w\<lparr>faults := fs\<rparr>)"
    and crash: "\<And>fs. \<not> calm w \<Longrightarrow> C (w\<lparr>faults := fs\<rparr>)"
  shows "wp (recover s) Q C w"
proof -
  obtain idx c where r: "recovered recs (s_index s, s_cache s) = (idx, c)" by fastforce
  have id: "s\<lparr>s_log := s_log s, s_index := i, s_cache := d\<rparr> = s\<lparr>s_index := i, s_cache := d\<rparr>" for i d by simp
  show ?thesis
    unfolding recover_def wp_bind
    by (rule wp_Iterate_chunks [where g = "\<lambda>rec st. snd (recover_record rec st)", OF l w recover_record_total])
      (use good [OF _ r] bad crash r in \<open>auto simp: wp_return id split: prod.split\<close>)
qed

section \<open>The copy made before a migration\<close>

text \<open>A copy exists only as a whole: what was there before, or all bytes of \<open>f\<close>, durably.\<close>

definition copied :: "os_file \<Rightarrow> path \<Rightarrow> world \<Rightarrow> world \<Rightarrow> bool" where
  "copied f dst w w' \<longleftrightarrow> only_changes {dst, dst @ migrationBackupTempSuffix} w w' \<and>
     (files w' dst = files w dst \<or>
      files w dst = None \<and> (\<exists>g. files w' dst = Some g \<and> content g = content f \<and> durable g = content f))"

lemma tmp_neq [simp]: "migrationBackupTempSuffix \<noteq> []"
  by (simp_all add: migrationBackupTempSuffix_def)

lemma copied_simps [simp]:
  "copied f dst w w" "copied f dst w (w'\<lparr>faults := fs\<rparr>) \<longleftrightarrow> copied f dst w w'"
  by (simp_all add: copied_def)

lemma copied_tmp: "copied f dst w w' \<Longrightarrow> copied f dst w (set_file (dst @ migrationBackupTempSuffix) g w')"
  by (auto simp: copied_def)

lemma wp_discard_copy:
  assumes "copied f dst w w'" "\<not> calm w"
  shows "wp (discard_copy (dst @ migrationBackupTempSuffix) err)
    (\<lambda>r w'. copied f dst w w' \<and> (\<exists>e. r = Inl e)) (\<lambda>w'. copied f dst w w') w'"
  unfolding discard_copy_def using assms by (auto simp: wp_simps intro!: wp_Remove copied_tmp)

lemma copied_rename:
  assumes "only_changes {dst @ migrationBackupTempSuffix} w w'" "files w dst = None" "content g = content f" "durable g = content f"
  shows "copied f dst w (set_file dst (Some g) (set_file (dst @ migrationBackupTempSuffix) None w'))"
  using assms by (auto simp: copied_def only_changes_def)

lemma copied_only_tmp:
  assumes "only_changes {dst @ migrationBackupTempSuffix} w w'"
  shows "copied f dst w w'"
  using assms by (auto simp: copied_def only_changes_def)

lemma wp_copyLogFile:
  assumes src: "files w src = Some f" "src \<noteq> dst" "src \<noteq> dst @ migrationBackupTempSuffix"
  shows "wp (copyLogFile src dst)
    (\<lambda>r w'. (calm w \<longrightarrow> calm w') \<and> copied f dst w w' \<and> (case r of Inr _ \<Rightarrow> files w' dst \<noteq> None | Inl _ \<Rightarrow> \<not> calm w))
    (\<lambda>w'. \<not> calm w \<and> copied f dst w w') w"
proof -
  let ?tmp = "dst @ migrationBackupTempSuffix"
  let ?Q = "\<lambda>r w'. (calm w \<longrightarrow> calm w') \<and> copied f dst w w' \<and> (case r of Inr _ \<Rightarrow> files w' dst \<noteq> None | Inl _ \<Rightarrow> \<not> calm w)"
  let ?C = "\<lambda>w'. \<not> calm w \<and> copied f dst w w'"
  let ?T = "only_changes {?tmp} w"
  have disc: "wp (discard_copy ?tmp err) ?Q ?C w'" if "?T w'" "\<not> calm w" for err w'
    using that by (intro wp_mono [OF wp_discard_copy [where w = w and f = f]]) (auto simp: copied_only_tmp)
  have drop: "wp (ignore_io file_Close (discard_copy ?tmp err)) ?Q ?C w'" if "?T w'" "\<not> calm w" for err w'
    using that disc by (auto simp: wp_simps copied_only_tmp intro!: wp_Close)
  let ?ren = "\<lambda>r. case r of Inl err \<Rightarrow> discard_copy ?tmp err | Inr _ \<Rightarrow> syncParentDirectory dst"
  let ?close = "\<lambda>r. case r of Inl err \<Rightarrow> discard_copy ?tmp err | Inr _ \<Rightarrow> bind_io (os_Rename ?tmp dst) ?ren"
  let ?sync = "\<lambda>r. case r of Inl err \<Rightarrow> ignore_io file_Close (discard_copy ?tmp err) | Inr _ \<Rightarrow> bind_io file_Close ?close"
  let ?copy = "\<lambda>r. case r of Inl err \<Rightarrow> ignore_io file_Close (discard_copy ?tmp err) | Inr _ \<Rightarrow> bind_io (file_Sync ?tmp) ?sync"
  have put: "wp (copy_contents src dst) ?Q ?C (w\<lparr>faults := fs\<rparr>)" if dst: "files w dst = None" and fs: "still w fs" for fs
  proof -
    have ren: "wp (bind_io (os_Rename ?tmp dst) ?ren) ?Q ?C w'"
      if "?T w'" "files w' ?tmp = Some g" "content g = content f" "durable g = content f" "calm w \<longrightarrow> calm w'" for w' g
      using that disc dst copied_only_tmp [OF that(1)]
      by (auto simp: wp_bind syncParentDirectory_def still_def intro!: wp_Rename wp_SyncDir copied_rename)
    have close: "wp (bind_io file_Close ?close) ?Q ?C w'"
      if "?T w'" "files w' ?tmp = Some g" "content g = content f" "durable g = content f" "calm w \<longrightarrow> calm w'" for w' g
      by (rule wp_bindI, rule wp_Close) (use that disc copied_only_tmp [OF that(1)] in \<open>auto simp: still_def intro!: ren\<close>)
    have sync: "wp (bind_io (file_Sync ?tmp) ?sync) ?Q ?C w'"
      if "?T w'" "files w' ?tmp = Some g" "content g = content f" "calm w \<longrightarrow> calm w'" for w' g
      by (rule wp_bindI, rule wp_Sync) (use that drop copied_only_tmp [OF that(1)] in \<open>auto simp: still_def intro!: close\<close>)
    have copy: "wp (bind_io (io_Copy src ?tmp) ?copy) ?Q ?C w'"
      if "?T w'" "files w' ?tmp = Some g" "calm w \<longrightarrow> calm w'" for w' g
    proof -
      have "files w' src = Some f" using that(1) src by (simp add: only_changes_def)
      note copy = wp_Copy [OF this that(2)]
      show ?thesis
        by (rule wp_bindI, rule copy) (use that drop in \<open>auto simp: still_def only_changes_set intro!: sync copied_only_tmp\<close>)
    qed
    show ?thesis
      unfolding copy_contents_def Let_def wp_try
      by (rule wp_OpenFile) (use fs in \<open>auto simp: still_def intro!: copy\<close>)
  qed
  have leave: "wp (ignore_io file_Close (return r)) ?Q ?C w'" if "?Q r w'" for r w'
    using that unfolding wp_ignore wp_return by (cases r; intro wp_Close) (auto simp: still_def)
  have "wp (bind_io (copy_contents src dst) (\<lambda>r. ignore_io file_Close (return r))) ?Q ?C (w\<lparr>faults := fs\<rparr>)"
    if "files w dst = None" "still w fs" for fs
    by (rule wp_bindI, rule wp_mono [OF put [OF that]]) (use leave in auto)
  then have "wp (try_io (os_Open src) (\<lambda>_. bind_io (copy_contents src dst) (\<lambda>r. ignore_io file_Close (return r))))
      ?Q ?C (w\<lparr>faults := fs\<rparr>)" if "files w dst = None" "still w fs" for fs
    unfolding wp_try using that src(1) by (intro wp_Open) (auto simp: still_def)
  then show ?thesis
    unfolding copyLogFile_def by (intro wp_bindI wp_Stat) (auto simp: wp_return still_def)
qed

section \<open>The database of a log file\<close>

text \<open>The items of a log of version 1 to 3, whose records name the place of their value in the file.\<close>

definition legacy_items :: "bytes \<Rightarrow> logRecord list \<Rightarrow> db" where
  "legacy_items b recs k = map_option (\<lambda>rec. \<lparr>it_value = slice (lr_Offset rec) (unat (lr_Size rec)) b,
     it_attrs = map_of (lr_Attributes rec), it_ext = []\<rparr>) (replay recs k)"

text \<open>
  The file \<open>f\<close> is a log, of any version that this code reads, that holds the
  database \<open>db\<close>; it may end in an incomplete record. A header of version 4 has no
  features.
\<close>

definition current_log :: "appendLog \<Rightarrow> ent list \<Rightarrow> bytes \<Rightarrow> os_file \<Rightarrow> bool" where
  "current_log l es tail f \<longleftrightarrow> log_file (header_bytes l) es tail f \<and> l_incompatibleFeatures l = 0 \<and>
     (l_version l = logVersion \<or> l_version l = 4 \<and> l_readOnlyFeatures l = 0)"

definition legacy_log :: "32 word \<Rightarrow> bytes \<Rightarrow> bytes list \<Rightarrow> logRecord list \<Rightarrow> bytes \<Rightarrow> os_file \<Rightarrow> bool" where
  "legacy_log v hdr bs recs tail f \<longleftrightarrow> content f = hdr @ concat bs @ tail \<and> length hdr = logHeaderSize \<and> v < 4 \<and>
     (\<forall>p. parse_header (new_log p) hdr = Inr ((new_log p)\<lparr>l_version := v\<rparr>)) \<and>
     accepts v logHeaderSize bs recs \<and> cut_tail v (logHeaderSize + length (concat bs)) tail"

definition log_of :: "os_file \<Rightarrow> db \<Rightarrow> bool" where
  "log_of f db \<longleftrightarrow> (\<exists>l es tail. current_log l es tail f \<and> items_of es = db) \<or>
     (\<exists>v hdr bs recs tail. legacy_log v hdr bs recs tail f \<and> legacy_items (content f) recs = db)"

text \<open>
  The database is on disk: in the file that the next opening will use, or, after
  the double failure described for compaction, under the name of the backup.
\<close>

definition db_on_disk :: "path \<Rightarrow> db \<Rightarrow> world \<Rightarrow> bool" where
  "db_on_disk p db w \<longleftrightarrow> (\<exists>f. log_of f db \<and> (survivor p w = Some f \<or> clobbered p f w))"

lemma recoverable_log_of: "recoverable f db \<Longrightarrow> log_of f db"
proof -
  have "current_log (new_log []) es tail f" if "log_file new_header es tail f" for es tail
    using that by (simp add: current_log_def new_header_def) (simp add: new_log_def)
  then show "recoverable f db \<Longrightarrow> log_of f db" unfolding recoverable_def log_of_def by blast
qed

lemma current_log_opens:
  assumes "current_log lh es tail f"
  shows "\<exists>l. opens p f l"
    "opens p f l \<Longrightarrow> l_path l = p \<and> \<not> l_closed l \<and> l_writePos l = length (content f) \<and> l_version l = l_version lh \<and>
       l_incompatibleFeatures l = 0 \<and> unknownReadOnly l = unknownReadOnly lh \<and> header_bytes l = header_bytes lh"
proof -
  have f: "content f = header_bytes lh @ log_body es @ tail" using assms by (simp add: current_log_def log_file_def)
  have v: "0 < l_version lh" "l_version lh \<le> logVersion" "l_incompatibleFeatures lh = 0" "l_version lh \<ge> 5 \<or> l_readOnlyFeatures lh = 0"
    using assms by (auto simp: current_log_def logVersion_def)
  note ph = parse_header_bytes [OF v, of p]
  have t: "take logHeaderSize (content f) = header_bytes lh" "logHeaderSize \<le> length (content f)" by (simp_all add: f)
  show "\<exists>l. opens p f l" using ph t by (auto simp: opens_def intro!: exI same_log_refl)
  show "l_path l = p \<and> \<not> l_closed l \<and> l_writePos l = length (content f) \<and> l_version l = l_version lh \<and>
       l_incompatibleFeatures l = 0 \<and> unknownReadOnly l = unknownReadOnly lh \<and> header_bytes l = header_bytes lh" if "opens p f l"
    using that ph t v(3) same_log_simps [of "(new_log p)\<lparr>l_version := l_version lh, l_readOnlyFeatures := l_readOnlyFeatures lh,
      l_writePos := length (content f)\<rparr>" l]
    by (auto simp: opens_def) (simp_all add: new_log_def unknownReadOnly_def header_bytes_def)
qed

lemma legacy_log_opens:
  assumes "legacy_log v hdr bs recs tail f"
  shows "\<exists>l. opens p f l"
    "opens p f l \<Longrightarrow> l_path l = p \<and> \<not> l_closed l \<and> l_writePos l = length (content f) \<and> l_version l = v \<and> unknownReadOnly l = 0"
proof -
  have f: "content f = hdr @ concat bs @ tail" "length hdr = logHeaderSize"
    and ph: "parse_header (new_log p) hdr = Inr ((new_log p)\<lparr>l_version := v\<rparr>)"
    using assms by (simp_all add: legacy_log_def)
  have t: "take logHeaderSize (content f) = hdr" "logHeaderSize \<le> length (content f)" using f by simp_all
  show "\<exists>l. opens p f l" using ph t by (auto simp: opens_def intro!: exI same_log_refl)
  show "l_path l = p \<and> \<not> l_closed l \<and> l_writePos l = length (content f) \<and> l_version l = v \<and> unknownReadOnly l = 0" if "opens p f l"
    using that ph t same_log_simps [of "(new_log p)\<lparr>l_version := v, l_writePos := length (content f)\<rparr>" l]
    by (auto simp: opens_def) (simp_all add: new_log_def unknownReadOnly_def)
qed

lemma log_of_opens: "log_of f db \<Longrightarrow> \<exists>l. opens p f l"
  using current_log_opens(1) legacy_log_opens(1) unfolding log_of_def by blast

text \<open>Records of the old formats can be copied to a log of the current format, all of them.\<close>

lemma accepts_legacy:
  assumes "accepts version p bs recs" "version < 4" "rec \<in> set recs"
  shows "p \<le> lr_Offset rec \<and> lr_Offset rec + unat (lr_Size rec) \<le> p + length (concat bs) \<and> unat (lr_Size rec) \<le> maxValueSize \<and>
    length (lr_Key rec) \<le> maxKeySize \<and> go_map (lr_Attributes rec) \<and> valid_attributes (lr_Attributes rec)"
  using assms
proof (induction version p bs recs rule: accepts.induct)
  case (2 version p b bs r recs)
  have nv: "\<not> 4 \<le> version" using "2.prems"(2) by simp
  have "readLegacyRecordFrom \<lparr>rbuf = b, rerr = EOF\<rparr> p version = Inr (r, p + length b, \<lparr>rbuf = [], rerr = EOF\<rparr>)"
    using "2.prems"(1) nv by (simp add: read_record_def)
  from readLegacyRecordFrom_Inr [OF this] show ?case using 2 by auto
qed simp_all

lemma sint_small:
  assumes "unat (n :: 32 word) \<le> maxValueSize"
  shows "\<not> sint n < 0"
proof -
  have "int (unat n) \<le> 2147483647" using assms unfolding maxValueSize_def by linarith
  then have u: "uint n < 2147483648" unfolding uint_nat by linarith
  have "\<not> bit (uint n) 31"
  proof -
    have "drop_bit 31 (uint n) = 0" using u by (simp add: drop_bit_eq_div)
    then show ?thesis by (simp add: bit_iff_odd_drop_bit)
  qed
  then have "\<not> bit n 31" by (simp add: bit_uint_iff)
  then show ?thesis by (simp add: bit_last_iff [symmetric])
qed

lemma legacy_offers:
  assumes "legacy_log v hdr bs recs tail f" "recovered recs (newIndex fs, newLRUCache n) = (idx, c)"
    "\<not> l_closed l" "l_version l = v" "content g = hdr @ concat bs"
  shows "offers l idx g (legacy_items (content f) recs)"
proof -
  have f: "content f = content g @ tail" "length (content g) = logHeaderSize + length (concat bs)" "v < 4"
    and acc: "accepts v logHeaderSize bs recs"
    using assms(1,5) by (simp_all add: legacy_log_def)
  note rec = accepts_legacy [OF acc f(3)]
  have nv: "\<not> 4 \<le> v" using f(3) by simp
  have idx: "index_inv idx" "index_Get idx k = map_option rec_entry (replay recs k)" for k
    using recovered_spec [OF _ assms(2)] rec by blast+
  have "rel_option (gives l g k) (index_Get idx k) (legacy_items (content f) recs k)" for k
  proof (cases "replay recs k")
    case (Some r)
    then have r: "r \<in> set recs" "lr_Key r = k" using replay_mem by auto
    have "gives l g k (rec_entry r) \<lparr>it_value = slice (lr_Offset r) (unat (lr_Size r)) (content f),
        it_attrs = map_of (lr_Attributes r), it_ext = []\<rparr>"
      using rec [OF r(1)] r(2) f(1,2) nv sint_small [of "lr_Size r"] assms(3,4) tombstone_ok [of k]
      by (simp add: gives_def readable_def rec_entry_def new_entry_def appendable_def min.coboundedI2)
    then show ?thesis using Some by (simp add: idx legacy_items_def)
  qed (simp add: idx legacy_items_def)
  then show ?thesis using idx(1) by (simp add: offers_def)
qed

lemma legacy_items_prefix:
  assumes "legacy_log v hdr bs recs tail f" "content g = hdr @ concat bs"
  shows "legacy_items (content g) recs = legacy_items (content f) recs"
proof -
  have f: "content f = content g @ tail" "length (content g) = logHeaderSize + length (concat bs)" "v < 4"
    and acc: "accepts v logHeaderSize bs recs"
    using assms by (simp_all add: legacy_log_def)
  have "legacy_items (content g) recs k = legacy_items (content f) recs k" for k
  proof (cases "replay recs k")
    case (Some r)
    then show ?thesis
      using accepts_legacy [OF acc f(3), of r] replay_mem [OF Some] f(1,2) by (simp add: legacy_items_def)
  qed (simp add: legacy_items_def)
  then show ?thesis by (rule ext)
qed

text \<open>A log stays a log of the same database when its incomplete end is cut off.\<close>

lemma log_of_whole:
  "current_log l es tail f \<Longrightarrow> content g = header_bytes l @ log_body es \<Longrightarrow> current_log l es [] g"
  "legacy_log v hdr bs recs tail f \<Longrightarrow> content g = hdr @ concat bs \<Longrightarrow> legacy_log v hdr bs recs [] g"
  using log_file_whole by (auto simp: current_log_def log_file_def legacy_log_def cut_tail_def)

end
