(* ===== verification/OpenSpec.thy ===== *)
theory OpenSpec
  imports StoreOpen
begin

text \<open>
  What a store holds after \<^verbatim>\<open>Open\<close>: the database of the log it found, whatever the
  version of the log and whatever an interrupted compaction or append left behind.
  When opening fails or the process dies on the way, the database is still on disk.
\<close>

section \<open>The paths of a migration\<close>

definition backup_paths :: "path \<Rightarrow> 32 word \<Rightarrow> path set" where
  "backup_paths p v = {backup_path p v, backup_path p v @ migrationBackupTempSuffix}"

lemma backup_paths_other:
  "backup_paths p v \<inter> log_paths p = {}" "p \<notin> backup_paths p v" "p @ lockFileSuffix \<notin> backup_paths p v" "p @ lockFileSuffix \<notin> log_paths p"
  by (auto simp: backup_paths_def backup_path_def migrationBackupSuffix_def migrationBackupTempSuffix_def artifacts_def suffixes lockFileSuffix_def)

lemma survivor_cong:
  assumes "\<And>q. q \<in> log_paths p \<Longrightarrow> files w' q = files w q"
  shows "survivor p w' = survivor p w"
proof -
  have "files w' p = files w p" "files w' (p @ compactionReadySuffix) = files w (p @ compactionReadySuffix)"
    "files w' (p @ compactionBackupSuffix) = files w (p @ compactionBackupSuffix)"
    "files w' (p @ legacyCompactionSuffix) = files w (p @ legacyCompactionSuffix)"
    by (rule assms, simp add: artifacts_def)+
  then show ?thesis unfolding survivor_def by (simp only:)
qed

lemma clobbered_cong: "(\<And>q. q \<in> log_paths p \<Longrightarrow> files w' q = files w q) \<Longrightarrow> clobbered p f w' = clobbered p f w"
  by (simp add: clobbered_def artifacts_def)

lemma db_on_disk_cong:
  assumes "\<And>q. q \<in> log_paths p \<Longrightarrow> files w' q = files w q"
  shows "db_on_disk p db w' = db_on_disk p db w"
  using survivor_cong [OF assms] clobbered_cong [OF assms] by (simp add: db_on_disk_def)

lemma db_on_disk_main: "files w p = Some f \<Longrightarrow> log_of f db \<Longrightarrow> db_on_disk p db w"
  by (auto simp: db_on_disk_def survivor_main)

text \<open>
  The copy of the log \<open>f\<close> that is kept, when copies are wanted.
\<close>

definition backed_up :: "Options \<Rightarrow> path \<Rightarrow> 32 word \<Rightarrow> os_file \<Rightarrow> world \<Rightarrow> world \<Rightarrow> bool" where
  "backed_up opts p v f w w' \<longleftrightarrow> NoMigrationBackup opts \<or>
     (case files w (backup_path p v) of
        Some old \<Rightarrow> files w' (backup_path p v) = Some old
      | None \<Rightarrow> \<exists>g. files w' (backup_path p v) = Some g \<and> content g = content f \<and> durable g = content f)"

definition refuses :: "Options \<Rightarrow> error \<Rightarrow> bool" where
  "refuses opts err \<longleftrightarrow> (\<exists>fn info. OnMigrate opts = Some fn \<and> fn info = Some err)"

lemma wp_migrate:
  assumes f: "files w p = Some f" and v: "l_version (s_log s) = v"
    and step: "\<And>w'. only_changes (backup_paths p v) w w' \<Longrightarrow> (calm w \<longrightarrow> calm w') \<Longrightarrow> backed_up (s_options s) p v f w w' \<Longrightarrow>
      wp (if v = 4 then bind_io (setVersion (s_log s) logVersion) (\<lambda>(r, log). return (wrap_result ''migrate log'' r, s\<lparr>s_log := log\<rparr>))
          else bind_io (Compact s) (\<lambda>(r, s). return (wrap_result ''migrate log'' r, s))) Q C w'"
    and bad: "\<And>err w'. \<not> calm w \<or> refuses (s_options s) err \<Longrightarrow> only_changes (backup_paths p v) w w' \<Longrightarrow> (calm w \<longrightarrow> calm w') \<Longrightarrow> Q (Inl err, s) w'"
    and crash: "\<And>w'. \<not> calm w \<Longrightarrow> only_changes (backup_paths p v) w w' \<Longrightarrow> C w'"
  shows "wp (migrate s p) Q C w"
proof -
  define fin where "fin = (\<lambda>info. case (case OnMigrate (s_options s) of Some fn \<Rightarrow> fn info | None \<Rightarrow> None) of
            Some err \<Rightarrow> return (Inl err, s)
          | None \<Rightarrow>
              if mi_FromVersion info = 4 then
                bind_io (setVersion (s_log s) logVersion) (\<lambda>(r, log).
                return (wrap_result ''migrate log'' r, s\<lparr>s_log := log\<rparr>))
              else bind_io (Compact s) (\<lambda>(r, s). return (wrap_result ''migrate log'' r, s)))"
  have fin: "wp (fin info) Q C w'"
    if "mi_FromVersion info = v" "only_changes (backup_paths p v) w w'" "calm w \<longrightarrow> calm w'" "backed_up (s_options s) p v f w w'" for info w'
    using step [OF that(2-4)] bad [OF _ that(2,3)] that(1)
    by (auto simp: fin_def wp_return refuses_def split: option.split)
  let ?info = "\<lparr>mi_Path = p, mi_FromVersion = v, mi_ToVersion = logVersion, mi_Backup = []\<rparr>"
  have eq: "migrate s p = bind_io
        (if NoMigrationBackup (s_options s) then return (Inr ?info)
         else try_io (wrap_error ''back up log before migrating'' (copyLogFile p (backup_path p v)))
           (\<lambda>_. return (Inr (?info\<lparr>mi_Backup := backup_path p v\<rparr>))))
      (\<lambda>r. case r of Inl err \<Rightarrow> return (Inl err, s) | Inr info \<Rightarrow> fin info)"
    unfolding migrate_def fin_def Let_def v by simp
  show ?thesis
  proof (cases "NoMigrationBackup (s_options s)")
    case True
    then show ?thesis unfolding eq using fin [of ?info w] by (simp add: wp_simps backed_up_def)
  next
    case False
    have ne: "p \<noteq> backup_path p v" "p \<noteq> backup_path p v @ migrationBackupTempSuffix"
      using backup_paths_other(2) [of p v] by (simp_all add: backup_paths_def)
    have b: "backed_up (s_options s) p v f w w'" if "copied f (backup_path p v) w w'" "files w' (backup_path p v) \<noteq> None" for w'
      using that by (auto simp: copied_def backed_up_def split: option.split)
    have oc: "only_changes (backup_paths p v) w w'" if "copied f (backup_path p v) w w'" for w'
      using that by (simp add: copied_def backup_paths_def)
    have "wp (copyLogFile p (backup_path p v)) (\<lambda>r. wp (case (case r of Inl err \<Rightarrow> Inl (Wrap ''back up log before migrating'' [err])
          | Inr x \<Rightarrow> Inr (?info\<lparr>mi_Backup := backup_path p v\<rparr>)) of Inl err \<Rightarrow> return (Inl err, s) | Inr info \<Rightarrow> fin info) Q C) C w"
    proof (rule wp_mono [OF wp_copyLogFile [OF f ne]], goal_cases)
      case (1 r w')
      then show ?case
        by (cases r) (auto simp: wp_return intro!: fin bad intro: oc b)
    qed (use crash oc in auto)
    moreover have "try_io (wrap_error ''back up log before migrating'' (copyLogFile p (backup_path p v)))
        (\<lambda>_. return (Inr (?info\<lparr>mi_Backup := backup_path p v\<rparr>))) =
      bind_io (copyLogFile p (backup_path p v)) (\<lambda>r. return (case r of Inl err \<Rightarrow> Inl (Wrap ''back up log before migrating'' [err])
          | Inr x \<Rightarrow> Inr (?info\<lparr>mi_Backup := backup_path p v\<rparr>)))"
      by (auto simp: try_io_def wrap_error_def bind_io_def return_def fun_eq_iff split: option.split sum.split prod.split)
    ultimately show ?thesis
      unfolding eq using False by (simp add: wp_bind wp_return)
  qed
qed

section \<open>Migrating a log of version 4\<close>

text \<open>
  The header of version 4 differs from the current one in a single byte, so
  that an interrupted write leaves one of the two.
\<close>

lemma header_v4:
  assumes "l_version l = 4" "l_incompatibleFeatures l = 0" "l_readOnlyFeatures l = 0"
  shows "header_bytes l = bytes_of logMagic @ [4, 0, 0, 0, 0, 0, 0, 0, 0, 0, 0, 0]"
    "header_bytes (l\<lparr>l_version := logVersion\<rparr>) = bytes_of logMagic @ [5, 0, 0, 0, 0, 0, 0, 0, 0, 0, 0, 0]"
    "new_header = bytes_of logMagic @ [5, 0, 0, 0, 0, 0, 0, 0, 0, 0, 0, 0]"
  using assms by (simp_all add: header_bytes_def new_header_def new_log_def logMagic_def logVersion_def PutUint32_def)

lemma header_v4_torn:
  assumes "l_version l = 4" "l_incompatibleFeatures l = 0" "l_readOnlyFeatures l = 0" "h = header_bytes (l\<lparr>l_version := logVersion\<rparr>)"
  shows "write_at (header_bytes l @ b) 0 (take n h) \<in> {header_bytes l @ b, h @ b}" "write_at (header_bytes l @ b) 0 h = h @ b"
proof -
  have m: "length (bytes_of logMagic) = 4" by (simp add: logMagic_def)
  show "write_at (header_bytes l @ b) 0 (take n h) \<in> {header_bytes l @ b, h @ b}"
  proof (cases "n \<le> 4")
    case True
    then have "take n h = take n (header_bytes l)" using assms(4) m by (simp add: header_v4 [OF assms(1-3)])
    moreover have "n \<le> length (header_bytes l)" using True by (simp add: logHeaderSize_def)
    ultimately show ?thesis by (simp add: write_at_def min_absorb1)
  next
    case False
    then obtain k where "n = Suc (4 + k)" using less_iff_Suc_add [of 4 n] by auto
    then have "drop n h = drop n (header_bytes l)" using assms(4) m by (simp add: header_v4 [OF assms(1-3)])
    moreover have "take n h @ drop n h @ b = h @ b" by (simp only: append_assoc [symmetric] append_take_drop_id)
    ultimately show ?thesis using assms(4) by (cases "n \<le> logHeaderSize") (auto simp: write_at_def)
  qed
  show "write_at (header_bytes l @ b) 0 h = h @ b" using assms(4) by (simp add: write_at_def)
qed

text \<open>The state of a store between recovery and migration.\<close>

definition unmigrated :: "Store \<Rightarrow> path \<Rightarrow> ent list \<Rightarrow> os_file \<Rightarrow> world \<Rightarrow> bool" where
  "unmigrated s p es f w \<longleftrightarrow> store_open s p w \<and> indexes (s_index s) es \<and> coherent s es \<and> files w p = Some f \<and>
     content f = header_bytes (s_log s) @ log_body es \<and> (\<forall>e \<in> set es. ent_ok e) \<and> \<not> l_closed (s_log s) \<and>
     l_version (s_log s) = 4 \<and> l_incompatibleFeatures (s_log s) = 0 \<and> l_readOnlyFeatures (s_log s) = 0 \<and> l_writePos (s_log s) = log_end es"

lemma unmigrated_log_of:
  assumes "unmigrated s p es f w" "content g \<in> {content f, new_header @ log_body es}"
  shows "log_of g (items_of es)"
proof -
  have *: "header_bytes (s_log s) @ log_body es = content f" "\<forall>e \<in> set es. ent_ok e"
    "l_version (s_log s) = 4" "l_incompatibleFeatures (s_log s) = 0" "l_readOnlyFeatures (s_log s) = 0"
    using assms(1) by (simp_all add: unmigrated_def)
  show ?thesis
  proof (cases "content g = content f")
    case True
    then have "current_log (s_log s) es [] g" using * log_file_whole [of g "header_bytes (s_log s)" es] by (simp add: current_log_def)
    then show ?thesis unfolding log_of_def by blast
  next
    case False
    then have "recoverable g (items_of es)" using assms(2) *(2) log_file_whole [of g new_header es] by (auto simp: recoverable_def)
    then show ?thesis by (rule recoverable_log_of)
  qed
qed

lemma wp_setVersion:
  assumes s: "unmigrated s p es f w"
    and good: "\<And>fs g. still w fs \<Longrightarrow> durable g = content g \<Longrightarrow> content g = new_header @ log_body es \<Longrightarrow>
      Q (Inr (), (s_log s)\<lparr>l_version := logVersion\<rparr>) (set_file p (Some g) (w\<lparr>faults := fs\<rparr>))"
    and bad: "\<And>fs g err l. \<not> calm w \<Longrightarrow> log_of g (items_of es) \<Longrightarrow> Q (Inl err, l) (set_file p (Some g) (w\<lparr>faults := fs\<rparr>))"
    and crash: "\<And>fs g. \<not> calm w \<Longrightarrow> log_of g (items_of es) \<Longrightarrow> C (set_file p (Some g) (w\<lparr>faults := fs\<rparr>))"
  shows "wp (setVersion (s_log s) logVersion) Q C w"
proof -
  have *: "content f = header_bytes (s_log s) @ log_body es" "files w p = Some f" "l_path (s_log s) = p" "\<not> l_closed (s_log s)"
    "l_version (s_log s) = 4" "l_incompatibleFeatures (s_log s) = 0" "l_readOnlyFeatures (s_log s) = 0"
    using s by (simp_all add: unmigrated_def store_open_def)
  let ?h = "header_bytes ((s_log s)\<lparr>l_version := logVersion\<rparr>)"
  have h: "?h = new_header" using header_v4(2,3) [OF *(5-7)] by simp
  note torn = header_v4_torn [OF *(5-7) refl, folded *(1)]
  have log: "log_of g (items_of es)" if "content g = content f \<or> content g = new_header @ log_body es" for g
    using unmigrated_log_of [OF s, of g] that by blast
  have same: "set_file p (Some f) (w\<lparr>faults := fs\<rparr>) = w\<lparr>faults := fs\<rparr>" for fs using *(2) by (simp add: set_file_def fun_upd_idem)
  have part: "log_of (f\<lparr>content := write_at (content f) 0 (take n new_header)\<rparr>) (items_of es)" for n
    using torn(1) [of "log_body es" n] h *(1) by (intro log) auto
  have whole: "write_at (content f) 0 new_header = new_header @ log_body es" using torn(2) h *(1) by simp
  have twice: "set_file p (Some g) (set_file p (Some f') w') = set_file p (Some g) w'" for f' g w' by (simp add: set_file_def)
  have l: "\<not> l_closed ((s_log s)\<lparr>l_version := logVersion\<rparr>)" using *(4) by simp
  have sync: "wp (bind_io (file_Sync p) (\<lambda>r. return (r, (s_log s)\<lparr>l_version := logVersion\<rparr>))) Q C
      (set_file p (Some (f\<lparr>content := new_header @ log_body es\<rparr>)) (w\<lparr>faults := fs\<rparr>))" if "still w fs" for fs
    using that by (intro wp_bindI wp_Sync) (auto simp: wp_return twice still_def intro!: good bad crash log)
  have "wp (file_WriteAt p 0 new_header) (\<lambda>r. wp (case r of
        Inl err \<Rightarrow> return (Inl err, (s_log s)\<lparr>l_version := l_version (s_log s)\<rparr>)
      | Inr _ \<Rightarrow> bind_io (file_Sync p) (\<lambda>r. return (r, (s_log s)\<lparr>l_version := logVersion\<rparr>))) Q C) C w"
    using *(2) sync part whole bad [where g = f] crash [where g = f] log [of f]
    by (intro wp_WriteAt) (auto simp: wp_return same intro!: bad crash)
  then show ?thesis
    unfolding setVersion_def writeHeader_def file_sync_def Let_def on_handle_open [OF l] wp_bind using *(3) h by (simp cong: sum.case_cong)
qed

lemma migrated_inv:
  assumes "unmigrated s p es f w" "content g = new_header @ log_body es" "files w' p = Some g" "locked w' = locked w"
  shows "store_inv (s\<lparr>s_log := (s_log s)\<lparr>l_version := logVersion\<rparr>\<rparr>) p es [] w'"
proof -
  let ?l = "(s_log s)\<lparr>l_version := logVersion\<rparr>"
  have "header_bytes ?l = new_header" using assms(1) header_v4(2,3) [of "s_log s"] by (simp add: unmigrated_def)
  then have "log_holds ?l es [] g" using assms(1,2) by (simp add: unmigrated_def log_holds_def)
  then show ?thesis
    using assms by (auto simp: unmigrated_def store_inv_def store_open_def coherent_def ReadOnly_def unknownReadOnly_def)
qed

lemma unmigrated_world:
  "unmigrated s p es f w \<Longrightarrow> files w' p = files w p \<Longrightarrow> locked w' = locked w \<Longrightarrow> unmigrated s p es f w'"
  by (simp add: unmigrated_def store_open_def)

text \<open>What a migration promises, for both ways of migrating.\<close>

definition migrate_post :: "path \<Rightarrow> os_file \<Rightarrow> db \<Rightarrow> Store \<Rightarrow> world \<Rightarrow> (error + unit) \<times> Store \<Rightarrow> world \<Rightarrow> bool" where
  "migrate_post p f db s w = (\<lambda>(r, s') w'. let v = l_version (s_log s) in
     only_changes (log_paths p \<union> backup_paths p v) w w' \<and> (calm w \<longrightarrow> calm w') \<and> same_config s s' \<and> s_lock s' = s_lock s \<and> (case r of
       Inr _ \<Rightarrow> backed_up (s_options s) p v f w w' \<and> synced p w' \<and> (\<exists>es. store_inv s' p es [] w' \<and> items_of es = db)
     | Inl err \<Rightarrow> (\<not> calm w \<or> refuses (s_options s) err) \<and> db_on_disk p db w'))"

definition migrate_crash :: "path \<Rightarrow> db \<Rightarrow> world \<Rightarrow> world \<Rightarrow> bool" where
  "migrate_crash p db w w' \<longleftrightarrow> \<not> calm w \<and> db_on_disk p db w'"

lemma backed_up_later:
  "backed_up opts p v f w w' \<Longrightarrow> only_changes (log_paths p) w' w'' \<Longrightarrow> backed_up opts p v f w w''"
  using backup_paths_other(1) [of p v] by (auto simp: backed_up_def only_changes_def backup_paths_def split: option.splits)

lemma only_changes_join:
  "only_changes (backup_paths p v) w w' \<Longrightarrow> only_changes (log_paths p) w' w'' \<Longrightarrow> only_changes (log_paths p \<union> backup_paths p v) w w''"
  by (auto simp: only_changes_def)

lemma only_backup:
  assumes "only_changes (backup_paths p v) w w'"
  shows "q \<in> log_paths p \<Longrightarrow> files w' q = files w q" "files w' p = files w p" "locked w' = locked w"
    "only_changes (log_paths p \<union> backup_paths p v) w w'"
  using assms backup_paths_other(1,2) [of p v] by (auto simp: only_changes_def)

lemma wp_migrate_v4:
  assumes s: "unmigrated s p es f w"
  shows "wp (migrate s p) (migrate_post p f (items_of es) s w) (migrate_crash p (items_of es) w) w"
proof (rule wp_migrate)
  show f: "files w p = Some f" and v: "l_version (s_log s) = 4" using s by (simp_all add: unmigrated_def)
  have log: "log_of f (items_of es)" by (rule unmigrated_log_of [OF s]) simp
  fix w' assume w': "only_changes (backup_paths p 4) w w'" "calm w \<longrightarrow> calm w'" "backed_up (s_options s) p 4 f w w'"
  have s': "unmigrated s p es f w'" using unmigrated_world [OF s] only_backup [OF w'(1)] by simp
  have oc: "only_changes (log_paths p) w' (set_file p g (w'\<lparr>faults := fs\<rparr>))" for g fs by auto
  show "wp (if 4 = (4 :: 32 word) then bind_io (setVersion (s_log s) logVersion) (\<lambda>(r, log). return (wrap_result ''migrate log'' r, s\<lparr>s_log := log\<rparr>))
      else bind_io (Compact s) (\<lambda>(r, s). return (wrap_result ''migrate log'' r, s)))
    (migrate_post p f (items_of es) s w) (migrate_crash p (items_of es) w) w'"
    unfolding if_P [OF refl] wp_bind
  proof (rule wp_setVersion [OF s'], goal_cases)
    case (1 fs g)
    then show ?case
      using w' migrated_inv [OF s', of g "set_file p (Some g) (w'\<lparr>faults := fs\<rparr>)"] only_changes_join [OF w'(1) oc] backed_up_later [OF w'(3) oc] v
      by (auto simp: wp_return migrate_post_def wrap_result_def same_config_def synced_def still_def)
  next
    case (2 fs g err l)
    then show ?case
      using w' only_changes_join [OF w'(1) oc] db_on_disk_main [of "set_file p (Some g) (w'\<lparr>faults := fs\<rparr>)" p g] v
      by (auto simp: wp_return migrate_post_def wrap_result_def same_config_def)
  next
    case (3 fs g)
    then show ?case using w' db_on_disk_main [of "set_file p (Some g) (w'\<lparr>faults := fs\<rparr>)" p g] by (auto simp: migrate_crash_def)
  qed
next
  have log: "log_of f (items_of es)" "files w p = Some f" "l_version (s_log s) = 4" using unmigrated_log_of [OF s] s by (simp_all add: unmigrated_def)
  show "migrate_post p f (items_of es) s w (Inl err, s) w'"
    if "\<not> calm w \<or> refuses (s_options s) err" "only_changes (backup_paths p 4) w w'" "calm w \<longrightarrow> calm w'" for err w'
    using that log only_backup [OF that(2)] db_on_disk_main [of w' p f] by (auto simp: migrate_post_def same_config_def)
  show "migrate_crash p (items_of es) w w'" if "\<not> calm w" "only_changes (backup_paths p 4) w w'" for w'
    using that log only_backup [OF that(2)] db_on_disk_main [of w' p f] by (auto simp: migrate_crash_def)
qed

section \<open>Migrating a log of version 1 to 3\<close>

lemma disk_ok_db_on_disk:
  assumes "disk_ok_db p g db w" "log_of g db"
  shows "db_on_disk p db w"
  using assms recoverable_log_of [OF recoverable_compacted] by (auto simp: disk_ok_db_def disk_ok_def db_on_disk_def)

lemma installed_db_on_disk: "installed_db p db s s' w \<Longrightarrow> db_on_disk p db w"
  using recoverable_log_of [OF recoverable_compacted] survivor_main by (fastforce simp: installed_db_def installed_def db_on_disk_def)

definition same_shell :: "Store \<Rightarrow> Store \<Rightarrow> bool" where
  "same_shell s s' \<longleftrightarrow> same_config s s' \<and> s_lock s' = s_lock s"

lemma wp_Compact_offers:
  assumes s: "store_open s p w" "\<not> ReadOnly s" "\<not> l_closed (s_log s)" and g: "files w p = Some g" "opens p g l0" "log_of g db"
    and db: "offers (s_log s) (s_index s) g db"
  shows "wp (Compact s)
    (\<lambda>(r, s') w'. only_changes (log_paths p) w w' \<and> (calm w \<longrightarrow> calm w') \<and> same_shell s s' \<and> (case r of
       Inr _ \<Rightarrow> synced p w' \<and> (\<exists>es. store_inv s' p es [] w' \<and> items_of es = db)
     | Inl _ \<Rightarrow> \<not> calm w \<and> db_on_disk p db w'))
    (\<lambda>w'. \<not> calm w \<and> db_on_disk p db w') w"
proof -
  let ?s = "s\<lparr>s_compacting := True\<rparr>"
  have st: "\<not> s_closed s" "\<not> s_compacting s" "s_readOnlyReason s = None" "l_path (s_log s) = p"
    using s by (auto simp: store_open_def ReadOnly_def)
  have eq: "Compact s = bind_io (compact_locked ?s) (\<lambda>(r, s). return (r, s\<lparr>s_compacting := False\<rparr>))"
    using st(1-3) by (simp add: Compact_def)
  have pre: "l_path (s_log ?s) = p" "\<not> l_closed (s_log ?s)" "offers (s_log ?s) (s_index ?s) g db" using st(4) s(3) db by simp_all
  show ?thesis
    unfolding eq
  proof (rule wp_bindI, rule wp_mono [OF wp_compact_locked [OF g(1) pre(1,2) g(2) pre(3)]], goal_cases)
    case (1 x w')
    obtain r s1 where x: "x = (r, s1)" by (cases x)
    let ?t = "s1\<lparr>s_compacting := False\<rparr>"
    have post: "compact_post p g db ?s w (r, s1) w'" using 1 x by simp
    then have w': "only_changes (log_paths p) w w'" "calm w \<longrightarrow> calm w'" "locked w' = locked w"
      by (auto simp: compact_post_def only_changes_def)
    have inst: "(\<exists>es. store_inv ?t p es [] w' \<and> items_of es = db) \<and> synced p w' \<and> same_shell s ?t \<and> db_on_disk p db w'"
      if ins: "installed_db p db ?s s1 w'"
    proof -
      have i: "installed_db p db s ?t w'" by (rule installed_compacting [OF ins st(2)])
      obtain l nidx st where "s1 = ?s\<lparr>s_log := l, s_index := nidx, s_cache := cache_Clear (s_cache ?s), s_stats := st\<rparr>"
        using ins by (auto simp: installed_db_def installed_def)
      then have "s_lock ?t = s_lock s" by simp
      then show ?thesis
        using installed_inv [OF s(1,2) i w'(3)] installed_db_on_disk [OF i] by (auto simp: same_shell_def)
    qed
    have old: "same_shell s ?t \<and> db_on_disk p db w'"
      if "kept p g (?s\<lparr>s_index := idx\<rparr>) s1 w' \<or> (\<exists>l. s1 = ?s\<lparr>s_index := idx, s_log := l\<rparr>) \<and> displaced p g w' \<and> disk_ok_db p g db w'" for idx
      using that db_on_disk_main [of w' p g] disk_ok_db_on_disk [of p g db w'] g(3)
      by (auto simp: kept_def same_shell_def same_config_def)
    show ?case
    proof (cases r)
      case (Inr u)
      then show ?thesis using post w' inst by (simp add: x wp_return compact_post_def)
    next
      case (Inl err)
      then have nc: "\<not> calm w" and c: "installed_db p db ?s s1 w' \<or>
          (\<exists>idx \<in> {s_index s, snd (KeysSortedByOffset (s_index s))}. kept p g (?s\<lparr>s_index := idx\<rparr>) s1 w' \<or>
            (\<exists>l. s1 = ?s\<lparr>s_index := idx, s_log := l\<rparr>) \<and> displaced p g w' \<and> disk_ok_db p g db w')"
        using post by (simp_all add: compact_post_def)
      have "same_shell s ?t \<and> db_on_disk p db w'" using c inst old by metis
      then show ?thesis using Inl w' nc by (simp add: x wp_return)
    qed
  next
    case (2 w')
    then show ?case
      using disk_ok_db_on_disk [of p g db w'] db_on_disk_main [of w' p g] g(3) by (auto simp: compact_crash_def)
  qed
qed

lemma wp_migrate_legacy:
  assumes s: "store_open s p w" "\<not> ReadOnly s" "\<not> l_closed (s_log s)" "l_version (s_log s) < 4"
    and g: "files w p = Some g" "opens p g l0" "log_of g db" and db: "offers (s_log s) (s_index s) g db"
  shows "wp (migrate s p) (migrate_post p g db s w) (migrate_crash p db w) w"
proof (rule wp_migrate [OF g(1) refl])
  let ?v = "l_version (s_log s)"
  have v: "?v \<noteq> 4" using s(4) by auto
  fix w' assume w': "only_changes (backup_paths p ?v) w w'" "calm w \<longrightarrow> calm w'" "backed_up (s_options s) p ?v g w w'"
  have s': "store_open s p w'" "files w' p = Some g" using s(1) g(1) only_backup [OF w'(1)] by (simp_all add: store_open_def)
  show "wp (if ?v = 4 then bind_io (setVersion (s_log s) logVersion) (\<lambda>(r, log). return (wrap_result ''migrate log'' r, s\<lparr>s_log := log\<rparr>))
      else bind_io (Compact s) (\<lambda>(r, s). return (wrap_result ''migrate log'' r, s)))
    (migrate_post p g db s w) (migrate_crash p db w) w'"
    unfolding if_not_P [OF v] wp_bind
  proof (rule wp_mono [OF wp_Compact_offers [OF s'(1) s(2,3) s'(2) g(2,3) db]], goal_cases)
    case (1 x w'')
    then have oc: "only_changes (log_paths p) w' w''" by (auto split: prod.splits)
    show ?case
      using 1 w'(2) only_changes_join [OF w'(1) oc] backed_up_later [OF w'(3) oc]
      by (auto simp: wp_return migrate_post_def wrap_result_def same_shell_def split: sum.splits prod.splits)
  qed (use w'(2) in \<open>auto simp: migrate_crash_def\<close>)
next
  let ?v = "l_version (s_log s)"
  show "migrate_post p g db s w (Inl err, s) w'"
    if "\<not> calm w \<or> refuses (s_options s) err" "only_changes (backup_paths p ?v) w w'" "calm w \<longrightarrow> calm w'" for err w'
    using that g only_backup [OF that(2)] db_on_disk_main [of w' p g] by (auto simp: migrate_post_def same_config_def)
  show "migrate_crash p db w w'" if "\<not> calm w" "only_changes (backup_paths p ?v) w w'" for w'
    using that g only_backup [OF that(2)] db_on_disk_main [of w' p g] by (auto simp: migrate_crash_def)
qed

section \<open>After recovery\<close>

definition holds_db :: "Store \<Rightarrow> path \<Rightarrow> db \<Rightarrow> world \<Rightarrow> bool" where
  "holds_db s p db w \<longleftrightarrow> (\<exists>es tail. store_inv s p es tail w \<and> items_of es = db \<and> (ReadOnly s \<or> tail = []))"

definition recovered_ok :: "path \<Rightarrow> db \<Rightarrow> Store \<Rightarrow> world \<Rightarrow> bool" where
  "recovered_ok p db s w \<longleftrightarrow>
     l_version (s_log s) = logVersion \<and> holds_db s p db w \<or>
     (\<exists>es g. unmigrated s p es g w \<and> items_of es = db) \<or>
     (\<exists>g l0. store_open s p w \<and> \<not> ReadOnly s \<and> \<not> l_closed (s_log s) \<and> l_version (s_log s) < 4 \<and>
        files w p = Some g \<and> opens p g l0 \<and> log_of g db \<and> offers (s_log s) (s_index s) g db)"

lemma new_store_open:
  assumes "lk_file lock = Some (p @ lockFileSuffix)" "p @ lockFileSuffix \<in> locked w" "l_path l = p"
    "set (indexedFields idx) = set (IndexedFields opts) - {[]}"
  shows "store_open ((new_store opts lock l)\<lparr>s_log := l\<lparr>l_writePos := n\<rparr>, s_index := idx, s_cache := c\<rparr>) p w"
  using assms by (simp add: store_open_def new_store_def ReadOnly_def unknownReadOnly_def)

lemma new_store_simps [simp]:
  "s_log (new_store opts lock l) = l" "s_index (new_store opts lock l) = newIndex (IndexedFields opts)"
  "s_cache (new_store opts lock l) = newLRUCache (CacheSize opts)" "s_options (new_store opts lock l) = opts"
  "s_lock (new_store opts lock l) = lock" "ReadOnly (new_store opts lock l) \<longleftrightarrow> unknownReadOnly l \<noteq> 0"
  by (simp_all add: new_store_def ReadOnly_def)

definition recover_post :: "path \<Rightarrow> os_file \<Rightarrow> db \<Rightarrow> Options \<Rightarrow> fileLock \<Rightarrow> world \<Rightarrow> (error + unit) \<times> Store \<Rightarrow> world \<Rightarrow> bool" where
  "recover_post p f db opts lock w = (\<lambda>(r, s) w'. only_changes {p} w w' \<and> (calm w \<longrightarrow> calm w') \<and> s_options s = opts \<and> s_lock s = lock \<and>
     (case r of Inr _ \<Rightarrow> recovered_ok p db s w' | Inl _ \<Rightarrow> \<not> calm w \<and> files w' p = Some f))"

lemma wp_recover_current:
  assumes lock: "lk_file lock = Some (p @ lockFileSuffix)" "p @ lockFileSuffix \<in> locked w"
    and f: "files w p = Some f" "opens p f l" "current_log lh es tail f"
  shows "wp (recover (new_store opts lock l)) (recover_post p f (items_of es) opts lock w) (\<lambda>w'. \<not> calm w \<and> files w' = files w) w"
proof -
  note l = current_log_opens(2) [OF f(3,2)]
  have v: "l_version l \<ge> 4" using l f(3) by (auto simp: current_log_def logVersion_def)
  have lf: "log_file (header_bytes l) es tail f" using f(3) l by (simp add: current_log_def)
  note ch = log_file_chunks [OF lf v]
  have ok: "\<forall>e \<in> set es. ent_ok e" using lf by (simp add: log_file_def)
  show ?thesis
  proof (rule wp_recover [where f = f and tail = tail and hdr = "header_bytes l" and bs = "map ent_bytes es"
        and recs = "map ent_record (places logHeaderSize es)"], goal_cases)
    case (8 fs idx c)
    note r = recovered_ents [OF ok, of "IndexedFields opts" "CacheSize opts" idx c]
    have rec: "indexes idx es" "set (indexedFields idx) = set (IndexedFields opts) - {[]}" "cache_inv c" "recency c = []"
      using r 8 by simp_all
    let ?s = "(new_store opts lock l)\<lparr>s_log := l\<lparr>l_writePos := logHeaderSize + length (log_body es)\<rparr>, s_index := idx, s_cache := c\<rparr>"
    have "recovered_ok p (items_of es) ?s w'" if "locked w' = locked w" "files w' p = Some g"
        "content g = header_bytes l @ log_body es @ tail'" "tail' = [] \<or> unknownReadOnly l \<noteq> 0" for w' g tail'
    proof -
      have so: "store_open ?s p w'" using new_store_open [OF lock _ rec(2), of l] l that(1) by (simp add: store_open_def)
      have co: "coherent ?s es" using rec by (simp add: coherent_def)
      consider "l_version l = logVersion" | "l_version l = 4" "l_readOnlyFeatures l = 0"
        using f(3) l by (auto simp: current_log_def header_bytes_def unknownReadOnly_def knownReadOnlyFeatures_def)
      then show ?thesis
      proof cases
        case 1
        then have "log_holds (s_log ?s) es tail' g" using l that ok by (simp add: log_holds_def log_end_def)
        then have "store_inv ?s p es tail' w'" using so co rec that by (auto simp: store_inv_def)
        moreover have "ReadOnly ?s \<or> tail' = []" using that(4) by (auto simp: ReadOnly_def new_store_def)
        ultimately have "holds_db ?s p (items_of es) w'" unfolding holds_db_def by blast
        then show ?thesis using 1 by (simp add: recovered_ok_def)
      next
        case 2
        then have "unmigrated ?s p es g w'"
          using l that so co rec ok by (auto simp: unmigrated_def log_end_def unknownReadOnly_def)
        then show ?thesis by (auto simp: recovered_ok_def)
      qed
    qed
    then show ?case
      using 8 l f(1) ch(1) by (auto simp: recover_post_def still_def)
  qed (use l f ch in \<open>auto simp: recover_post_def still_def\<close>)
qed

lemma wp_recover_legacy:
  assumes lock: "lk_file lock = Some (p @ lockFileSuffix)" "p @ lockFileSuffix \<in> locked w"
    and f: "files w p = Some f" "opens p f l" "legacy_log v hdr bs recs tail f"
  shows "wp (recover (new_store opts lock l)) (recover_post p f (legacy_items (content f) recs) opts lock w) (\<lambda>w'. \<not> calm w \<and> files w' = files w) w"
proof -
  note l = legacy_log_opens(2) [OF f(3,2)]
  have ch: "content f = hdr @ concat bs @ tail" "length hdr = logHeaderSize" "v < 4" "accepts v logHeaderSize bs recs"
    "cut_tail v (logHeaderSize + length (concat bs)) tail"
    using f(3) by (simp_all add: legacy_log_def)
  show ?thesis
  proof (rule wp_recover [where f = f and tail = tail and hdr = hdr and bs = bs and recs = recs], goal_cases)
    case (8 fs idx c)
    let ?s = "(new_store opts lock l)\<lparr>s_log := l\<lparr>l_writePos := logHeaderSize + length (concat bs)\<rparr>, s_index := idx, s_cache := c\<rparr>"
    let ?g = "f\<lparr>content := hdr @ concat bs\<rparr>"
    have r: "recovered recs (newIndex (IndexedFields opts), newLRUCache (CacheSize opts)) = (idx, c)" using 8 by simp
    have "\<forall>rec \<in> set recs. go_map (lr_Attributes rec)" using accepts_legacy [OF ch(4,3)] by blast
    note sp = recovered_spec [OF this r]
    have g: "legacy_log v hdr bs recs [] ?g" by (rule log_of_whole(2) [OF f(3)]) simp
    have lo: "log_of ?g (legacy_items (content f) recs)"
      unfolding log_of_def using g legacy_items_prefix [OF f(3), of ?g]
      by (intro disjI2 exI [of _ v] exI [of _ hdr] exI [of _ bs] exI [of _ recs] exI [of _ "[]"]) simp
    have off: "offers (s_log ?s) (s_index ?s) ?g (legacy_items (content f) recs)"
      using legacy_offers [OF f(3) r, of "s_log ?s" ?g] l by simp
    obtain l0 where "opens p ?g l0" using legacy_log_opens(1) [OF g] by blast
    then have "recovered_ok p (legacy_items (content f) recs) ?s w'" if "locked w' = locked w" "files w' p = Some ?g" for w'
      using that lo off l ch(3) new_store_open [OF lock _ sp(3), of l] unfolding recovered_ok_def
      by (intro disjI2 exI [of _ ?g] exI [of _ l0]) (auto simp: store_open_def ReadOnly_def new_store_def)
    then show ?case using 8 l f(1) by (auto simp: recover_post_def still_def)
  qed (use l f ch in \<open>auto simp: recover_post_def still_def\<close>)
qed

lemma wp_recover_log:
  assumes lock: "lk_file lock = Some (p @ lockFileSuffix)" "p @ lockFileSuffix \<in> locked w"
    and f: "files w p = Some f" "opens p f l" "log_of f db"
  shows "wp (recover (new_store opts lock l)) (recover_post p f db opts lock w) (\<lambda>w'. \<not> calm w \<and> files w' = files w) w"
  using f(3) wp_recover_current [OF lock f(1,2)] wp_recover_legacy [OF lock f(1,2)] unfolding log_of_def by blast

text \<open>The step that brings an old log up to date.\<close>

definition store_paths :: "path \<Rightarrow> path set" where
  "store_paths p = insert (p @ lockFileSuffix) (log_paths p) \<union> (\<Union>v. backup_paths p v)"

definition files_only :: "path set \<Rightarrow> world \<Rightarrow> world \<Rightarrow> bool" where
  "files_only P w w' \<longleftrightarrow> (\<forall>q. q \<notin> P \<longrightarrow> files w' q = files w q)"

lemma files_only_trans: "files_only P w w' \<Longrightarrow> files_only P w' w'' \<Longrightarrow> files_only P w w''"
  by (simp add: files_only_def)

lemma only_changes_files: "only_changes Q w w' \<Longrightarrow> Q \<subseteq> P \<Longrightarrow> files_only P w w'"
  by (auto simp: only_changes_def files_only_def)

definition update_post :: "path \<Rightarrow> db \<Rightarrow> Store \<Rightarrow> world \<Rightarrow> (error + unit) \<times> Store \<Rightarrow> world \<Rightarrow> bool" where
  "update_post p db s w = (\<lambda>(r, s') w'. files_only (store_paths p) w w' \<and> locked w' = locked w \<and> (calm w \<longrightarrow> calm w') \<and>
     s_options s' = s_options s \<and> s_lock s' = s_lock s \<and> (case r of
       Inr _ \<Rightarrow> holds_db s' p db w'
     | Inl err \<Rightarrow> (\<not> calm w \<or> refuses (s_options s) err) \<and> db_on_disk p db w'))"

lemma migrate_post_update: "migrate_post p f db s w x w' \<Longrightarrow> update_post p db s w x w'"
  unfolding migrate_post_def update_post_def holds_db_def same_config_def
  by (cases x; cases "fst x")
    (auto simp: Let_def store_paths_def only_changes_def files_only_def)

lemma wp_update:
  assumes "recovered_ok p db s w"
  shows "wp (if l_version (s_log s) < logVersion then migrate s p else return (Inr (), s)) (update_post p db s w) (migrate_crash p db w) w"
  using assms unfolding recovered_ok_def
proof (elim disjE exE conjE)
  assume "l_version (s_log s) = logVersion" "holds_db s p db w"
  then show ?thesis by (simp add: wp_return update_post_def files_only_def)
next
  fix es g assume u: "unmigrated s p es g w" and db: "items_of es = db"
  then have "l_version (s_log s) < logVersion" by (simp add: unmigrated_def logVersion_def)
  then show ?thesis
    using wp_mono [OF wp_migrate_v4 [OF u] migrate_post_update] db by simp
next
  fix g l0 assume a: "store_open s p w" "\<not> ReadOnly s" "\<not> l_closed (s_log s)" "l_version (s_log s) < 4"
    "files w p = Some g" "opens p g l0" "log_of g db" "offers (s_log s) (s_index s) g db"
  have "l_version (s_log s) < logVersion" using order_less_trans [OF a(4), of logVersion] by (simp add: logVersion_def)
  then show ?thesis
    using wp_mono [OF wp_migrate_legacy [OF a] migrate_post_update] by simp
qed

section \<open>Open\<close>

lemma holds_db_tasks [simp]:
  "holds_db (startSyncTask s) p db w = holds_db s p db w" "holds_db (startCompactionTask s) p db w = holds_db s p db w"
  by (simp_all add: startSyncTask_def startCompactionTask_def holds_db_def store_inv_def store_open_def coherent_def ReadOnly_def)

lemma options_tasks [simp]:
  "s_options (startSyncTask s) = s_options s" "s_options (startCompactionTask s) = s_options s"
  by (simp_all add: startSyncTask_def startCompactionTask_def)

definition open_post :: "path \<Rightarrow> db \<Rightarrow> Options \<Rightarrow> world \<Rightarrow> error + Store \<Rightarrow> world \<Rightarrow> bool" where
  "open_post p db opts w r w' \<longleftrightarrow> files_only (store_paths p) w w' \<and> (calm w \<longrightarrow> calm w') \<and> (case r of
     Inr s \<Rightarrow> locked w' = insert (p @ lockFileSuffix) (locked w) \<and> s_options s = opts \<and> holds_db s p db w'
   | Inl err \<Rightarrow> (\<not> calm w \<or> refuses opts err) \<and> locked w' = locked w - {p @ lockFileSuffix} \<and> db_on_disk p db w')"

definition open_crash :: "path \<Rightarrow> db \<Rightarrow> world \<Rightarrow> world \<Rightarrow> bool" where
  "open_crash p db w w' \<longleftrightarrow> \<not> calm w \<and> db_on_disk p db w'"

lemma db_on_disk_files: "files w' = files w \<Longrightarrow> db_on_disk p db w' = db_on_disk p db w"
  by (rule db_on_disk_cong) simp

lemma release_post:
  assumes "files_only (store_paths p) w w1" "locked w1 = locked w" "db_on_disk p db w1" "\<not> calm w \<or> refuses opts err"
    "calm w \<longrightarrow> calm w'" "only_changes {} (w1\<lparr>locked := locked w1 - {p @ lockFileSuffix}\<rparr>) w'"
  shows "open_post p db opts w (Inl err) w'"
proof -
  have "files w' = files w1" "locked w' = locked w - {p @ lockFileSuffix}" using assms(2,6) by (auto simp: only_changes_def)
  then show ?thesis using assms db_on_disk_files [of w' w1 p db] by (simp add: open_post_def files_only_def)
qed

text \<open>The failures after the log has been opened: everything is given up again.\<close>

lemma wp_give_up_open:
  assumes "files_only (store_paths p) w w1" "locked w1 = locked w" "calm w \<longrightarrow> calm w1" "lk_file (s_lock s) = Some (p @ lockFileSuffix)"
    "db_on_disk p db w1" "\<not> calm w \<or> refuses opts err"
  shows "wp (give_up s err) (open_post p db opts w) (open_crash p db w) w1"
proof (rule wp_mono [OF wp_give_up [OF assms(4)]], goal_cases)
  case (1 r w')
  then show ?case using release_post [OF assms(1,2,5,6)] assms(3) by simp
next
  case (2 w')
  then show ?case using assms(3,5) db_on_disk_files [of w' w1 p db] by (auto simp: open_crash_def)
qed

text \<open>The part of \<^verbatim>\<open>Open\<close> behind the recovery, and the recovery before it.\<close>

definition open_update :: "path \<Rightarrow> Options \<Rightarrow> Store \<Rightarrow> (error + Store) io" where
  "open_update p opts s =
     bind_io (if l_version (s_log s) < logVersion then migrate s p else return (Inr (), s)) (\<lambda>(r, s). case r of
       Inl err \<Rightarrow> give_up s err
     | Inr _ \<Rightarrow>
         let s = (if SyncInterval opts > 0 then startSyncTask s else s);
             s = (if AutoCompact opts \<and> \<not> ReadOnly s then startCompactionTask s else s) in
         return (Inr s))"

definition open_recover :: "path \<Rightarrow> Options \<Rightarrow> fileLock \<Rightarrow> appendLog \<Rightarrow> (error + Store) io" where
  "open_recover p opts lock l =
     bind_io (recover (new_store opts lock l)) (\<lambda>(r, s). case r of
       Inl err \<Rightarrow> give_up s (Wrap ''failed to recover from log'' [err])
     | Inr _ \<Rightarrow> open_update p opts s)"

lemma open_locked_split:
  "open_locked p opts lock = bind_io (openAppendLog p) (\<lambda>r. case r of
     Inl err \<Rightarrow> bind_io (lock_release lock) (\<lambda>_. return (Inl (Wrap ''failed to open append log'' [err])))
   | Inr l \<Rightarrow> open_recover p opts lock l)"
  unfolding open_locked_def open_recover_def open_update_def by (rule refl)

lemma wp_open_update:
  assumes "files_only (store_paths p) w w1" "locked w1 = locked w" "calm w \<longrightarrow> calm w1" "p @ lockFileSuffix \<in> locked w"
    and s: "s_options s = opts" "lk_file (s_lock s) = Some (p @ lockFileSuffix)" "recovered_ok p db s w1"
  shows "wp (open_update p opts s) (open_post p db opts w) (open_crash p db w) w1"
  unfolding open_update_def
proof (rule wp_bindI, rule wp_mono [OF wp_update [OF s(3)]], goal_cases)
  case (1 x w')
  obtain r s' where x: "x = (r, s')" by (cases x)
  have u: "files_only (store_paths p) w w'" "locked w' = locked w" "calm w \<longrightarrow> calm w'" "s_options s' = opts"
    "lk_file (s_lock s') = Some (p @ lockFileSuffix)"
    using 1 assms(1-3) s(1,2) files_only_trans [OF assms(1)] by (auto simp: x update_post_def)
  show ?case
  proof (cases r)
    case (Inl err)
    then show ?thesis using wp_give_up_open [OF u(1-3,5)] 1 assms by (auto simp: x update_post_def)
  next
    case (Inr z)
    then have "holds_db s' p db w'" using 1 by (simp add: x update_post_def)
    then show ?thesis using u assms(4) Inr by (simp add: x wp_return open_post_def insert_absorb Let_def)
  qed
next
  case (2 w')
  then show ?case using assms(3) by (auto simp: migrate_crash_def open_crash_def)
qed

lemma wp_open_recover:
  assumes "files_only (store_paths p) w w1" "locked w1 = locked w" "calm w \<longrightarrow> calm w1"
    and lock: "lk_file lock = Some (p @ lockFileSuffix)" "p @ lockFileSuffix \<in> locked w"
    and f: "files w1 p = Some f" "opens p f l" "log_of f db"
  shows "wp (open_recover p opts lock l) (open_post p db opts w) (open_crash p db w) w1"
  unfolding open_recover_def
proof (rule wp_bindI, rule wp_mono [OF wp_recover_log [OF lock(1) lock(2) [folded assms(2)] f]], goal_cases)
  case (1 x w')
  obtain r s where x: "x = (r, s)" by (cases x)
  have "p \<in> store_paths p" by (simp add: store_paths_def)
  then have u: "files_only (store_paths p) w w'" "locked w' = locked w" "calm w \<longrightarrow> calm w'" "s_options s = opts" "s_lock s = lock"
    using 1 assms(1-3) by (auto simp: x recover_post_def only_changes_def files_only_def)
  show ?case
  proof (cases r)
    case (Inl err)
    then have "db_on_disk p db w'" "\<not> calm w" using 1 db_on_disk_main [of w' p f] f(3) assms(3) by (auto simp: x recover_post_def)
    then show ?thesis using wp_give_up_open [OF u(1-3)] lock(1) Inl by (simp add: x u(5))
  next
    case (Inr z)
    then show ?thesis using wp_open_update [OF u(1-3) lock(2) u(4)] lock(1) 1 by (simp add: x u(5) recover_post_def)
  qed
next
  case (2 w')
  then show ?case using f assms(3) db_on_disk_main [of w' p f] by (auto simp: open_crash_def)
qed

lemma wp_open_locked:
  assumes lock: "lk_file lock = Some (p @ lockFileSuffix)" "p @ lockFileSuffix \<in> locked w" and f: "survivor p w = Some f" "log_of f db"
  shows "wp (open_locked p opts lock) (open_post p db opts w) (open_crash p db w) w"
proof -
  obtain l0 where l0: "opens p f l0" using log_of_opens [OF f(2)] by blast
  have sub: "log_paths p \<subseteq> store_paths p" by (auto simp: store_paths_def)
  have disk: "db_on_disk p db w'" if "survivor p w' = Some f" for w' using that f(2) by (auto simp: db_on_disk_def)
  have rel: "wp (bind_io (lock_release lock) (\<lambda>_. return (Inl (Wrap ''failed to open append log'' [err]))))
      (open_post p db opts w) (open_crash p db w) w1"
    if "\<not> calm w" "survivor p w1 = Some f" "only_changes (log_paths p) w w1" for err w1
  proof (rule wp_bindI, rule wp_mono [OF wp_lock_release [OF lock(1)]], goal_cases)
    case (1 x w')
    then show ?case
      using release_post [OF only_changes_files [OF that(3) sub] _ disk [OF that(2)]] that
      by (auto simp: wp_return only_changes_def)
  next
    case (2 w')
    then have "files w' = files w1" by (auto simp: only_changes_def)
    then show ?case using that(1) disk [OF that(2)] db_on_disk_files [of w' w1 p db] by (simp add: open_crash_def)
  qed
  show ?thesis
    unfolding open_locked_split
  proof (rule wp_bindI, rule wp_openAppendLog [OF f(1) l0], goal_cases)
    case (1 l w')
    then show ?case
      using wp_open_recover [OF only_changes_files [OF 1(3) sub] _ 1(4) lock 1(2,1) f(2)] by (simp add: only_changes_def)
  qed (use rel disk in \<open>auto simp: open_crash_def\<close>)
qed

definition valid_options :: "path \<Rightarrow> Options \<Rightarrow> bool" where
  "valid_options p opts \<longleftrightarrow> p \<noteq> [] \<and> CompactionThreshold (apply_defaults opts) \<le> 1 \<and> [] \<notin> set (IndexedFields opts)"

lemma apply_defaults_keeps [simp]:
  "IndexedFields (apply_defaults opts) = IndexedFields opts" "OnMigrate (apply_defaults opts) = OnMigrate opts"
  "SyncInterval (apply_defaults opts) = SyncInterval opts"
  by (simp_all add: apply_defaults_def Let_def)

lemma refuses_defaults [simp]: "refuses (apply_defaults opts) err = refuses opts err"
  by (simp add: refuses_def)

lemma Open_valid: "valid_options p opts \<Longrightarrow> Open p opts = try_io (acquireFileLock p) (open_locked p (apply_defaults opts))"
  by (simp add: Open_def valid_options_def Let_def)

lemma lock_other: "only_changes {p @ lockFileSuffix} w w' \<Longrightarrow> q \<in> log_paths p \<Longrightarrow> files w' q = files w q"
  using backup_paths_other(4) [of p] unfolding only_changes_def by (metis singletonD)

lemma wp_Open:
  assumes opts: "valid_options p opts" and f: "survivor p w = Some f" "log_of f db"
  shows "wp (Open p opts)
    (\<lambda>r w'. files_only (store_paths p) w w' \<and> (calm w \<longrightarrow> calm w') \<and> (case r of
       Inr s \<Rightarrow> p @ lockFileSuffix \<notin> locked w \<and> locked w' = insert (p @ lockFileSuffix) (locked w) \<and>
         s_options s = apply_defaults opts \<and> holds_db s p db w'
     | Inl err \<Rightarrow> locked w' = locked w \<and> db_on_disk p db w' \<and>
         (p @ lockFileSuffix \<in> locked w \<and> errors_Is err ErrStoreLocked \<or> refuses opts err \<or> \<not> calm w)))
    (\<lambda>w'. \<not> calm w \<and> db_on_disk p db w') w"
  unfolding Open_valid [OF opts] wp_try
proof (rule wp_mono [OF wp_acquireFileLock], goal_cases)
  case (1 r w1)
  let ?lp = "p @ lockFileSuffix"
  have disk: "db_on_disk p db w" using f by (auto simp: db_on_disk_def)
  show ?case
  proof (cases r)
    case (Inl err)
    then have oc: "only_changes {?lp} w w1" using 1 by simp
    then show ?thesis
      using 1 Inl disk db_on_disk_cong [of p w1 w db, OF lock_other [OF oc]]
      by (auto simp: only_changes_def files_only_def store_paths_def)
  next
    case (Inr lock)
    let ?w = "w\<lparr>locked := insert ?lp (locked w)\<rparr>"
    have oc: "only_changes {?lp} ?w w1" and lk: "lk_file lock = Some ?lp" "?lp \<notin> locked w" and calm: "calm w \<longrightarrow> calm w1"
      using 1 Inr by simp_all
    have w1: "?lp \<in> locked w1" "locked w1 = insert ?lp (locked w)" using oc by (simp_all add: only_changes_def)
    have sv: "survivor p w1 = Some f"
      using survivor_cong [of p w1 w] lock_other [OF oc] f(1) by simp
    have fo: "files_only (store_paths p) w w1" using oc by (auto simp: only_changes_def files_only_def store_paths_def)
    show ?thesis
      unfolding Inr sum.case
    proof (rule wp_mono [OF wp_open_locked [OF lk(1) w1(1) sv f(2)]], goal_cases)
      case (1 r' w')
      then show ?case
        using files_only_trans [OF fo] calm lk(2) w1(2)
        by (cases r') (auto simp: open_post_def)
    qed (use calm in \<open>auto simp: open_crash_def\<close>)
  qed
next
  case (2 w1)
  then show ?case
    using f db_on_disk_cong [of p w1 w db] lock_other [of p w w1] by (auto simp: db_on_disk_def)
qed

text \<open>Where there is no log, an empty one is made.\<close>

lemma new_log_of:
  assumes "content g = new_header"
  shows "log_of g Map.empty"
proof (rule recoverable_log_of)
  have "log_file new_header [] [] g" using assms log_file_whole [of g new_header "[]"] by simp
  then show "recoverable g Map.empty" unfolding recoverable_def using items_of_Nil by blast
qed

lemma new_log_opens:
  assumes "content g = new_header" "same_log ((new_log p)\<lparr>l_writePos := logHeaderSize\<rparr>) l"
  shows "opens p g l"
  using assms parse_header_bytes [of "new_log p" p] new_header(1) [of p]
  by (simp add: opens_def new_log_def logVersion_def)

lemma wp_open_locked_new:
  assumes lock: "lk_file lock = Some (p @ lockFileSuffix)" "p @ lockFileSuffix \<in> locked w" and f: "survivor p w = None"
  shows "wp (open_locked p opts lock)
    (\<lambda>r w'. open_post p Map.empty opts w r w' \<or> (\<exists>err. r = Inl err) \<and> \<not> calm w \<and> files_only (store_paths p) w w' \<and> locked w' = locked w - {p @ lockFileSuffix})
    (\<lambda>w'. \<not> calm w) w" (is "wp _ ?Q ?C w")
proof -
  have sub: "log_paths p \<subseteq> store_paths p" by (auto simp: store_paths_def)
  have rel: "wp (bind_io (lock_release lock) (\<lambda>_. return (Inl (Wrap ''failed to open append log'' [err])))) ?Q ?C w1"
    if "\<not> calm w" "only_changes (log_paths p) w w1" for err w1
    using that(1) only_changes_files [OF that(2) sub] that(2)
    by (intro wp_bindI wp_mono [OF wp_lock_release [OF lock(1)]]) (auto simp: wp_return only_changes_def files_only_def)
  have found: "wp (open_recover p opts lock l) ?Q ?C w1"
    if "only_changes (log_paths p) w w1" "calm w \<longrightarrow> calm w1" "files w1 p = Some g" "content g = new_header" "opens p g l" for l g w1
    using that(1) by (intro wp_mono [OF wp_open_recover [OF only_changes_files [OF that(1) sub] _ that(2) lock that(3,5) new_log_of [OF that(4)]]])
      (auto simp: only_changes_def open_crash_def)
  have create: "wp (openAppendLogFile p) (\<lambda>r. wp (case r of
        Inl err \<Rightarrow> bind_io (lock_release lock) (\<lambda>_. return (Inl (Wrap ''failed to open append log'' [err])))
      | Inr l \<Rightarrow> open_recover p opts lock l) ?Q ?C) ?C w1"
    if w1: "only_changes (log_paths p) w w1" "calm w \<longrightarrow> calm w1" "files w1 p = None" for w1
  proof (rule wp_openAppendLogFile_new, goal_cases)
    case (2 fs g l)
    have "only_changes (log_paths p) w (set_file p (Some g) (w1\<lparr>faults := fs\<rparr>))" using w1(1) by (intro only_changes_set) simp_all
    moreover have "calm w \<longrightarrow> calm (set_file p (Some g) (w1\<lparr>faults := fs\<rparr>))" using 2(1) w1(2) by (simp add: still_def)
    ultimately show ?case using found [OF _ _ _ 2(2) new_log_opens [OF 2(2,3)]] by simp
  qed (use w1 rel in \<open>auto simp: only_changes_set\<close>)
  show ?thesis
    unfolding open_locked_split openAppendLog_def wp_bind wp_try
  proof (rule wp_mono [OF wp_recoverCompactionArtifacts], goal_cases)
    case (1 r w1)
    then show ?case using f create rel by (cases r) simp_all
  qed simp
qed

lemma wp_Open_new:
  assumes opts: "valid_options p opts" and f: "survivor p w = None"
  shows "wp (Open p opts)
    (\<lambda>r w'. files_only (store_paths p) w w' \<and> (case r of
       Inr s \<Rightarrow> p @ lockFileSuffix \<notin> locked w \<and> locked w' = insert (p @ lockFileSuffix) (locked w) \<and>
         s_options s = apply_defaults opts \<and> holds_db s p Map.empty w' \<and> (calm w \<longrightarrow> calm w')
     | Inl err \<Rightarrow> locked w' = locked w \<and> (p @ lockFileSuffix \<in> locked w \<and> errors_Is err ErrStoreLocked \<or> refuses opts err \<or> \<not> calm w)))
    (\<lambda>w'. \<not> calm w) w"
  unfolding Open_valid [OF opts] wp_try
proof (rule wp_mono [OF wp_acquireFileLock], goal_cases)
  case (1 r w1)
  let ?lp = "p @ lockFileSuffix"
  show ?case
  proof (cases r)
    case (Inl err)
    then show ?thesis using 1 by (auto simp: only_changes_def files_only_def store_paths_def)
  next
    case (Inr lock)
    let ?w = "w\<lparr>locked := insert ?lp (locked w)\<rparr>"
    have oc: "only_changes {?lp} ?w w1" and lk: "lk_file lock = Some ?lp" "?lp \<notin> locked w" and calm: "calm w \<longrightarrow> calm w1"
      using 1 Inr by simp_all
    have w1: "?lp \<in> locked w1" "locked w1 = insert ?lp (locked w)" using oc by (simp_all add: only_changes_def)
    have sv: "survivor p w1 = None" using survivor_cong [of p w1 w] lock_other [OF oc] f by simp
    have fo: "files_only (store_paths p) w w1" using oc by (auto simp: only_changes_def files_only_def store_paths_def)
    show ?thesis
      unfolding Inr sum.case
    proof (rule wp_mono [OF wp_open_locked_new [OF lk(1) w1(1) sv]], goal_cases)
      case (1 r' w')
      then show ?case using files_only_trans [OF fo] calm lk(2) w1(2) by (cases r') (auto simp: open_post_def)
    qed (use calm in auto)
  qed
qed simp

end
