(* ===== verification/Sessions.thy ===== *)
theory Sessions
  imports OpenSpec
begin

text \<open>
  Sequences of operations on an open store. Without failures a store answers
  like a map from keys to items. When the process dies in the middle of a
  sequence, or an operation fails, the database that the next \<^verbatim>\<open>Open\<close> finds is the
  one after some prefix of the operations.
\<close>

section \<open>Operations and their meaning\<close>

datatype op = DoPut string bytes "PutOptions option" | DoDelete string | DoGet string | DoCompact | DoSync

type_synonym reply = "error + bytes option"

definition silent :: "(error + unit) \<times> Store \<Rightarrow> reply \<times> Store" where
  "silent = (\<lambda>(r, s). (case r of Inl err \<Rightarrow> Inl err | Inr _ \<Rightarrow> Inr None, s))"

fun perform :: "op \<Rightarrow> Store \<Rightarrow> (reply \<times> Store) io" where
  "perform (DoPut k v opts) s = bind_io (Put s k v opts) (\<lambda>x. return (silent x))"
| "perform (DoDelete k) s = bind_io (Delete s k) (\<lambda>x. return (silent x))"
| "perform (DoGet k) s = bind_io (Get [] s k) (\<lambda>(r, s). return (case r of Inl err \<Rightarrow> Inl err | Inr v \<Rightarrow> Inr (Some v), s))"
| "perform DoCompact s = bind_io (Compact s) (\<lambda>x. return (silent x))"
| "perform DoSync s = bind_io (Sync s) (\<lambda>r. return (silent (r, s)))"

text \<open>The same operations on a map.\<close>

fun effect :: "op \<Rightarrow> db \<Rightarrow> db" where
  "effect (DoPut k v opts) db = db(k \<mapsto> \<lparr>it_value = v, it_attrs = map_of (put_attributes opts), it_ext = []\<rparr>)"
| "effect (DoDelete k) db = db(k := None)"
| "effect _ db = db"

fun answer :: "op \<Rightarrow> db \<Rightarrow> bytes option" where
  "answer (DoGet k) db = map_option it_value (db k)"
| "answer _ db = None"

fun refused :: "op \<Rightarrow> db \<Rightarrow> error \<Rightarrow> bool" where
  "refused (DoPut k v opts) db err \<longleftrightarrow> \<not> appendable k v (put_attributes opts) []"
| "refused (DoDelete k) db err \<longleftrightarrow> db k = None \<and> errors_Is err ErrKeyNotFound"
| "refused (DoGet k) db err \<longleftrightarrow> db k = None \<and> errors_Is err ErrKeyNotFound"
| "refused _ db err \<longleftrightarrow> False"

fun op_ok :: "op \<Rightarrow> bool" where
  "op_ok (DoPut k v opts) \<longleftrightarrow> go_map (put_attributes opts)"
| "op_ok _ \<longleftrightarrow> True"

section \<open>One operation\<close>

definition perform_post :: "path \<Rightarrow> op \<Rightarrow> db \<Rightarrow> Store \<Rightarrow> world \<Rightarrow> reply \<times> Store \<Rightarrow> world \<Rightarrow> bool" where
  "perform_post p op db s w = (\<lambda>(r, s') w'. (calm w \<longrightarrow> calm w') \<and> \<not> ReadOnly s' \<and> (case r of
       Inr x \<Rightarrow> (\<forall>err. \<not> refused op db err) \<and> x = answer op db \<and> holds_db s' p (effect op db) w'
     | Inl err \<Rightarrow> refused op db err \<and> holds_db s' p db w' \<or>
         \<not> calm w \<and> (db_on_disk p db w' \<or> db_on_disk p (effect op db) w')))"

definition perform_crash :: "path \<Rightarrow> op \<Rightarrow> db \<Rightarrow> world \<Rightarrow> world \<Rightarrow> bool" where
  "perform_crash p op db w w' \<longleftrightarrow> \<not> calm w \<and> (db_on_disk p db w' \<or> db_on_disk p (effect op db) w')"

lemma same_config_ReadOnly: "same_config s s' \<Longrightarrow> ReadOnly s' = ReadOnly s"
  by (simp add: same_config_def ReadOnly_def)

lemma holds_writable:
  assumes "holds_db s p db w" "\<not> ReadOnly s"
  obtains es f where "store_inv s p es [] w" "items_of es = db" "files w p = Some f" "log_holds (s_log s) es [] f"
    "unknownReadOnly (s_log s) = 0" "recoverable f db"
proof -
  obtain es where es: "store_inv s p es [] w" "items_of es = db" using assms by (auto simp: holds_db_def)
  obtain f where f: "files w p = Some f" "log_holds (s_log s) es [] f" using store_inv_file [OF es(1)] by blast
  have ro: "unknownReadOnly (s_log s) = 0" using es(1) assms(2) by (simp add: store_inv_def store_open_def)
  show ?thesis using that [OF es f ro] recoverable_holds [OF f(2) ro] es(2) by simp
qed

lemma holds_dbI: "store_inv s p es [] w \<Longrightarrow> items_of es = db \<Longrightarrow> holds_db s p db w"
  by (auto simp: holds_db_def)

lemma holds_on_disk: "holds_db s p db w \<Longrightarrow> \<not> ReadOnly s \<Longrightarrow> db_on_disk p db w"
  by (erule holds_writable) (auto intro: db_on_disk_main recoverable_log_of)

text \<open>Both mutations append one record.\<close>

lemma part_on_disk:
  assumes "store_inv s p es [] w" "\<not> ReadOnly s" "ent_ok e" "part_written (s_log s) p es e [] w'"
  shows "db_on_disk p (items_of es) w' \<or> db_on_disk p (items_of (es @ [e])) w'"
proof -
  obtain f where f: "log_holds (s_log s) es [] f" using store_inv_file [OF assms(1)] by blast
  have ro: "unknownReadOnly (s_log s) = 0" using assms(1,2) by (simp add: store_inv_def store_open_def)
  show ?thesis using recoverable_part_written [OF f ro assms(4,3)] db_on_disk_main recoverable_log_of by blast
qed

lemma wp_mutation:
  assumes inv: "store_inv s p es [] w" and rw: "\<not> ReadOnly s" and db: "items_of es = db"
    and m: "wp m (mutated s p es e [] ref w) (\<lambda>w'. \<not> calm w \<and> only_changes {p} w w' \<and> ent_ok e \<and> part_written (s_log s) p es e [] w') w"
    and ref: "\<And>err. ref err = refused op db err" and eff: "items_of (es @ [e]) = effect op db" and ans: "answer op db = None"
  shows "wp (bind_io m (\<lambda>x. return (silent x))) (perform_post p op db s w) (perform_crash p op db w) w"
proof (rule wp_bindI, rule wp_mono [OF m], goal_cases)
  case (1 x w')
  obtain r s' where x: "x = (r, s')" by (cases x)
  have m: "only_changes {p} w w'" "calm w \<longrightarrow> calm w'" "same_config s s'" using 1 by (auto simp: x mutated_def)
  have ro: "\<not> ReadOnly s'" using same_config_ReadOnly [OF m(3)] rw by simp
  show ?case
  proof (cases r)
    case (Inr u)
    then have "store_inv s' p (es @ [e]) [] w'" "\<forall>err. \<not> ref err" using 1 by (simp_all add: x mutated_def)
    then show ?thesis
      using Inr m ro holds_dbI [OF _ eff] ref ans by (simp add: x wp_return silent_def perform_post_def)
  next
    case (Inl err)
    then consider "ref err" "s' = s" "w' = w" | "\<not> calm w" "ent_ok e" "store_inv s' p (es @ [e]) [] w' \<or>
        (\<exists>n \<le> length (ent_bytes e). store_inv s' p es (take n (ent_bytes e)) w')"
      using 1 by (auto simp: x mutated_def)
    then show ?thesis
    proof cases
      case 1
      then show ?thesis using Inl ro m holds_dbI [OF inv db] ref by (simp add: x wp_return silent_def perform_post_def)
    next
      case 2
      have "db_on_disk p db w' \<or> db_on_disk p (effect op db) w'"
        using 2(3)
      proof (elim disjE exE conjE)
        assume "store_inv s' p (es @ [e]) [] w'"
        then show ?thesis using holds_on_disk [OF holds_dbI [OF _ eff] ro] by blast
      next
        fix n assume n: "n \<le> length (ent_bytes e)" "store_inv s' p es (take n (ent_bytes e)) w'"
        then obtain f where f: "files w' p = Some f" "log_holds (s_log s') es (take n (ent_bytes e)) f" using store_inv_file by blast
        have hdr: "header_bytes (s_log s') = header_bytes (s_log s)"
        proof -
          have "unknownReadOnly (s_log s') = 0" "unknownReadOnly (s_log s) = 0"
            using n(2) inv ro rw by (simp_all add: store_inv_def store_open_def)
          then show ?thesis
            using f(2) store_inv_file [OF inv] header_current by (fastforce simp: log_holds_def)
        qed
        have "part_written (s_log s) p es e [] w'"
          using f n(1) hdr by (auto simp: part_written_def log_holds_def intro!: exI [of _ n])
        then show ?thesis using part_on_disk [OF inv rw 2(2)] db eff by simp
      qed
      then show ?thesis using Inl m ro 2(1) by (simp add: x wp_return silent_def perform_post_def)
    qed
  qed
next
  case (2 w')
  then show ?case using part_on_disk [OF inv rw, of e w'] db eff by (simp add: perform_crash_def)
qed

lemma on_disk_db_on_disk: "on_disk p f db w \<Longrightarrow> recoverable f db \<Longrightarrow> db_on_disk p db w"
  using recoverable_log_of by (auto simp: on_disk_def db_on_disk_def)

lemma wp_perform_mutation:
  assumes st: "holds_db s p db w" "\<not> ReadOnly s" and ok: "op_ok op" and op: "\<exists>k v opts. op = DoPut k v opts \<or> op = DoDelete k"
  shows "wp (perform op s) (perform_post p op db s w) (perform_crash p op db w) w"
proof -
  obtain es f where es: "store_inv s p es [] w" "items_of es = db" using st by (rule holds_writable)
  consider k v opts where "op = DoPut k v opts" | k where "op = DoDelete k" using op by blast
  then show ?thesis
  proof cases
    case 1
    let ?e = "mk_ent k v False (put_attributes opts) []"
    have gm: "go_map (put_attributes opts)" using ok 1 by simp
    have eff: "items_of (es @ [?e]) = effect op db" if "appendable k v (put_attributes opts) []"
      using item_of_mk_ent [OF that gm] es(2) 1 by (simp add: items_of_snoc fun_upd_def fun_eq_iff)
    show ?thesis
    proof (cases "appendable k v (put_attributes opts) []")
      case True
      have "put_refused s k v (put_attributes opts) err = refused op db err" for err
        using True 1 st(2) by (simp add: put_refused_def)
      then show ?thesis
        using wp_mutation [OF es(1) st(2) es(2) wp_Put [OF es(1) gm refl] _ eff [OF True]] 1 by simp
    next
      case False
      have l: "l_version (s_log s) = logVersion" "unknownReadOnly (s_log s) = 0" "\<not> s_closed s"
        using es(1) st(2) by (auto simp: store_inv_def store_open_def log_holds_def)
      obtain err where "Append (s_log s) k v False (put_attributes opts) [] = return (Inl err, s_log s)"
        using l(1,2) gm False by (rule Append_refuses)
      then have "Put s k v opts = return (Inl (Wrap ''failed to append to log'' [err]), s)"
        unfolding Put_logged [OF l(3) st(2)] by (simp add: bind_io_def return_def logged_def fun_eq_iff)
      then show ?thesis
        using 1 False st by (simp add: wp_bind wp_return silent_def perform_post_def)
    qed
  next
    case 2
    let ?e = "mk_ent k [] True [] []"
    have eff: "items_of (es @ [?e]) = effect op db" using es(2) 2 by (simp add: items_of_snoc)
    have "delete_refused s (items_of es) k err = refused op db err" for err
      using 2 st(2) es(2) by (simp add: delete_refused_def)
    then show ?thesis
      using wp_mutation [OF es(1) st(2) es(2) wp_Delete [OF es(1) refl] _ eff] 2 by simp
  qed
qed

lemma wp_perform_other:
  assumes st: "holds_db s p db w" "\<not> ReadOnly s" and op: "\<exists>k. op = DoGet k \<or> op = DoCompact \<or> op = DoSync"
  shows "wp (perform op s) (perform_post p op db s w) (perform_crash p op db w) w"
proof -
  obtain es f where es: "store_inv s p es [] w" "items_of es = db" "files w p = Some f" "log_holds (s_log s) es [] f" and rec: "recoverable f db"
    using st by (rule holds_writable)
  have disk: "db_on_disk p db w'" if "only_changes {} w w'" for w'
    using that es(3) rec db_on_disk_main recoverable_log_of by (simp add: only_changes_def)
  consider k where "op = DoGet k" | "op = DoCompact" | "op = DoSync" using op by blast
  then show ?thesis
  proof cases
    case 1
    have val: "values_of es k = map_option it_value (db k)" using es(2) by (simp add: values_of_def)
    have "wp (perform (DoGet k) s) (perform_post p (DoGet k) db s w) (perform_crash p (DoGet k) db w) w"
      unfolding perform.simps
    proof (rule wp_bindI, rule wp_mono [OF wp_Get [OF es(1)]], goal_cases)
      case (1 x w')
      obtain r s' where x: "x = (r, s')" by (cases x)
      have "holds_db s' p db w'" "\<not> ReadOnly s'" "db_on_disk p db w'" "calm w \<longrightarrow> calm w'"
        using 1 es(2) disk st(2) same_config_ReadOnly [of s s'] by (auto simp: x intro: holds_dbI)
      then show ?case
        using 1 val es(2) by (cases r) (auto simp: x wp_return perform_post_def)
    qed (use disk in \<open>auto simp: perform_crash_def\<close>)
    then show ?thesis using 1 by simp
  next
    case 2
    have d: "db_on_disk p db w'" if "on_disk p f (items_of es) w'" for w'
      using that on_disk_db_on_disk [of p f db w'] rec es(2) by simp
    have "wp (perform DoCompact s) (perform_post p DoCompact db s w) (perform_crash p DoCompact db w) w"
      unfolding perform.simps
    proof (rule wp_bindI, rule wp_mono [OF wp_Compact [OF es(1,3)]], goal_cases)
      case (1 x w')
      obtain r s' where x: "x = (r, s')" by (cases x)
      have "\<not> ReadOnly s'" "calm w \<longrightarrow> calm w'" using 1 st(2) same_config_ReadOnly [of s s'] by (auto simp: x)
      then show ?case
        using 1 d es(2) st(2) by (cases r) (auto simp: x wp_return silent_def perform_post_def intro: holds_dbI)
    qed (use d in \<open>auto simp: perform_crash_def\<close>)
    then show ?thesis using 2 by simp
  next
    case 3
    let ?g = "f\<lparr>durable := content f\<rparr>"
    have l: "\<not> l_closed (s_log s)" "l_path (s_log s) = p" "\<not> s_closed s" using es(1,4) by (auto simp: store_inv_def store_open_def log_holds_def)
    have inv: "store_inv s p es [] (set_file p (Some ?g) (w\<lparr>faults := fs\<rparr>))" for fs
      using es by (simp add: store_inv_def store_open_def log_holds_def)
    have "wp (perform DoSync s) (perform_post p DoSync db s w) (perform_crash p DoSync db w) w"
      unfolding perform.simps Sync_def using l(3)
      by (auto simp: wp_bind wp_return silent_def perform_post_def perform_crash_def l(2) still_def st(2)
          intro!: log_Sync_open [OF l(1), of _ f] holds_dbI [OF inv es(2)] disk simp: es(3))
    then show ?thesis using 3 by simp
  qed
qed

lemma wp_perform:
  assumes "holds_db s p db w" "\<not> ReadOnly s" "op_ok op"
  shows "wp (perform op s) (perform_post p op db s w) (perform_crash p op db w) w"
proof -
  consider "\<exists>k v opts. op = DoPut k v opts \<or> op = DoDelete k" | "\<exists>k. op = DoGet k \<or> op = DoCompact \<or> op = DoSync"
    by (cases op) auto
  then show ?thesis using wp_perform_mutation [OF assms] wp_perform_other [OF assms(1,2)] by cases
qed

section \<open>Sequences\<close>

definition effects :: "op list \<Rightarrow> db \<Rightarrow> db" where
  "effects ops db = fold effect ops db"

text \<open>A client that goes on whatever an operation answers, and one that stops at the first error.\<close>

fun run :: "op list \<Rightarrow> Store \<Rightarrow> (reply list \<times> Store) io" where
  "run [] s = return ([], s)"
| "run (op # ops) s = bind_io (perform op s) (\<lambda>(r, s). bind_io (run ops s) (\<lambda>(rs, s). return (r # rs, s)))"

fun session :: "op list \<Rightarrow> Store \<Rightarrow> (error option \<times> Store) io" where
  "session [] s = return (None, s)"
| "session (op # ops) s = bind_io (perform op s) (\<lambda>(r, s). case r of Inl err \<Rightarrow> return (Some err, s) | Inr _ \<Rightarrow> session ops s)"

text \<open>The replies of a map to the same operations, and the map afterwards.\<close>

fun replies :: "op list \<Rightarrow> db \<Rightarrow> reply list \<Rightarrow> db \<Rightarrow> bool" where
  "replies [] db rs db' \<longleftrightarrow> rs = [] \<and> db' = db"
| "replies (op # ops) db (Inr x # rs) db' \<longleftrightarrow> (\<forall>err. \<not> refused op db err) \<and> x = answer op db \<and> replies ops (effect op db) rs db'"
| "replies (op # ops) db (Inl err # rs) db' \<longleftrightarrow> refused op db err \<and> replies ops db rs db'"
| "replies (op # ops) db [] db' \<longleftrightarrow> False"

lemma wp_run:
  assumes "holds_db s p db w" "\<not> ReadOnly s" "list_all op_ok ops" "calm w"
  shows "wp (run ops s) (\<lambda>(rs, s') w'. calm w' \<and> \<not> ReadOnly s' \<and> (\<exists>db'. replies ops db rs db' \<and> holds_db s' p db' w')) (\<lambda>_. False) w"
  using assms
proof (induction ops arbitrary: s db w)
  case Nil
  then show ?case by (auto simp: wp_return)
next
  case (Cons op ops)
  have ok: "op_ok op" "list_all op_ok ops" using Cons.prems(3) by simp_all
  show ?case
    unfolding run.simps
  proof (rule wp_bindI, rule wp_mono [OF wp_perform [OF Cons.prems(1,2) ok(1)]], goal_cases)
    case (1 x w')
    obtain r s' where x: "x = (r, s')" by (cases x)
    have p: "calm w'" "\<not> ReadOnly s'" using 1 Cons.prems(4) by (simp_all add: x perform_post_def)
    have nx: "wp (bind_io (run ops s') (\<lambda>(rs, s). return (r # rs, s)))
        (\<lambda>(rs, s') w'. calm w' \<and> \<not> ReadOnly s' \<and> (\<exists>db'. replies (op # ops) db rs db' \<and> holds_db s' p db' w')) (\<lambda>_. False) w'"
      if "holds_db s' p db1 w'" "\<And>rs db'. replies ops db1 rs db' \<Longrightarrow> replies (op # ops) db (r # rs) db'" for db1
      by (intro wp_bindI wp_mono [OF Cons.IH [OF that(1) p(2) ok(2) p(1)]]) (auto simp: wp_return intro!: exI dest: that(2))
    show ?case
    proof (cases r)
      case (Inl err)
      then have "refused op db err" "holds_db s' p db w'" using 1 Cons.prems(4) by (simp_all add: x perform_post_def)
      then show ?thesis using nx Inl by (simp add: x)
    next
      case (Inr a)
      then have "\<forall>err. \<not> refused op db err" "a = answer op db" "holds_db s' p (effect op db) w'" using 1 by (simp_all add: x perform_post_def)
      then show ?thesis using nx Inr by (simp add: x)
    qed
  qed (use Cons.prems(4) in \<open>simp add: perform_crash_def\<close>)
qed

lemma effects_Cons [simp]: "effects (op # ops) db = effects ops (effect op db)" "effects [] db = db"
  by (simp_all add: effects_def)

lemma wp_session:
  assumes "holds_db s p db w" "\<not> ReadOnly s" "list_all op_ok ops"
  shows "wp (session ops s)
    (\<lambda>(e, s') w'. (calm w \<longrightarrow> calm w') \<and> (case e of
       None \<Rightarrow> holds_db s' p (effects ops db) w' \<and> \<not> ReadOnly s'
     | Some _ \<Rightarrow> \<exists>n \<le> length ops. db_on_disk p (effects (take n ops) db) w'))
    (\<lambda>w'. \<not> calm w \<and> (\<exists>n \<le> length ops. db_on_disk p (effects (take n ops) db) w')) w"
  using assms
proof (induction ops arbitrary: s db w)
  case Nil
  then show ?case by (simp add: wp_return)
next
  case (Cons op ops)
  have ok: "op_ok op" "list_all op_ok ops" using Cons.prems(3) by simp_all
  have here: "\<exists>n \<le> length (op # ops). db_on_disk p (effects (take n (op # ops)) db) w'"
    if "db_on_disk p db w' \<or> db_on_disk p (effect op db) w'" for w'
    using that by (elim disjE) (rule exI [of _ 0], simp, rule exI [of _ "Suc 0"], simp)
  have later: "\<exists>n \<le> length (op # ops). db_on_disk p (effects (take n (op # ops)) db) w'"
    if "\<exists>n \<le> length ops. db_on_disk p (effects (take n ops) (effect op db)) w'" for w'
    using that by (elim exE) (rule_tac x = "Suc n" in exI, simp)
  show ?case
    unfolding session.simps
  proof (rule wp_bindI, rule wp_mono [OF wp_perform [OF Cons.prems(1,2) ok(1)]], goal_cases)
    case (1 x w')
    obtain r s' where x: "x = (r, s')" by (cases x)
    have p: "calm w \<longrightarrow> calm w'" "\<not> ReadOnly s'" using 1 by (simp_all add: x perform_post_def)
    show ?case
    proof (cases r)
      case (Inl err)
      then have "db_on_disk p db w' \<or> db_on_disk p (effect op db) w'"
        using 1 holds_on_disk [OF _ p(2)] by (auto simp: x perform_post_def)
      then show ?thesis using here p Inl by (simp add: x wp_return)
    next
      case (Inr a)
      then have "holds_db s' p (effect op db) w'" using 1 by (simp add: x perform_post_def)
      from Cons.IH [OF this p(2) ok(2)] have "wp (session ops s')
        (\<lambda>(e, s') w''. (calm w \<longrightarrow> calm w'') \<and> (case e of
           None \<Rightarrow> holds_db s' p (effects (op # ops) db) w'' \<and> \<not> ReadOnly s'
         | Some _ \<Rightarrow> \<exists>n \<le> length (op # ops). db_on_disk p (effects (take n (op # ops)) db) w''))
        (\<lambda>w''. \<not> calm w \<and> (\<exists>n \<le> length (op # ops). db_on_disk p (effects (take n (op # ops)) db) w'')) w'"
        by (rule wp_mono) (use p(1) later in \<open>auto split: option.splits\<close>)
      then show ?thesis using Inr by (simp add: x)
    qed
  qed (use here in \<open>auto simp: perform_crash_def\<close>)
qed

end
