(* ===== verification/StoreProps.thy ===== *)
theory StoreProps
  imports Sessions
begin

text \<open>
  The properties of the store as a whole: what it holds after it was opened,
  how it answers, what survives a crash, and compaction.
\<close>

section \<open>A store to compute with\<close>

definition sample_options :: Options where
  "sample_options = \<lparr>CacheSize = 4, SyncInterval = 0, CompactionThreshold = 1, AutoCompact = False, IndexedFields = [''f''],
     OnError = False, OnMigrate = None, NoMigrationBackup = False\<rparr>"

definition empty_file :: os_file where
  "empty_file = \<lparr>content = new_header, durable = [], fmode = 420\<rparr>"

definition empty_store :: Store where
  "empty_store = new_store sample_options \<lparr>lk_file = Some (''s'' @ lockFileSuffix)\<rparr> ((new_log ''s'')\<lparr>l_writePos := logHeaderSize\<rparr>)"

definition empty_world :: "fault list \<Rightarrow> world" where
  "empty_world fs = \<lparr>files = [''s'' \<mapsto> empty_file], locked = {''s'' @ lockFileSuffix}, umask = 0, faults = fs\<rparr>"

lemma empty_store_inv: "store_inv empty_store ''s'' [] [] (empty_world fs)"
proof -
  let ?l = "(new_log ''s'')\<lparr>l_writePos := logHeaderSize\<rparr>"
  have l: "l_path ?l = ''s''" "unknownReadOnly ?l = 0" "log_holds ?l [] [] empty_file"
    by (simp_all add: log_holds_def log_end_def empty_file_def new_header(1) [of "''s''", symmetric])
      (simp_all add: new_log_def unknownReadOnly_def)
  have "store_open empty_store ''s'' (empty_world fs)"
    using l newIndex_spec(3) [of "[''f'']"] unfolding empty_store_def
    by (simp add: store_open_def empty_world_def sample_options_def) (simp add: new_store_def)
  moreover have "coherent empty_store []" by (simp add: coherent_def empty_store_def newLRUCache_spec)
  ultimately show ?thesis
    using l(3) by (simp add: store_inv_def empty_world_def empty_store_def indexes_newIndex)
qed

lemma empty_store_holds: "holds_db empty_store ''s'' Map.empty (empty_world fs)" "\<not> ReadOnly empty_store"
  using holds_dbI [OF empty_store_inv] by (simp, simp add: empty_store_def new_log_def unknownReadOnly_def)

lemma sample_options_valid: "valid_options ''s'' sample_options" "\<not> refuses sample_options err"
  by (simp_all add: valid_options_def apply_defaults_def sample_options_def refuses_def)

lemma sample_file_log: "log_of sample_file (items_of [sample_ent])" "survivor ''s'' (sample_world fs) = Some sample_file"
proof -
  have "current_log sample_log [sample_ent] (take 7 sample_record) sample_file"
    using sample_log_file by (simp add: current_log_def sample_log_def new_log_def)
  then show "log_of sample_file (items_of [sample_ent])" unfolding log_of_def by blast
qed (simp add: survivor_main)

lemma replies_Cons:
  "replies (op # ops) db rs db' \<longleftrightarrow>
     (\<exists>x rs'. rs = Inr x # rs' \<and> (\<forall>err. \<not> refused op db err) \<and> x = answer op db \<and> replies ops (effect op db) rs' db') \<or>
     (\<exists>err rs'. rs = Inl err # rs' \<and> refused op db err \<and> replies ops db rs' db')"
proof (cases rs)
  case (Cons r rs')
  then show ?thesis by (cases r) auto
qed simp

lemma mutated_inv:
  assumes "mutated s p es e tail ref w (r, s') w'" "store_inv s p es tail w"
  obtains es' tail' where "store_inv s' p es' tail' w'" "es' = es \<or> es' = es @ [e] \<and> (\<forall>err. \<not> ref err)"
proof (cases r)
  case (Inr u)
  then show ?thesis using assms(1) by (intro that [of "es @ [e]"]) (auto simp: mutated_def)
next
  case (Inl err)
  then consider "s' = s" "w' = w" | "store_inv s' p (es @ [e]) (drop (length (ent_bytes e)) tail) w'" "\<forall>err. \<not> ref err"
    | n where "store_inv s' p es (take n (ent_bytes e) @ drop n tail) w'"
    using assms(1) by (auto simp: mutated_def)
  then show ?thesis using that assms(2) by cases blast+
qed

text \<open>The values are determined by the index and the file.\<close>

lemma store_inv_values:
  assumes "store_inv s p es tail w" "store_inv s p es' tail' w"
  shows "values_of es = values_of es'"
proof
  fix k
  show "values_of es k = values_of es' k"
  proof (cases "index_Get (s_index s) k")
    case None
    have "items_of es k = None" "items_of es' k = None"
      using None assms indexes_none [of "s_index s" es k] indexes_none [of "s_index s" es' k] by (simp_all add: store_inv_def)
    then show ?thesis by (simp add: values_of_def)
  next
    case (Some en)
    obtain f e where e: "files w (l_path (s_log s)) = Some f" "slice (ie_RecordOffset en) (ie_StoredSize en) (content f) = ent_bytes e"
      "ent_ok e" "items_of es k = Some (item_of e)" using store_inv_entry [OF assms(1) Some] by metis
    obtain f' e' where e': "files w (l_path (s_log s)) = Some f'" "slice (ie_RecordOffset en) (ie_StoredSize en) (content f') = ent_bytes e'"
      "ent_ok e'" "items_of es' k = Some (item_of e')" using store_inv_entry [OF assms(2) Some] by metis
    have "ent_bytes e = ent_bytes e'" using e(1,2) e'(1,2) by simp
    then have "e_value e = e_value e'" using stored_ent(1) [OF e(3)] stored_ent(1) [OF e'(3)] by simp
    then show ?thesis using e(4) e'(4) by (simp add: values_of_def item_of_def)
  qed
qed

section \<open>Opening\<close>





section \<open>Operations\<close>

text \<open>
  C2. A store answers like a map from keys to values with attributes: for every
  sequence of operations, in which some may be refused, all replies are those of
  the map, and the store then holds the map with the effects of those that were
  not refused. A \<^verbatim>\<open>Put\<close> is refused exactly when the input is out of the limits,
  \<^verbatim>\<open>Get\<close> and \<^verbatim>\<open>Delete\<close> exactly when the key is missing, with \<^verbatim>\<open>ErrKeyNotFound\<close>;
  compaction and syncing change nothing.
\<close>

theorem store_refines_map:
  assumes "holds_db s p db w" "\<not> ReadOnly s" "list_all op_ok ops" "calm w"
  shows "\<exists>rs s' w' db'. run ops s w = (Some (rs, s'), w') \<and> replies ops db rs db' \<and> holds_db s' p db' w'"
  using wp_total [OF wp_run [OF assms]] by auto

theorem store_refines_map_witness:
  "\<exists>err s' w'. run [DoGet ''k'', DoPut ''k'' [118] None, DoCompact, DoGet ''k''] empty_store (empty_world []) =
     (Some ([Inl err, Inr None, Inr None, Inr (Some [118])], s'), w') \<and> errors_Is err ErrKeyNotFound"
proof -
  let ?ops = "[DoGet ''k'', DoPut ''k'' [118] None, DoCompact, DoGet ''k'']"
  have "list_all op_ok ?ops" "calm (empty_world [])" by (simp_all add: put_attributes_def empty_world_def)
  from store_refines_map [OF empty_store_holds this]
  obtain rs s' w' db' where r: "run ?ops empty_store (empty_world []) = (Some (rs, s'), w')" "replies ?ops Map.empty rs db'" by blast
  have ex: "\<exists>err. errors_Is err ErrKeyNotFound" using errors_Is_refl by blast
  have "appendable ''k'' [118] [] []" using tombstone_ok [of "''k''"] by (simp add: appendable_def limits)
  then have "\<exists>err. rs = [Inl err, Inr None, Inr None, Inr (Some [118])] \<and> errors_Is err ErrKeyNotFound"
    using r(2) ex by (auto simp: replies_Cons put_attributes_def)
  then show ?thesis using r(1) by blast
qed



text \<open>
  C5. Well-formedness is kept by reads and writes under any failures: whatever
  \<^verbatim>\<open>Get\<close>, \<^verbatim>\<open>Put\<close> and \<^verbatim>\<open>Delete\<close> answer, error or not, the index describes exactly the
  live records of the log, the cache agrees with them, the header of the log
  matches the store and all records are well-formed; the database is the old one or the one with
  the effect of the operation, and for a failed operation that is still one of the two.
\<close>

theorem operations_keep_invariant:
  assumes inv: "store_inv s p es tail w" and attrs: "go_map (put_attributes opts)"
  shows "wp (Get pooled s key) (\<lambda>(r, s') w'. store_inv s' p es tail w') (\<lambda>_. True) w \<and>
    wp (Put s key v opts) (\<lambda>(r, s') w'. \<exists>es' tail'. store_inv s' p es' tail' w' \<and>
      items_of es' \<in> {items_of es, (items_of es)(key \<mapsto> \<lparr>it_value = v, it_attrs = map_of (put_attributes opts), it_ext = []\<rparr>)}) (\<lambda>_. True) w \<and>
    wp (Delete s key) (\<lambda>(r, s') w'. \<exists>es' tail'. store_inv s' p es' tail' w' \<and>
      items_of es' \<in> {items_of es, (items_of es)(key := None)}) (\<lambda>_. True) w"
proof (intro conjI)
  show "wp (Get pooled s key) (\<lambda>(r, s') w'. store_inv s' p es tail w') (\<lambda>_. True) w"
    by (rule wp_mono [OF wp_Get [OF inv]]) auto
  let ?e = "mk_ent key v False (put_attributes opts) []"
  have it: "items_of (es @ [?e]) = (items_of es)(key \<mapsto> \<lparr>it_value = v, it_attrs = map_of (put_attributes opts), it_ext = []\<rparr>)"
    if "\<forall>err. \<not> put_refused s key v (put_attributes opts) err"
  proof -
    have "\<not> put_refused s key v (put_attributes opts) ErrReadOnly" using that by blast
    then have "appendable key v (put_attributes opts) []" by (auto simp: put_refused_def)
    then show ?thesis using item_of_mk_ent [OF _ attrs] by (simp add: items_of_snoc)
  qed
  show "wp (Put s key v opts) (\<lambda>(r, s') w'. \<exists>es' tail'. store_inv s' p es' tail' w' \<and>
      items_of es' \<in> {items_of es, (items_of es)(key \<mapsto> \<lparr>it_value = v, it_attrs = map_of (put_attributes opts), it_ext = []\<rparr>)}) (\<lambda>_. True) w"
  proof (rule wp_mono [OF wp_Put [OF inv attrs refl]], goal_cases)
    case (1 x w')
    obtain r s' where x: "x = (r, s')" by (cases x)
    obtain es' tail' where "store_inv s' p es' tail' w'" "es' = es \<or> es' = es @ [?e] \<and> (\<forall>err. \<not> put_refused s key v (put_attributes opts) err)"
      by (rule mutated_inv [OF 1 [unfolded x] inv])
    then show ?case using it by (auto simp: x)
  qed simp
  have "items_of (es @ [mk_ent key [] True [] []]) = (items_of es)(key := None)" by (simp add: items_of_snoc)
  then show "wp (Delete s key) (\<lambda>(r, s') w'. \<exists>es' tail'. store_inv s' p es' tail' w' \<and>
      items_of es' \<in> {items_of es, (items_of es)(key := None)}) (\<lambda>_. True) w"
  proof (intro wp_mono [OF wp_Delete [OF inv refl]], goal_cases)
    case (1 x w')
    obtain r s' where x: "x = (r, s')" by (cases x)
    obtain es' tail' where "store_inv s' p es' tail' w'" "es' = es \<or> es' = es @ [mk_ent key [] True [] []]"
      using mutated_inv [OF 1(2) [unfolded x] inv] by metis
    then show ?case using 1(1) by (auto simp: x)
  qed simp
qed

theorem operations_keep_invariant_witness:
  "wp (Put empty_store ''k'' [118] None) (\<lambda>(r, s') w'. \<exists>es' tail'. store_inv s' ''s'' es' tail' w') (\<lambda>_. True) (empty_world [Failed 5])"
proof -
  have "go_map (put_attributes None)" by (simp add: put_attributes_def)
  from operations_keep_invariant [OF empty_store_inv this, of "[]" "''k''" "[Failed 5]" "[118]"]
  show ?thesis by (elim conjE wp_mono) auto
qed

text \<open>
  C14. The queries agree with the database: \<^verbatim>\<open>Keys\<close> lists every key once, \<^verbatim>\<open>Len\<close> is
  their number, \<^verbatim>\<open>Exists\<close> and \<^verbatim>\<open>GetMetadata\<close> answer for a single key, and for an
  indexed field \<^verbatim>\<open>KeysBy\<close>, \<^verbatim>\<open>CountBy\<close> and \<^verbatim>\<open>AttributeValues\<close> answer from the attributes
  of the items.
\<close>

theorem store_queries:
  assumes inv: "store_inv s p es tail w" and field: "field \<in> set (IndexedFields (s_options s))" "field \<noteq> []"
  defines "db \<equiv> items_of es"
  shows "set (Keys s) = dom db \<and> distinct (Keys s) \<and> Len s = card (dom db) \<and>
    (Exists s key \<longleftrightarrow> db key \<noteq> None) \<and>
    (case GetMetadata s key of Inr md \<Rightarrow> map_option it_attrs (db key) = Some (map_of (md_Attributes md))
      | Inl err \<Rightarrow> db key = None \<and> errors_Is err ErrKeyNotFound) \<and>
    set (KeysBy s field v) = {k. \<exists>it. db k = Some it \<and> it_attrs it field = Some v} \<and>
    CountBy s field v = card {k. \<exists>it. db k = Some it \<and> it_attrs it field = Some v} \<and>
    set (AttributeValues s field) = {v. \<exists>k it. db k = Some it \<and> it_attrs it field = Some v} \<and>
    sorted (AttributeValues s field)"
proof -
  have idx: "indexes (s_index s) es" and iv: "index_inv (s_index s)" and f: "field \<in> set (indexedFields (s_index s))"
    and cl: "\<not> s_closed s"
    using inv field by (auto simp: store_inv_def indexes_def store_open_def)
  have keys: "set (Keys s) = dom db" "distinct (Keys s)"
    using index_keys [OF iv] indexes_dom [OF idx] by (simp_all add: Keys_def db_def)
  then have len: "Len s = card (dom db)"
    using distinct_card [of "Keys s"] by (simp add: Len_def index_Len_def Keys_def index_Keys_def)
  have ex: "Exists s key \<longleftrightarrow> db key \<noteq> None" using indexes_none [OF idx, of key] cl by (simp add: Exists_def db_def)
  have md: "case GetMetadata s key of Inr md \<Rightarrow> map_option it_attrs (db key) = Some (map_of (md_Attributes md))
      | Inl err \<Rightarrow> db key = None \<and> errors_Is err ErrKeyNotFound"
  proof (cases "index_Get (s_index s) key")
    case None
    then show ?thesis using indexes_none [OF idx, of key] cl by (simp add: GetMetadata_def db_def)
  next
    case (Some en)
    then obtain q e where "live es key = Some (q, e)" "entry_for (q, e) en" using idx by (metis indexes_get)
    moreover have "go_map (ie_Attributes en)" by (rule index_inv_attrs [OF iv Some])
    ultimately show ?thesis using Some cl by (simp add: GetMetadata_def db_def items_of_def item_of_def cloneAttributes_id)
  qed
  have kb: "set (KeysBy s field v) = {k. \<exists>it. db k = Some it \<and> it_attrs it field = Some v}"
    using index_KeysBy_spec(1) [OF iv, of field v] f indexes_attrs [OF idx] by (simp add: KeysBy_def db_def)
  then have "CountBy s field v = card {k. \<exists>it. db k = Some it \<and> it_attrs it field = Some v}"
    using distinct_card [OF index_KeysBy_spec(2) [OF iv, of field v]] by (simp add: CountBy_def KeysBy_def)
  moreover have "set (AttributeValues s field) = {v. \<exists>k it. db k = Some it \<and> it_attrs it field = Some v}"
    using index_AttributeValues_spec(1) [OF iv f] indexes_attrs [OF idx] by (simp add: AttributeValues_def db_def)
  ultimately show ?thesis
    using keys len ex md kb index_AttributeValues_spec(2) [OF iv f] by (simp add: AttributeValues_def)
qed

theorem store_queries_witness:
  "Keys empty_store = [] \<and> Len empty_store = 0 \<and> KeysBy empty_store ''f'' ''v'' = []"
proof -
  have "''f'' \<in> set (IndexedFields (s_options empty_store))" by (simp add: empty_store_def sample_options_def)
  from store_queries [OF empty_store_inv this, where key = "''k''" and v = "''v''"] show ?thesis by simp
qed

text \<open>A visitor that records what it is shown.\<close>

definition collect :: "(string \<times> bytes) list visitor" where
  "collect key value t s = return (None, t @ [(key, value)], s)"

text \<open>
  C13. \<^verbatim>\<open>ForEach\<close> with a visitor that leaves the store alone visits every key of the
  database exactly once, with its value, in the order of the records in the file.
\<close>

theorem ForEach_visits_all:
  assumes inv: "store_inv s p es tail w" and calm: "calm w"
  shows "\<exists>kvs s' w'. ForEach collect [] s w = (Some (None, kvs, s'), w') \<and> store_inv s' p es tail w' \<and>
    distinct (map fst kvs) \<and> map_of kvs = values_of es \<and>
    sorted (map (\<lambda>k. fst (the (live es k))) (map fst kvs))"
proof -
  obtain keys idx where ks: "KeysSortedByOffset (s_index s) = (keys, idx)" by fastforce
  have iv: "index_inv (s_index s)" and ix: "indexes (s_index s) es" and cl: "\<not> s_closed s"
    using inv by (simp_all add: store_inv_def indexes_def store_open_def)
  have k: "set keys = dom (items_of es)" "distinct keys" "sorted (map (\<lambda>k. ie_RecordOffset (the (index_Get (s_index s) k))) keys)"
    using KeysSortedByOffset_keys [OF iv] ks indexes_dom [OF ix] by simp_all
  have pos: "ie_RecordOffset (the (index_Get (s_index s) k)) = fst (the (live es k))" if mem: "k \<in> set keys" for k
  proof -
    obtain en where en: "index_Get (s_index s) k = Some en" using mem k(1) indexes_none [OF ix, of k] by fastforce
    obtain q e where "live es k = Some (q, e)" "entry_for (q, e) en" by (rule indexes_get [OF ix en])
    then show ?thesis using en by simp
  qed
  have inv1: "store_inv (s\<lparr>s_index := idx\<rparr>) p es tail w"
    using store_inv_index [OF inv indexes_sorted [OF ix]] KeysSortedByOffset_spec(6) [OF iv] ks by simp
  define J where "J = (\<lambda>ks t s' w'. map fst t @ ks = keys \<and> (\<forall>(k, v) \<in> set t. values_of es k = Some v) \<and> store_inv s' p es tail w' \<and> faults w' = [])"
  have val: "values_of es k \<noteq> None" if "k \<in> set keys" for k using that k(1) by (auto simp: values_of_def)
  have "wp (forEach_loop collect keys [] [] (s\<lparr>s_index := idx\<rparr>)) (\<lambda>(e, t, s') w'. e = None \<and> J [] t s' w') (\<lambda>_. False) w"
  proof (rule wp_forEach_loop [where J = J and p = p], goal_cases)
    case 1
    then show ?case using inv1 calm by (simp add: J_def)
  next
    case (4 k ks t s w es' tail')
    then have "values_of es k = None" "k \<in> set keys" using store_inv_values [of s p es tail w es' tail'] by (auto simp: J_def)
    then show ?case using val by blast
  next
    case (5 k ks t s w es' tail' v)
    then have "values_of es k = Some v" using store_inv_values [of s p es tail w es' tail'] by (simp add: J_def)
    then show ?case using 5(1) by (simp add: J_def collect_def wp_return)
  qed (auto simp: J_def still_def)
  from wp_total [OF this] obtain kvs s' w' where run: "forEach_loop collect keys [] [] (s\<lparr>s_index := idx\<rparr>) w = (Some (None, kvs, s'), w')"
    and j: "map fst kvs = keys" "\<forall>(k, v) \<in> set kvs. values_of es k = Some v" "store_inv s' p es tail w'" by (auto simp: J_def)
  have "map_of kvs k = values_of es k" for k
  proof (cases "map_of kvs k")
    case None
    then have "k \<notin> set keys" using j(1) by (metis map_of_eq_None_iff image_set)
    then show ?thesis using None k(1) by (auto simp: values_of_def)
  qed (use j(2) in \<open>auto dest!: map_of_SomeD\<close>)
  moreover have "sorted (map (\<lambda>k. fst (the (live es k))) keys)"
    using k(3) pos by (simp cong: map_cong)
  ultimately show ?thesis
    using run j k cl by (intro exI [of _ kvs] exI [of _ s'] exI [of _ w']) (simp add: ForEach_def ks fun_eq_iff)
qed

theorem ForEach_visits_all_witness:
  "\<exists>s' w'. ForEach collect [] empty_store (empty_world []) = (Some (None, [], s'), w')"
proof -
  have "calm (empty_world [])" by (simp add: empty_world_def)
  from ForEach_visits_all [OF empty_store_inv this]
  obtain kvs s' w' where r: "ForEach collect [] empty_store (empty_world []) = (Some (None, kvs, s'), w')" "map_of kvs = values_of []" by blast
  have "dom (map_of kvs) = {}" unfolding r(2) by (simp add: values_of_def dom_def)
  then have "kvs = []" by (simp add: dom_map_of_conv_image_fst)
  then show ?thesis using r(1) by blast
qed

section \<open>Compaction\<close>

text \<open>The quotient computed by \<^verbatim>\<open>NeedsCompaction\<close> is exact when all of the log is live.\<close>

lemma pow2_powi: "pow2 k = 2 powi k"
  by (simp add: pow2_def power_int_def power_one_over inverse_eq_divide)

lemma float64_nat:
  assumes "0 < n"
  shows "0 < float64 (of_nat n)"
proof -
  let ?x = "of_nat n :: rat"
  define k where "k = int (floorlog 2 n) - 1"
  have fl: "2 ^ (floorlog 2 n - 1) \<le> n" "0 < floorlog 2 n" using assms floorlog_bounds [of n 2] by (simp_all add: floorlog_def)
  have "pow2 k = of_nat (2 ^ (floorlog 2 n - 1))" using fl(2) by (simp add: pow2_def k_def nat_diff_distrib)
  then have le: "pow2 k \<le> ?x" using fl(1) by (simp only: of_nat_le_iff)
  have one: "floorlog 2 1 = 1" by (simp add: floorlog_def)
  have "quotient_of \<bar>?x\<bar> = (int n, 1)" using quotient_of_int [of "int n"] by (simp add: Rat.of_int_def)
  then have ex: "exponent ?x = k" using le one by (simp add: exponent_def k_def)
  have "pow2 (k - 52) \<le> pow2 k" "0 < pow2 (k - 52)" unfolding pow2_powi by (auto intro: power_int_increasing)
  then have "1 \<le> ?x / pow2 (k - 52)" using le by (simp add: le_divide_eq)
  then have "1 \<le> round_even (?x / pow2 (k - 52))" by (auto simp: round_even_def Let_def le_floor_iff)
  then have "0 < of_int (round_even (?x / pow2 (k - 52))) * pow2 (k - 52)" using \<open>0 < pow2 (k - 52)\<close> by simp
  then show ?thesis using assms by (simp add: float64_def ex Let_def)
qed

lemma float64_1: "float64 1 = 1" "float64 0 = 0"
  by (simp_all add: float64_def exponent_def pow2_def round_even_def floorlog_def Let_def)

lemma TotalSize_sum:
  assumes "index_inv idx"
  shows "index_TotalSize idx = (\<Sum>k \<in> dom (index_Get idx). ie_StoredSize (the (index_Get idx k)))"
proof -
  have d: "distinct (map fst (entries idx))" using assms by (simp add: index_inv_def)
  have "foldl (\<lambda>tot (key, entry). tot + ie_StoredSize entry) a xs = a + (\<Sum>(k, e)\<leftarrow>xs. ie_StoredSize e)" for a and xs :: "(string \<times> indexEntry) list"
    by (induction xs arbitrary: a) auto
  then have "index_TotalSize idx = (\<Sum>(k, e)\<leftarrow>entries idx. ie_StoredSize e)" by (simp add: index_TotalSize_def)
  also have "\<dots> = (\<Sum>(k, e) \<in> set (entries idx). ie_StoredSize e)"
    using d by (simp add: sum_list_distinct_conv_sum_set distinct_map)
  also have "\<dots> = (\<Sum>k \<in> fst ` set (entries idx). ie_StoredSize (the (map_of (entries idx) k)))"
    using d by (subst sum.reindex) (auto simp: distinct_map intro!: sum.cong)
  finally show ?thesis unfolding index_Get_def [abs_def] by (simp add: dom_map_of_conv_image_fst)
qed

lemma live_sum:
  assumes "all_live es"
  shows "dom (live es) = ent_key ` set es \<and> (\<Sum>k \<in> dom (live es). length (ent_bytes (snd (the (live es k))))) = length (log_body es)"
  using assms
proof (induction es rule: rev_induct)
  case (snoc e es)
  have a: "all_live es" "\<not> ent_deleted e" "ent_key e \<notin> ent_key ` set es" using snoc.prems by (auto simp: all_live_def)
  have IH: "dom (live es) = ent_key ` set es" "(\<Sum>k \<in> ent_key ` set es. length (ent_bytes (snd (the (live es k))))) = length (log_body es)"
    using snoc.IH [OF a(1)] by auto
  have l: "live (es @ [e]) = (live es)(ent_key e \<mapsto> (log_end es, e))" using a(2) by (simp add: live_snoc live_step_def)
  have "(\<Sum>k \<in> ent_key ` set es. length (ent_bytes (snd (the (live (es @ [e]) k))))) = length (log_body es)"
    unfolding IH(2) [symmetric] by (rule sum.cong) (use a(3) l in \<open>auto simp: image_iff\<close>)
  moreover have "dom (live (es @ [e])) = insert (ent_key e) (ent_key ` set es)" using IH(1) by (simp only: l dom_fun_upd) simp
  moreover have "length (ent_bytes (snd (the (live (es @ [e]) (ent_key e))))) = length (ent_bytes e)" by (simp add: l)
  ultimately show ?case using a(3) by simp
qed simp

lemma TotalSize_all_live:
  assumes "indexes idx es" "all_live es"
  shows "index_TotalSize idx = length (log_body es)"
proof -
  have "dom (index_Get idx) = dom (live es)" using indexes_dom [OF assms(1)] by (auto simp: items_of_def dom_def)
  moreover have "ie_StoredSize (the (index_Get idx k)) = length (ent_bytes (snd (the (live es k))))" if k: "k \<in> dom (index_Get idx)" for k
  proof -
    obtain en where en: "index_Get idx k = Some en" using k by auto
    obtain q e where "live es k = Some (q, e)" "entry_for (q, e) en" by (rule indexes_get [OF assms(1) en])
    then show ?thesis using en by simp
  qed
  ultimately show ?thesis
    using TotalSize_sum [of idx] assms(1) conjunct2 [OF live_sum [OF assms(2)]] by (simp add: indexes_def)
qed

lemma NeedsCompaction_all_live:
  assumes "store_inv s p es [] w" "all_live es" "0 \<le> CompactionThreshold (s_options s)"
  shows "\<not> NeedsCompaction s"
proof -
  have "log_Size (s_log s) = log_end es" "indexes (s_index s) es"
    using assms(1) by (auto simp: store_inv_def log_holds_def log_Size_def)
  then have sz: "int (log_Size (s_log s)) - int logHeaderSize = int (index_TotalSize (s_index s))"
    using TotalSize_all_live [OF _ assms(2)] by (simp add: log_end_def)
  have one: "float64 (1 - float64 (float64 (of_nat n) / float64 (of_int (int n)))) = 0" if "0 < n" for n
    using float64_nat [OF that] float64_1 by simp
  show ?thesis
    using assms(3) one [of "index_TotalSize (s_index s)"] by (auto simp: NeedsCompaction_def sz Let_def)
qed



section \<open>Closing\<close>

definition close_post :: "path \<Rightarrow> db \<Rightarrow> Store \<Rightarrow> world \<Rightarrow> (error + unit) \<times> Store \<Rightarrow> world \<Rightarrow> bool" where
  "close_post p db s w = (\<lambda>(r, s') w'. s_closed s' \<and> l_closed (s_log s') \<and> lk_file (s_lock s') = None \<and> s_options s' = s_options s \<and>
     locked w' = locked w - {p @ lockFileSuffix} \<and> (\<exists>g. files w' p = Some g \<and> log_of g db) \<and> (calm w \<longrightarrow> r = Inr () \<and> calm w') \<and>
     (r = Inr () \<and> SyncInterval (s_options s) \<ge> 0 \<longrightarrow> synced p w'))"

lemma errors_Join_Inr: "errors_Join rs = Inr () \<longleftrightarrow> (\<forall>r \<in> set rs. r = Inr ())"
  by (induction rs) (auto simp: errors_Join_def Let_def split: sum.splits if_splits)

lemma wp_Close_store:
  assumes st: "holds_db s p db w" "\<not> ReadOnly s"
  shows "wp (Close s) (close_post p db s w) (\<lambda>w'. \<not> calm w \<and> db_on_disk p db w') w"
proof -
  obtain es f where es: "store_inv s p es [] w" "items_of es = db" "files w p = Some f" "log_holds (s_log s) es [] f" and rec: "recoverable f db"
    using st by (rule holds_writable)
  have l: "\<not> l_closed (s_log s)" "l_path (s_log s) = p" "\<not> s_closed s" "lk_file (s_lock s) = Some (p @ lockFileSuffix)"
    using es(1,4) by (auto simp: store_inv_def store_open_def log_holds_def)
  let ?s = "s\<lparr>s_closed := True, s_syncTask := False, s_compactionTask := False\<rparr>"
  let ?Q = "close_post p db s w" and ?C = "\<lambda>w'. \<not> calm w \<and> db_on_disk p db w'"
  define ok where "ok = (\<lambda>(syncErr :: error + unit) w1. (\<exists>g. files w1 p = Some g \<and> content g = content f) \<and> locked w1 = locked w \<and>
     (calm w \<longrightarrow> calm w1 \<and> syncErr = Inr ()) \<and> (syncErr = Inr () \<and> SyncInterval (s_options s) \<ge> 0 \<longrightarrow> synced p w1))"
  have main: "\<exists>g. files w1 p = Some g \<and> log_of g db" if k: "ok e w1" for e w1
  proof -
    obtain g where g: "files w1 p = Some g" "content g = content f" using k by (auto simp: ok_def)
    have "recoverable g db" using rec unfolding recoverable_def log_file_def g(2) .
    then show ?thesis using g(1) recoverable_log_of by blast
  qed
  then have disk: "db_on_disk p db w1" if "ok e w1" for e w1 using that db_on_disk_main by blast
  have quiet: "ok e (w1\<lparr>faults := fs\<rparr>)" if "ok e w1" "still w1 fs" for e w1 fs using that by (auto simp: ok_def still_def synced_def)
  have rel: "wp (bind_io (lock_release (s_lock ?s)) (\<lambda>(lockErr, lock).
      return (errors_Join [e, closeErr, lockErr], ?s\<lparr>s_log := log, s_lock := lock\<rparr>))) ?Q ?C w1"
    if "ok e w1" "l_closed log" "calm w \<longrightarrow> closeErr = Inr ()" for e closeErr log w1
  proof -
    have lk: "lk_file (s_lock ?s) = Some (p @ lockFileSuffix)" using l(4) by simp
    show ?thesis
    proof (rule wp_bindI, rule wp_mono [OF wp_lock_release [OF lk]], goal_cases)
      case (1 x w2)
      then have f2: "files w2 = files w1" "locked w2 = locked w - {p @ lockFileSuffix}"
        using that(1) by (auto simp: only_changes_def ok_def)
      have d2: "\<exists>g. files w2 p = Some g \<and> log_of g db" using main [OF that(1)] f2(1) by simp
      have sy: "synced p w2 = synced p w1" using f2(1) by (simp add: synced_def)
      show ?case
        using 1 that f2 d2 sy by (auto simp: wp_return close_post_def errors_Join_Inr ok_def split: prod.splits)
    next
      case (2 w2)
      then have "files w2 = files w1" by (auto simp: only_changes_def)
      then show ?case using 2 that(1) disk [OF that(1)] db_on_disk_files [of w2 w1 p db] by (auto simp: ok_def)
    qed
  qed
  have close: "wp (bind_io (log_Close (s_log ?s)) (\<lambda>(closeErr, log). bind_io (lock_release (s_lock ?s)) (\<lambda>(lockErr, lock).
      return (errors_Join [e, closeErr, lockErr], ?s\<lparr>s_log := log, s_lock := lock\<rparr>)))) ?Q ?C w1"
    if "ok e w1" for e w1
  proof (rule wp_bindI, rule wp_log_Close, goal_cases)
    case (2 fs)
    then show ?case using rel [OF quiet [OF that 2]] by simp
  next
    case (3 fs)
    then show ?case using rel [of e "w1\<lparr>faults := fs\<rparr>"] that by (auto simp: ok_def synced_def)
  next
    case (4 fs)
    then show ?case using disk [of e "w1\<lparr>faults := fs\<rparr>"] that by (auto simp: ok_def synced_def)
  qed (use l(1) in simp)
  have sync: "wp (if SyncInterval (s_options ?s) \<ge> 0 then log_Sync (s_log ?s) else return (Inr ())) ok ?C w"
  proof (cases "SyncInterval (s_options ?s) \<ge> 0")
    case True
    have "db_on_disk p db (w\<lparr>faults := fs\<rparr>)" for fs using es(3) rec db_on_disk_main recoverable_log_of by simp
    then show ?thesis
      unfolding if_P [OF True] using l(1,2) es(3)
      by (intro log_Sync_open [of "s_log ?s" w f]) (auto simp: ok_def synced_def still_def)
  next
    case False
    then show ?thesis using es(3) by (simp add: wp_return ok_def)
  qed
  show ?thesis
    unfolding Close_def Let_def if_not_P [OF l(3)]
    by (rule wp_bindI, rule wp_mono [OF sync]) (use close in auto)
qed

text \<open>
  C8. \<^verbatim>\<open>Close\<close> and then \<^verbatim>\<open>Open\<close> give back the database, under any failures of \<^verbatim>\<open>Close\<close>:
  \<^verbatim>\<open>Close\<close> always leaves the store closed, its lock free and the database on disk;
  when it reports no error and syncing is on, the whole log is durable; when no call fails it
  reports none. Closing again does nothing, and opening the store afterwards
  succeeds with the same database.
\<close>

theorem Close_then_Open:
  assumes st: "holds_db s p db w" "\<not> ReadOnly s" and opts: "valid_options p opts" "\<And>err. \<not> refuses opts err"
    and cl: "Close s w = (Some (r, s'), w')"
  shows "s_closed s' \<and> p @ lockFileSuffix \<notin> locked w' \<and> (calm w \<longrightarrow> r = Inr ()) \<and>
    (r = Inr () \<and> SyncInterval (s_options s) \<ge> 0 \<longrightarrow> synced p w') \<and> Close s' w' = (Some (Inr (), s'), w') \<and>
    (\<exists>s2 w2. Open p opts (w'\<lparr>faults := []\<rparr>) = (Some (Inr s2), w2) \<and> holds_db s2 p db w2)"
proof -
  have post: "close_post p db s w (r, s') w'" by (rule wp_runs [OF wp_Close_store [OF st] cl])
  let ?w = "w'\<lparr>faults := []\<rparr>"
  obtain f where f: "log_of f db" "survivor p ?w = Some f"
    using post survivor_main [of ?w p] by (auto simp: close_post_def)
  have "wp (Open p opts) (\<lambda>r w2. \<exists>s2. r = Inr s2 \<and> holds_db s2 p db w2) (\<lambda>_. False) ?w"
    by (rule wp_mono [OF wp_Open [OF opts(1) f(2,1)]]) (use post opts(2) in \<open>auto simp: close_post_def split: sum.splits\<close>)
  from wp_total [OF this] show ?thesis using post by (auto simp: close_post_def Close_def return_def)
qed

theorem Close_then_Open_witness:
  "\<exists>s' w'. Close empty_store (empty_world []) = (Some (Inr (), s'), w') \<and>
    (\<exists>s2 w2. Open ''s'' sample_options (w'\<lparr>faults := []\<rparr>) = (Some (Inr s2), w2) \<and> holds_db s2 ''s'' Map.empty w2)"
proof -
  have calm: "calm (empty_world [])" by (simp add: empty_world_def)
  then have "wp (Close empty_store) (\<lambda>_ _. True) (\<lambda>_. False) (empty_world [])"
    by (intro wp_mono [OF wp_Close_store [OF empty_store_holds]]) auto
  from wp_total [OF this] obtain r s' w' where c: "Close empty_store (empty_world []) = (Some (r, s'), w')" by auto
  from Close_then_Open [OF empty_store_holds sample_options_valid c] calm c show ?thesis by auto
qed

section \<open>The exception\<close>

lemma wp_reopen_empty:
  assumes "files w p = None" "calm w"
  shows "wp (reopen p s) (\<lambda>(r, s') w'. \<exists>g l. s' = s\<lparr>s_log := l\<rparr> \<and> \<not> l_closed l \<and> l_writePos l = logHeaderSize \<and>
    content g = new_header \<and> w' = set_file p (Some g) w) (\<lambda>_. False) w"
proof -
  have fs: "w\<lparr>faults := []\<rparr> = w" using assms(2) by (cases w) simp
  show ?thesis
    unfolding reopen_def wp_bind wp_return
  proof (rule wp_openAppendLogFile_new, goal_cases)
    case (2 fs' g l)
    then have "fs' = []" "\<not> l_closed l" "l_writePos l = logHeaderSize"
      using assms(2) same_log_simps [OF 2(3)] by (simp_all add: still_def new_log_def)
    then show ?case using 2 fs by auto
  qed (use assms in simp_all)
qed

text \<open>
  C11. The exception to crash safety: when the compacted log is ready, the old one
  has been renamed to its backup name, and then both the rename that installs the
  new log and the one that restores the old log fail, \<^verbatim>\<open>Compact\<close> opens the missing
  file, which creates an empty log, and goes on with it. The recovery in the next
  \<^verbatim>\<open>Open\<close> takes that empty log for the current one: it removes the backup and the
  compacted log, and the store is then empty, whatever it held.
\<close>

theorem compaction_can_lose_everything:
  assumes s: "\<not> l_closed (s_log s)" "l_mapped (s_log s) = None"
    and w: "files w p = Some f" "files w (p @ compactionReadySuffix) = Some g" "faults w = [Good, Good, Failed 0, Failed 0]"
    and opts: "valid_options p opts" "\<And>err. \<not> refuses opts err"
  shows "\<exists>err s' w'. compact_install p s nidx w = (Some (Inl err, s'), w') \<and> \<not> l_closed (s_log s') \<and>
    (\<exists>w2. recoverCompactionArtifacts p w' = (Some (Inr ()), w2) \<and> (\<forall>a \<in> set (artifacts p). files w2 a = None)) \<and>
    (\<exists>s3 w3. Open p opts (process_died p w') = (Some (Inr s3), w3) \<and> holds_db s3 p Map.empty w3)"
proof -
  let ?B = "p @ compactionBackupSuffix" and ?R = "p @ compactionReadySuffix"
  let ?s = "s\<lparr>s_log := (s_log s)\<lparr>l_closed := True\<rparr>\<rparr>"
  define w1 where "w1 = w\<lparr>files := (files w)(p := None, ?B := Some f), faults := []\<rparr>"
  have w1: "files w1 p = None" "calm w1" by (simp_all add: w1_def)
  from wp_total [OF wp_reopen_empty [OF w1, of ?s]]
  obtain r s' h l w' where re: "reopen p ?s w1 = (Some (r, s'), w')" "s' = ?s\<lparr>s_log := l\<rparr>" "\<not> l_closed l" "content h = new_header"
    "w' = set_file p (Some h) w1" by auto
  have "\<exists>err. compact_install p s nidx w = (Some (Inl err, s'), w')"
    using s w re(1) errors_Join_Inl
    by (simp add: compact_install_def Let_def log_Close_def bind_io_def return_def file_Close_def syscall_def os_Rename_def with_file_def
        no_part_def w1_def set_file_def return_def)
  moreover have "\<exists>w2. recoverCompactionArtifacts p w' = (Some (Inr ()), w2) \<and> (\<forall>a \<in> set (artifacts p). files w2 a = None)"
  proof -
    have "wp (recoverCompactionArtifacts p) (\<lambda>r w2. r = Inr () \<and> (\<forall>a \<in> set (artifacts p). files w2 a = None)) (\<lambda>_. False) w'"
      by (rule wp_mono [OF wp_recoverCompactionArtifacts]) (use w1(2) re(5) in \<open>auto split: sum.splits\<close>)
    from wp_total [OF this] show ?thesis by auto
  qed
  moreover have "\<exists>s3 w3. Open p opts (process_died p w') = (Some (Inr s3), w3) \<and> holds_db s3 p Map.empty w3"
  proof -
    have sv: "survivor p (process_died p w') = Some h" by (rule survivor_main) (simp add: process_died_def re(5))
    have "wp (Open p opts) (\<lambda>r w3. \<exists>s3. r = Inr s3 \<and> holds_db s3 p Map.empty w3) (\<lambda>_. False) (process_died p w')"
      by (rule wp_mono [OF wp_Open [OF opts(1) sv new_log_of [OF re(4)]]])
        (use w1(2) re(5) opts(2) in \<open>auto simp: process_died_def split: sum.splits\<close>)
    from wp_total [OF this] show ?thesis by blast
  qed
  ultimately show ?thesis using re(2,3) by auto
qed

theorem compaction_can_lose_everything_witness:
  "\<exists>err s' w'. compact_install ''s'' empty_store (newIndex [])
      ((set_file (''s'' @ compactionReadySuffix) (Some empty_file) (empty_world [Good, Good, Failed 0, Failed 0]))) = (Some (Inl err, s'), w') \<and>
    (\<exists>s3 w3. Open ''s'' sample_options (process_died ''s'' w') = (Some (Inr s3), w3) \<and> holds_db s3 ''s'' Map.empty w3)"
proof -
  let ?w = "set_file (''s'' @ compactionReadySuffix) (Some empty_file) (empty_world [Good, Good, Failed 0, Failed 0])"
  have "\<not> l_closed (s_log empty_store)" "l_mapped (s_log empty_store) = None" by (simp_all add: empty_store_def) (simp_all add: new_log_def)
  moreover have "files ?w ''s'' = Some empty_file" "files ?w (''s'' @ compactionReadySuffix) = Some empty_file" "faults ?w = [Good, Good, Failed 0, Failed 0]"
    by (simp_all add: empty_world_def suffixes)
  ultimately show ?thesis
    using compaction_can_lose_everything [OF _ _ _ _ _ sample_options_valid, of empty_store ?w empty_file empty_file "newIndex []"] by blast
qed

section \<open>Migration\<close>

text \<open>
  C12. The copy made before a migration is complete or absent, under any failures:
  \<^verbatim>\<open>copyLogFile\<close> never changes an existing copy, and where there was none it leaves
  none or a durable one with all bytes of the source; it succeeds when no call
  fails. Only the copy and its temporary file are touched.
\<close>

theorem copyLogFile_atomic:
  assumes "files w src = Some f" "src \<noteq> dst" "src \<noteq> dst @ migrationBackupTempSuffix"
  shows "wp (copyLogFile src dst)
    (\<lambda>r w'. only_changes {dst, dst @ migrationBackupTempSuffix} w w' \<and>
       (case files w dst of
          Some old \<Rightarrow> files w' dst = Some old
        | None \<Rightarrow> files w' dst = None \<or> (\<exists>g. files w' dst = Some g \<and> content g = content f \<and> durable g = content f)) \<and>
       (case r of Inr _ \<Rightarrow> files w' dst \<noteq> None | Inl _ \<Rightarrow> \<not> calm w))
    (\<lambda>w'. \<not> calm w \<and> only_changes {dst, dst @ migrationBackupTempSuffix} w w' \<and>
       (case files w dst of
          Some old \<Rightarrow> files w' dst = Some old
        | None \<Rightarrow> files w' dst = None \<or> (\<exists>g. files w' dst = Some g \<and> content g = content f \<and> durable g = content f))) w"
  by (rule wp_mono [OF wp_copyLogFile [OF assms]]) (auto simp: copied_def split: option.splits)

theorem copyLogFile_atomic_witness:
  "wp (copyLogFile ''s'' ''b'') (\<lambda>r w'. files w' ''b'' = None \<or> (\<exists>g. files w' ''b'' = Some g \<and> content g = new_header))
    (\<lambda>w'. files w' ''b'' = None \<or> (\<exists>g. files w' ''b'' = Some g \<and> content g = new_header)) (empty_world [Good, Good, Good, Failed 7])"
proof -
  have "files (empty_world fs) ''s'' = Some empty_file" "files (empty_world fs) ''b'' = None" for fs by (simp_all add: empty_world_def)
  then show ?thesis
    by (intro wp_mono [OF copyLogFile_atomic [of _ "''s''" empty_file "''b''"]]) (auto simp: empty_file_def migrationBackupTempSuffix_def)
qed


definition v4_log :: appendLog where
  "v4_log = (new_log ''s'')\<lparr>l_version := 4, l_writePos := logHeaderSize\<rparr>"

definition v4_store :: Store where
  "v4_store = new_store sample_options \<lparr>lk_file = Some (''s'' @ lockFileSuffix)\<rparr> v4_log"

definition v4_world :: "fault list \<Rightarrow> world" where
  "v4_world fs = \<lparr>files = [''s'' \<mapsto> \<lparr>content = header_bytes v4_log, durable = [], fmode = 420\<rparr>],
     locked = {''s'' @ lockFileSuffix}, umask = 0, faults = fs\<rparr>"


section \<open>Refusals\<close>

text \<open>
  C15. What is refused is refused without an effect. On a closed store every
  operation returns \<^verbatim>\<open>ErrStoreClosed\<close>; on a store that is read-only because of an
  unknown feature of its log, \<^verbatim>\<open>Put\<close>, \<^verbatim>\<open>Delete\<close> and \<^verbatim>\<open>Compact\<close> return an error that wraps
  \<^verbatim>\<open>ErrReadOnly\<close>. Neither touches the store or a file, and a value can still be
  read from a read-only store, even behind a torn tail that may not be cut off.
\<close>

theorem refused_without_effect:
  assumes inv: "store_inv s p es tail w" and ro: "ReadOnly s" and cl: "s_closed c"
  shows "(\<exists>err. errors_Is err ErrReadOnly \<and> Put s key v opts w = (Some (Inl err, s), w) \<and>
      Delete s key w = (Some (Inl err, s), w) \<and> Compact s w = (Some (Inl err, s), w)) \<and>
    wp (Get pooled s key) (\<lambda>(r, s') w'. store_inv s' p es tail w' \<and> only_changes {} w w' \<and>
      (calm w \<longrightarrow> (case r of Inr v \<Rightarrow> values_of es key = Some v | Inl err \<Rightarrow> values_of es key = None))) (\<lambda>_. \<not> calm w) w \<and>
    Put c key v opts w = (Some (Inl ErrStoreClosed, c), w) \<and> Delete c key w = (Some (Inl ErrStoreClosed, c), w) \<and>
    Get pooled c key w = (Some (Inl ErrStoreClosed, c), w) \<and> Compact c w = (Some (Inl ErrStoreClosed, c), w) \<and>
    Sync c w = (Some (Inl ErrStoreClosed), w) \<and> ForEach fn t c w = (Some (Some ErrStoreClosed, t, c), w) \<and>
    GetMetadata c key = Inl ErrStoreClosed"
proof -
  obtain err where err: "s_readOnlyReason s = Some err" "errors_Is err ErrReadOnly" using inv ro by (rule read_only_reason)
  have "wp (Get pooled s key) (\<lambda>(r, s') w'. store_inv s' p es tail w' \<and> only_changes {} w w' \<and>
      (calm w \<longrightarrow> (case r of Inr v \<Rightarrow> values_of es key = Some v | Inl err \<Rightarrow> values_of es key = None))) (\<lambda>_. \<not> calm w) w"
    by (rule wp_mono [OF wp_Get [OF inv]]) (auto simp: values_of_def split: sum.splits)
  then show ?thesis
    using err store_inv_path [OF inv] cl
    by (simp add: Put_def Delete_def Compact_def Get_def Sync_def ForEach_def GetMetadata_def return_def)
qed

definition ro_log :: appendLog where
  "ro_log = (new_log ''s'')\<lparr>l_readOnlyFeatures := 1, l_writePos := logHeaderSize\<rparr>"

definition ro_store :: Store where
  "ro_store = new_store sample_options \<lparr>lk_file = Some (''s'' @ lockFileSuffix)\<rparr> ro_log"

definition ro_world :: world where
  "ro_world = \<lparr>files = [''s'' \<mapsto> \<lparr>content = header_bytes ro_log @ [1, 2], durable = [], fmode = 420\<rparr>],
     locked = {''s'' @ lockFileSuffix}, umask = 0, faults = []\<rparr>"

theorem refused_without_effect_witness:
  "\<exists>err. errors_Is err ErrReadOnly \<and> Put ro_store ''k'' [1] None ro_world = (Some (Inl err, ro_store), ro_world)"
proof -
  have l: "l_path ro_log = ''s''" "unknownReadOnly ro_log \<noteq> 0" "log_holds ro_log [] [1, 2] \<lparr>content = header_bytes ro_log @ [1, 2], durable = [], fmode = 420\<rparr>"
    by (simp_all add: log_holds_def log_end_def) (simp_all add: ro_log_def new_log_def unknownReadOnly_def knownReadOnlyFeatures_def)
  have "store_open ro_store ''s'' ro_world"
    using l newIndex_spec(3) [of "[''f'']"] unfolding ro_store_def
    by (simp add: store_open_def ro_world_def sample_options_def) (simp add: new_store_def)
  then have inv: "store_inv ro_store ''s'' [] [1, 2] ro_world"
    using l(3) by (simp add: store_inv_def ro_world_def ro_store_def indexes_newIndex coherent_def newLRUCache_spec)
  have ro: "ReadOnly ro_store" using l(2) by (simp add: ro_store_def)
  have cl: "s_closed (ro_store\<lparr>s_closed := True\<rparr>)" by simp
  from refused_without_effect [OF inv ro cl, where key = "''k''" and v = "[1]" and opts = None and pooled = "[]" and fn = collect and t = "[]"]
  show ?thesis by (elim conjE exE) (intro exI conjI)
qed

section \<open>Background tasks\<close>

text \<open>
  A turn of a background loop keeps the database, under any failures: a turn
  of the compaction loop leaves a store with the same database or, when it
  reports an error to \<^verbatim>\<open>OnError\<close> or dies, the database on disk; it reports nothing
  when no call fails, and it compacts exactly when \<^verbatim>\<open>NeedsCompaction\<close> says so. A turn
  of the sync loop makes the whole log durable unless the sync fails.
\<close>

theorem background_turns:
  assumes st: "holds_db s p db w" "\<not> ReadOnly s"
  shows "wp (compaction_tick s)
      (\<lambda>(errs, s') w'. (calm w \<longrightarrow> errs = [] \<and> holds_db s' p db w') \<and> (holds_db s' p db w' \<or> db_on_disk p db w') \<and>
         (\<not> NeedsCompaction s \<longrightarrow> s' = s \<and> w' = w))
      (\<lambda>w'. \<not> calm w \<and> db_on_disk p db w') w \<and>
    wp (sync_tick s)
      (\<lambda>(errs, s') w'. s' = s \<and> holds_db s' p db w' \<and> (synced p w' \<or> \<not> calm w \<and> (OnError (s_options s) \<longrightarrow> errs \<noteq> [])))
      (\<lambda>w'. \<not> calm w \<and> db_on_disk p db w') w"
proof
  obtain es f where es: "store_inv s p es [] w" "items_of es = db" "files w p = Some f" "log_holds (s_log s) es [] f" and rec: "recoverable f db"
    using st by (rule holds_writable)
  show "wp (compaction_tick s)
      (\<lambda>(errs, s') w'. (calm w \<longrightarrow> errs = [] \<and> holds_db s' p db w') \<and> (holds_db s' p db w' \<or> db_on_disk p db w') \<and>
         (\<not> NeedsCompaction s \<longrightarrow> s' = s \<and> w' = w))
      (\<lambda>w'. \<not> calm w \<and> db_on_disk p db w') w"
  proof (cases "NeedsCompaction s")
    case True
    show ?thesis
      unfolding compaction_tick_def if_P [OF True]
    proof (rule wp_bindI, rule wp_mono [OF wp_Compact [OF es(1,3)]], goal_cases)
      case (1 x w')
      then show ?case
        using on_disk_db_on_disk [OF _ rec, of p w'] es(2) st(2) True holds_dbI [of _ p _ w' db]
        by (cases x; cases "fst x") (auto simp: wp_return)
    qed (use on_disk_db_on_disk [OF _ rec] es(2) in auto)
  next
    case False
    then show ?thesis using st by (simp add: compaction_tick_def wp_return)
  qed
  let ?g = "f\<lparr>durable := content f\<rparr>"
  have l: "\<not> l_closed (s_log s)" "l_path (s_log s) = p" using es(1,4) by (auto simp: store_inv_def store_open_def log_holds_def)
  have inv: "store_inv s p es [] (set_file p (Some ?g) (w\<lparr>faults := fs\<rparr>))" for fs
    using es by (simp add: store_inv_def store_open_def log_holds_def)
  have disk: "db_on_disk p db (w\<lparr>faults := fs\<rparr>)" for fs using es(3) rec db_on_disk_main recoverable_log_of by simp
  have same: "holds_db s p db (w\<lparr>faults := fs\<rparr>)" for fs using st(1) by (simp add: holds_db_def)
  show "wp (sync_tick s)
      (\<lambda>(errs, s') w'. s' = s \<and> holds_db s' p db w' \<and> (synced p w' \<or> \<not> calm w \<and> (OnError (s_options s) \<longrightarrow> errs \<noteq> [])))
      (\<lambda>w'. \<not> calm w \<and> db_on_disk p db w') w"
    unfolding sync_tick_def wp_bind
    by (rule log_Sync_open [OF l(1), of _ f])
      (use l(2) es(3) holds_dbI [OF inv es(2)] same disk in \<open>auto simp: wp_return reportError_def synced_def\<close>)
qed

theorem background_turns_witness:
  "wp (sync_tick empty_store) (\<lambda>(errs, s') w'. synced ''s'' w') (\<lambda>_. False) (empty_world [])"
  by (rule wp_mono [OF conjunct2 [OF background_turns [OF empty_store_holds]]]) (auto simp: empty_world_def)

end
