(* ===== verification/Downgrading.thy ===== *)
theory Downgrading
  imports StoreProps
begin

text \<open>
  Writing a database back in an older format (\<^verbatim>\<open>downgrade.go\<close> and the command line
  tool in \<^verbatim>\<open>cmd/appendstore-downgrade\<close>): the definitions, what the older formats
  can express, and the encoder of version 3 records, which inverts the legacy
  reader up to the canonical form of numbers and flags.
\<close>

section \<open>Records of version 3\<close>

definition downgradeTempSuffix :: string where "downgradeTempSuffix = ''.downgrade.tmp''"

definition v3Fields :: "string list" where
  "v3Fields = [legacyCategoryAttribute, legacyProviderAttribute, legacyStatusAttribute, legacyNameAttribute,
     legacyTotalSizeAttribute, legacyProtocolAttribute, legacyBadAttribute, legacyAddedOnAttribute]"

definition v3StringFields :: "string list" where
  "v3StringFields = [legacyCategoryAttribute, legacyProviderAttribute, legacyStatusAttribute, legacyNameAttribute,
     legacyProtocolAttribute]"

definition v3Number :: "attributes \<Rightarrow> string \<Rightarrow> error + int" where
  "v3Number attributes name =
     (let raw = attr_get attributes name in
      if raw = [] then Inr 0
      else case ParseInt raw of Inl err \<Rightarrow> Inl (Wrap ''is not a version 3 number'' [err]) | Inr number \<Rightarrow> Inr number)"

definition appendField :: "bytes \<Rightarrow> string \<Rightarrow> bytes" where
  "appendField buf t = (let buf = buf @ PutUint16 (of_nat (length t)) in buf @ bytes_of t)"

definition encodeV3Record :: "string \<Rightarrow> bytes \<Rightarrow> bytes \<Rightarrow> attributes \<Rightarrow> error + bytes" where
  "encodeV3Record key value extensions attributes =
     (if length extensions > 0 then Inl (Errorf ''carries an extension that version 3 cannot express'')
      else if \<exists>name \<in> set (map fst attributes). name \<notin> set v3Fields then Inl (Errorf ''version 3 has no field for'')
      else if \<exists>name \<in> set v3StringFields. length (attr_get attributes name) > 65535 then
        Inl (Errorf ''more than a version 3 field holds'')
      else
      bindE (v3Number attributes legacyTotalSizeAttribute) (\<lambda>totalSize.
      bindE (v3Number attributes legacyAddedOnAttribute) (\<lambda>addedOn.
      bindE
        (let raw = attr_get attributes legacyBadAttribute in
         if raw \<noteq> [] then
           (case ParseBool raw of
              Inl err \<Rightarrow> Inl (Wrap ''is not a version 3 flag'' [err])
            | Inr bad \<Rightarrow> Inr (if bad then 0 OR 2 else 0))
         else Inr (0 :: byte)) (\<lambda>flags.
      let buf = PutUint32 (of_nat (length key));
          buf = buf @ bytes_of key;
          buf = buf @ PutUint32 (of_nat (length value));
          buf = buf @ value;
          buf = buf @ [flags];
          buf = appendField buf (attr_get attributes legacyCategoryAttribute);
          buf = appendField buf (attr_get attributes legacyProviderAttribute);
          buf = appendField buf (attr_get attributes legacyStatusAttribute);
          buf = appendField buf (attr_get attributes legacyNameAttribute);
          buf = buf @ PutUint64 (of_int totalSize);
          buf = appendField buf (attr_get attributes legacyProtocolAttribute);
          buf = buf @ PutUint64 (of_int addedOn) in
      Inr buf))))"

section \<open>The output\<close>

text \<open>
  \<^verbatim>\<open>bufio.Writer\<close> over a file: what does not fit into the buffer is written, the
  first error is kept, and after it nothing is written any more. A write that
  finds an empty buffer and does not fit goes to the file at once; one that finds
  a buffer in use fills it first, so that at most two writes happen.
\<close>

record fileWriter =
  fw_path :: path
  fw_pos :: nat
  fw_buf :: bytes
  fw_size :: nat
  fw_err :: "error option"

definition bufio_NewWriterSize :: "path \<Rightarrow> nat \<Rightarrow> fileWriter" where
  "bufio_NewWriterSize path n = \<lparr>fw_path = path, fw_pos = 0, fw_buf = [], fw_size = n, fw_err = None\<rparr>"

definition bufio_direct :: "fileWriter \<Rightarrow> bytes \<Rightarrow> fileWriter io" where
  "bufio_direct fw b = bind_io (file_WriteAt (fw_path fw) (fw_pos fw) b) (\<lambda>r. return (case r of
       Inl err \<Rightarrow> fw\<lparr>fw_err := Some err\<rparr>
     | Inr _ \<Rightarrow> fw\<lparr>fw_pos := fw_pos fw + length b\<rparr>))"

definition bufio_Flush :: "fileWriter \<Rightarrow> ((error + unit) \<times> fileWriter) io" where
  "bufio_Flush fw = (case fw_err fw of
       Some err \<Rightarrow> return (Inl err, fw)
     | None \<Rightarrow>
         if fw_buf fw = [] then return (Inr (), fw)
         else bind_io (bufio_direct fw (fw_buf fw)) (\<lambda>fw. return (case fw_err fw of
           Some err \<Rightarrow> (Inl err, fw)
         | None \<Rightarrow> (Inr (), fw\<lparr>fw_buf := []\<rparr>))))"

definition bufio_Write :: "fileWriter \<Rightarrow> bytes \<Rightarrow> fileWriter io" where
  "bufio_Write fw b =
     (let avail = fw_size fw - length (fw_buf fw) in
      if fw_err fw \<noteq> None then return fw
      else if length b \<le> avail then return (fw\<lparr>fw_buf := fw_buf fw @ b\<rparr>)
      else if fw_buf fw = [] then bufio_direct fw b
      else
        bind_io (bufio_Flush (fw\<lparr>fw_buf := fw_buf fw @ take avail b\<rparr>)) (\<lambda>(_, fw).
        if fw_err fw \<noteq> None then return fw
        else if length (drop avail b) \<le> fw_size fw then return (fw\<lparr>fw_buf := drop avail b\<rparr>)
        else bufio_direct fw (drop avail b)))"

section \<open>Downgrade\<close>

record DowngradeOptions =
  do_Version :: "32 word"
  do_Overwrite :: bool

fun forEachLiveRecord_loop :: "appendLog \<Rightarrow> index \<Rightarrow> (string \<Rightarrow> bytes \<Rightarrow> bytes \<Rightarrow> attributes \<Rightarrow> 's \<Rightarrow> ((error + unit) \<times> 's) io)
    \<Rightarrow> string list \<Rightarrow> 's \<Rightarrow> ((error + unit) \<times> 's) io" where
  "forEachLiveRecord_loop l liveIdx fn [] st = return (Inr (), st)"
| "forEachLiveRecord_loop l liveIdx fn (key # keys) st = (case index_Get liveIdx key of
       None \<Rightarrow> forEachLiveRecord_loop l liveIdx fn keys st
     | Some entry \<Rightarrow>
         bind_io (ReadRecordAndExtensionsAt l (ie_RecordOffset entry) (ie_StoredSize entry)) (\<lambda>r. case r of
           Inl err \<Rightarrow> return (Inl (Wrap ''read key'' [err]), st)
         | Inr (value, extensions) \<Rightarrow>
             bind_io (fn key value extensions (ie_Attributes entry) st) (\<lambda>(r, st). case r of
               Inl err \<Rightarrow> return (Inl err, st)
             | Inr _ \<Rightarrow> forEachLiveRecord_loop l liveIdx fn keys st)))"

definition forEachLiveRecord :: "appendLog \<Rightarrow> index \<Rightarrow> (string \<Rightarrow> bytes \<Rightarrow> bytes \<Rightarrow> attributes \<Rightarrow> 's \<Rightarrow> ((error + unit) \<times> 's) io)
    \<Rightarrow> 's \<Rightarrow> ((error + unit) \<times> 's) io" where
  "forEachLiveRecord l liveIdx fn st =
     (let (keys, liveIdx) = KeysSortedByOffset liveIdx in forEachLiveRecord_loop l liveIdx fn keys st)"

definition v4_visit :: "string \<Rightarrow> bytes \<Rightarrow> bytes \<Rightarrow> attributes \<Rightarrow> appendLog \<Rightarrow> ((error + unit) \<times> appendLog) io" where
  "v4_visit key value extensions attributes out =
     (if length extensions > 0 then return (Inl (Errorf ''carries an extension that version 4 cannot express''), out)
      else bind_io (Append out key value False attributes []) (\<lambda>(r, out).
        return (case r of Inl err \<Rightarrow> Inl err | Inr _ \<Rightarrow> Inr (), out)))"

definition writeV4Log :: "appendLog \<Rightarrow> index \<Rightarrow> path \<Rightarrow> (error + unit) io" where
  "writeV4Log l liveIdx path =
     try_io (createAppendLogMode path 420) (\<lambda>out.
     bind_io (forEachLiveRecord l liveIdx v4_visit out) (\<lambda>(err, out).
     bind_io (case err of Inr _ \<Rightarrow> setVersion out 4 | Inl e \<Rightarrow> return (Inl e, out)) (\<lambda>(err, out). case err of
       Inl e \<Rightarrow> bind_io (log_Close out) (\<lambda>_. return (Inl e))
     | Inr _ \<Rightarrow> bind_io (log_Close out) (\<lambda>(r, _). return r))))"

definition v3_header :: bytes where
  "v3_header = take 4 (bytes_of logMagic) @ PutUint32 3 @ replicate 8 0"

definition v3_visit :: "string \<Rightarrow> bytes \<Rightarrow> bytes \<Rightarrow> attributes \<Rightarrow> fileWriter \<Rightarrow> ((error + unit) \<times> fileWriter) io" where
  "v3_visit key value extensions attributes fw = (case encodeV3Record key value extensions attributes of
       Inl encodeErr \<Rightarrow> return (Inl encodeErr, fw)
     | Inr rec \<Rightarrow> bind_io (bufio_Write fw rec) (\<lambda>fw. return (Inr (), fw)))"

definition writeV3Log :: "appendLog \<Rightarrow> index \<Rightarrow> path \<Rightarrow> (error + unit) io" where
  "writeV3Log l liveIdx path =
     try_io (os_OpenFile path True 420) (\<lambda>_.
     bind_io (bufio_Write (bufio_NewWriterSize path 1048576) v3_header) (\<lambda>writer.
     bind_io (forEachLiveRecord l liveIdx v3_visit writer) (\<lambda>(err, writer).
     bind_io (case err of Inr _ \<Rightarrow> bufio_Flush writer | Inl e \<Rightarrow> return (Inl e, writer)) (\<lambda>(err, _).
     bind_io (case err of Inr _ \<Rightarrow> file_Sync path | Inl e \<Rightarrow> return (Inl e)) (\<lambda>err. case err of
       Inl e \<Rightarrow> ignore_io file_Close (return (Inl e))
     | Inr _ \<Rightarrow> file_Close)))))"

definition downgrade_record :: "logRecord \<Rightarrow> index \<Rightarrow> error option \<times> index" where
  "downgrade_record rec liveIdx = (None,
     if lr_Deleted rec then index_Delete (lr_Key rec) liveIdx
     else index_Put (lr_Key rec)
       (new_entry (lr_Offset rec) (lr_Size rec) (lr_RecordOffset rec) (lr_StoredSize rec) (lr_Attributes rec)) liveIdx)"

definition downgrade_write :: "appendLog \<Rightarrow> index \<Rightarrow> path \<Rightarrow> 32 word \<Rightarrow> (error + unit) io" where
  "downgrade_write l liveIdx dst version =
     (let tmp = dst @ downgradeTempSuffix in
      try_io (removeIfExists tmp) (\<lambda>_.
      bind_io (if version = 4 then writeV4Log l liveIdx tmp else writeV3Log l liveIdx tmp) (\<lambda>r. case r of
        Inl err \<Rightarrow> ignore_io (os_Remove tmp) (return (Inl err))
      | Inr _ \<Rightarrow>
      bind_io (os_Rename tmp dst) (\<lambda>r. case r of
        Inl err \<Rightarrow> ignore_io (os_Remove tmp) (return (Inl err))
      | Inr _ \<Rightarrow> syncParentDirectory dst))))"

definition downgrade_log :: "appendLog \<Rightarrow> path \<Rightarrow> 32 word \<Rightarrow> ((error + unit) \<times> appendLog) io" where
  "downgrade_log l dst version =
     (if l_version l < 4 then return (Inl (Errorf ''is already version''), l)
      else if l_incompatibleFeatures l OR l_readOnlyFeatures l \<noteq> 0 then
        return (Inl (Errorf ''log sets feature bits''), l)
      else
        bind_io (Iterate l downgrade_record (newIndex [])) (\<lambda>(r, liveIdx, l). case r of
          Inl err \<Rightarrow> return (Inl err, l)
        | Inr _ \<Rightarrow> bind_io (downgrade_write l liveIdx dst version) (\<lambda>r. return (r, l))))"

text \<open>The deferred calls run on every way out: the log is closed, then the lock is released.\<close>

definition downgrade_locked :: "path \<Rightarrow> path \<Rightarrow> 32 word \<Rightarrow> (error + unit) io" where
  "downgrade_locked src dst version =
     bind_io (openAppendLog src) (\<lambda>r. case r of
       Inl err \<Rightarrow> return (Inl err)
     | Inr l \<Rightarrow>
         bind_io (downgrade_log l dst version) (\<lambda>(r, l).
         bind_io (log_Close l) (\<lambda>_. return r)))"

definition Downgrade :: "path \<Rightarrow> path \<Rightarrow> DowngradeOptions \<Rightarrow> (error + unit) io" where
  "Downgrade src dst options =
     (let version = do_Version options in
      if version \<noteq> 3 \<and> version \<noteq> 4 then return (Inl (Errorf ''unsupported downgrade target version''))
      else if src = dst then return (Inl (Errorf ''downgrade destination must differ from the source''))
      else
      try_io
        (if \<not> do_Overwrite options then
           bind_io (os_Stat dst) (\<lambda>r. return (case r of
             Inr _ \<Rightarrow> Inl (Errorf ''downgrade destination already exists'')
           | Inl err \<Rightarrow> if \<not> errors_Is err ErrNotExist then Inl err else Inr ()))
         else return (Inr ())) (\<lambda>_.
      try_io (acquireFileLock src) (\<lambda>lock.
      bind_io (downgrade_locked src dst version) (\<lambda>r.
      bind_io (lock_release lock) (\<lambda>_. return r)))))"

section \<open>The command line tool\<close>

text \<open>
  \<^verbatim>\<open>main\<close> of \<^verbatim>\<open>appendstore-downgrade\<close>, behind the parsing of its flags: \<open>version\<close> is the
  value of \<^verbatim>\<open>-to\<close>, an unsigned 64-bit number, \<open>force\<close> that of \<^verbatim>\<open>-f\<close>, and \<open>args\<close> are
  the other arguments. The result says what is printed and the exit code.
\<close>

datatype tool_output = PrintsUsage | PrintsError error | PrintsWrote path "64 word"

fun exit_code :: "tool_output \<Rightarrow> nat" where
  "exit_code PrintsUsage = 2"
| "exit_code (PrintsError err) = 1"
| "exit_code (PrintsWrote destination version) = 0"

definition tool_main :: "64 word \<Rightarrow> bool \<Rightarrow> string list \<Rightarrow> tool_output io" where
  "tool_main version force args = (case args of
       [source, destination] \<Rightarrow>
         let options = \<lparr>do_Version = ucast version, do_Overwrite = force\<rparr> in
         bind_io (Downgrade source destination options) (\<lambda>r. return (case r of
           Inl err \<Rightarrow> PrintsError err
         | Inr _ \<Rightarrow> PrintsWrote destination version))
     | _ \<Rightarrow> return PrintsUsage)"

section \<open>What the older formats express\<close>

text \<open>
  Version 4 has no extensions. Version 3 has fixed fields besides: text of limited
  length, two numbers and a flag. What a record of version 3 makes of attributes:
  all fields are there, the numbers and the flag in canonical form.
\<close>

definition v3_text :: "(string \<rightharpoonup> string) \<Rightarrow> string \<Rightarrow> string" where
  "v3_text m name = (case m name of None \<Rightarrow> [] | Some t \<Rightarrow> t)"

definition v3_number :: "(string \<rightharpoonup> string) \<Rightarrow> string \<Rightarrow> int" where
  "v3_number m name = (case ParseInt (v3_text m name) of Inl _ \<Rightarrow> 0 | Inr n \<Rightarrow> n)"

definition v3_flag :: "(string \<rightharpoonup> string) \<Rightarrow> bool" where
  "v3_flag m \<longleftrightarrow> ParseBool (v3_text m legacyBadAttribute) = Inr True"

definition v3_attributes :: "(string \<rightharpoonup> string) \<Rightarrow> attributes" where
  "v3_attributes m =
     [(legacyCategoryAttribute, v3_text m legacyCategoryAttribute), (legacyProviderAttribute, v3_text m legacyProviderAttribute),
      (legacyStatusAttribute, v3_text m legacyStatusAttribute), (legacyNameAttribute, v3_text m legacyNameAttribute),
      (legacyTotalSizeAttribute, FormatInt (v3_number m legacyTotalSizeAttribute)),
      (legacyProtocolAttribute, v3_text m legacyProtocolAttribute),
      (legacyBadAttribute, FormatBool (v3_flag m)), (legacyAddedOnAttribute, FormatInt (v3_number m legacyAddedOnAttribute))]"

definition v3_expressible :: "item \<Rightarrow> bool" where
  "v3_expressible it \<longleftrightarrow> it_ext it = [] \<and> dom (it_attrs it) \<subseteq> set v3Fields \<and>
     (\<forall>name \<in> set v3StringFields. length (v3_text (it_attrs it) name) \<le> 65535) \<and>
     (\<forall>name \<in> {legacyTotalSizeAttribute, legacyAddedOnAttribute}.
        v3_text (it_attrs it) name = [] \<or> (\<exists>n. ParseInt (v3_text (it_attrs it) name) = Inr n)) \<and>
     (v3_text (it_attrs it) legacyBadAttribute = [] \<or> (\<exists>b. ParseBool (v3_text (it_attrs it) legacyBadAttribute) = Inr b))"

definition expressible :: "32 word \<Rightarrow> item \<Rightarrow> bool" where
  "expressible version it \<longleftrightarrow> (if version = 4 then it_ext it = [] else v3_expressible it)"

definition downgraded :: "32 word \<Rightarrow> db \<Rightarrow> db" where
  "downgraded version db = (if version = 4 then db
     else (\<lambda>k. map_option (\<lambda>it. it\<lparr>it_attrs := map_of (v3_attributes (it_attrs it))\<rparr>) (db k)))"

section \<open>The encoder and the legacy reader\<close>

lemma attr_get_text: "attr_get m name = v3_text (map_of m) name"
  by (simp add: attr_get_def v3_text_def)

lemma v3_number_empty: "ParseInt [] \<noteq> Inr n" "v3_text m name = [] \<Longrightarrow> v3_number m name = 0"
  by (simp_all add: v3_number_def ParseInt_def)

lemma v3Number_cases:
  "v3Number as name = (let raw = v3_text (map_of as) name in
     if raw = [] \<or> (\<exists>n. ParseInt raw = Inr n) then Inr (v3_number (map_of as) name)
     else Inl (Wrap ''is not a version 3 number'' [projl (ParseInt raw)]))"
  by (cases "v3_text (map_of as) name = []")
    (auto simp: v3Number_def Let_def attr_get_text v3_number_empty v3_number_def split: sum.split)

lemma v3_number_range: "- (2 ^ 63) \<le> v3_number m name \<and> v3_number m name < 2 ^ 63"
  using ParseInt_range [of "v3_text m name"] by (auto simp: v3_number_def split: sum.split)

text \<open>The bytes of a record, and when there are some.\<close>

definition v3_field :: "(string \<rightharpoonup> string) \<Rightarrow> string \<Rightarrow> bytes" where
  "v3_field m name = PutUint16 (of_nat (length (v3_text m name))) @ bytes_of (v3_text m name)"

definition v3_bytes :: "string \<Rightarrow> bytes \<Rightarrow> (string \<rightharpoonup> string) \<Rightarrow> bytes" where
  "v3_bytes key v m = PutUint32 (of_nat (length key)) @ bytes_of key @ PutUint32 (of_nat (length v)) @ v @
     [if v3_flag m then 2 else 0] @ v3_field m legacyCategoryAttribute @ v3_field m legacyProviderAttribute @
     v3_field m legacyStatusAttribute @ v3_field m legacyNameAttribute @
     PutUint64 (of_int (v3_number m legacyTotalSizeAttribute)) @ v3_field m legacyProtocolAttribute @
     PutUint64 (of_int (v3_number m legacyAddedOnAttribute))"

lemma v3_flags:
  "(let raw = v3_text m legacyBadAttribute in if raw \<noteq> [] then
      (case ParseBool raw of Inl err \<Rightarrow> Inl (Wrap ''is not a version 3 flag'' [err]) | Inr bad \<Rightarrow> Inr (if bad then 0 OR 2 else 0))
    else Inr (0 :: byte)) =
   (if v3_text m legacyBadAttribute = [] \<or> (\<exists>b. ParseBool (v3_text m legacyBadAttribute) = Inr b)
    then Inr (if v3_flag m then 2 else 0)
    else Inl (Wrap ''is not a version 3 flag'' [projl (ParseBool (v3_text m legacyBadAttribute))]))"
  by (auto simp: v3_flag_def ParseBool_def Let_def)

lemma encodeV3Record_Inr_iff:
  "encodeV3Record key v x as = Inr b \<longleftrightarrow>
     v3_expressible \<lparr>it_value = v, it_attrs = map_of as, it_ext = x\<rparr> \<and> b = v3_bytes key v (map_of as)"
proof -
  have d: "(\<exists>name \<in> set (map fst as). name \<notin> set v3Fields) \<longleftrightarrow> \<not> dom (map_of as) \<subseteq> set v3Fields"
    by (auto simp: dom_map_of_conv_image_fst)
  have t: "(\<exists>name \<in> set v3StringFields. length (v3_text (map_of as) name) > 65535) \<longleftrightarrow>
      \<not> (\<forall>name \<in> set v3StringFields. length (v3_text (map_of as) name) \<le> 65535)"
    by (auto simp: not_le)
  show ?thesis
    unfolding encodeV3Record_def d attr_get_text v3_flags v3Number_cases t
    by (simp add: v3_expressible_def appendField_def v3_bytes_def v3_field_def Let_def bindE_iffs) auto
qed

lemma sint_of_int: "- (2 ^ 63) \<le> i \<Longrightarrow> i < 2 ^ 63 \<Longrightarrow> sint (of_int i :: 64 word) = i"
  by (simp add: signed_of_int signed_take_bit_int_eq_self)

lemma read_pieces:
  "io_ReadFull \<lparr>rbuf = b @ rest, rerr = e\<rparr> (length b) = Inr (b, \<lparr>rbuf = rest, rerr = e\<rparr>)"
  "legacy_readU32 \<lparr>rbuf = PutUint32 n @ rest, rerr = e\<rparr> p = Inr (n, p + 4, \<lparr>rbuf = rest, rerr = e\<rparr>)"
  "- (2 ^ 63) \<le> i \<Longrightarrow> i < 2 ^ 63 \<Longrightarrow> legacy_readU64 \<lparr>rbuf = PutUint64 (of_int i) @ rest, rerr = e\<rparr> p =
    Inr (i, p + 8, \<lparr>rbuf = rest, rerr = e\<rparr>)"
  "m = length t \<Longrightarrow> legacy_readString m \<lparr>rbuf = bytes_of t @ rest, rerr = e\<rparr> p = Inr (t, p + m, \<lparr>rbuf = rest, rerr = e\<rparr>)"
proof -
  show r: "io_ReadFull \<lparr>rbuf = b @ rest, rerr = e\<rparr> (length b) = Inr (b, \<lparr>rbuf = rest, rerr = e\<rparr>)" for b
    by (simp add: io_ReadFull_Inr_iff)
  show "legacy_readU32 \<lparr>rbuf = PutUint32 n @ rest, rerr = e\<rparr> p = Inr (n, p + 4, \<lparr>rbuf = rest, rerr = e\<rparr>)"
    using r [of "PutUint32 n"] by (simp add: legacy_readU32_def)
  show "legacy_readU64 \<lparr>rbuf = PutUint64 (of_int i) @ rest, rerr = e\<rparr> p = Inr (i, p + 8, \<lparr>rbuf = rest, rerr = e\<rparr>)"
    if "- (2 ^ 63) \<le> i" "i < 2 ^ 63"
    using r [of "PutUint64 (of_int i)"] sint_of_int [OF that] by (simp add: legacy_readU64_def)
  show "legacy_readString m \<lparr>rbuf = bytes_of t @ rest, rerr = e\<rparr> p = Inr (t, p + m, \<lparr>rbuf = rest, rerr = e\<rparr>)" if "m = length t"
    using r [of "bytes_of t"] that by (simp add: legacy_readString_def)
qed

lemma read_field:
  assumes "length t \<le> 65535"
  shows "legacy_readField \<lparr>rbuf = PutUint16 (of_nat (length t)) @ bytes_of t @ rest, rerr = e\<rparr> p =
    Inr (t, p + 2 + length t, \<lparr>rbuf = rest, rerr = e\<rparr>)"
proof -
  have u: "unat (of_nat (length t) :: 16 word) = length t" using assms by (simp add: unat_of_nat)
  have "legacy_readU16 \<lparr>rbuf = PutUint16 (of_nat (length t)) @ bytes_of t @ rest, rerr = e\<rparr> p =
      Inr (of_nat (length t), p + 2, \<lparr>rbuf = bytes_of t @ rest, rerr = e\<rparr>)"
    using read_pieces(1) [of "PutUint16 (of_nat (length t))"] by (simp add: legacy_readU16_def)
  then show ?thesis by (simp add: legacy_readField_def u read_pieces(4))
qed

lemma read_v3_field:
  assumes "length (v3_text m name) \<le> 65535"
  shows "legacy_readField \<lparr>rbuf = v3_field m name @ rest, rerr = e\<rparr> p =
    Inr (v3_text m name, p + length (v3_field m name), \<lparr>rbuf = rest, rerr = e\<rparr>)"
  using read_field [OF assms] by (simp add: v3_field_def)

lemma read_v3_bytes:
  assumes "v3_expressible it" "length key \<le> maxKeySize" "length (it_value it) \<le> maxValueSize" "b = v3_bytes key (it_value it) (it_attrs it)"
  shows "readLegacyRecordFrom \<lparr>rbuf = b @ rest, rerr = e\<rparr> p 3 =
    Inr (\<lparr>lr_Key = key, lr_Offset = p + 8 + length key, lr_Size = of_nat (length (it_value it)), lr_RecordOffset = p,
      lr_StoredSize = length b, lr_Deleted = False, lr_Attributes = v3_attributes (it_attrs it)\<rparr>, p + length b, \<lparr>rbuf = rest, rerr = e\<rparr>)"
proof -
  let ?m = "it_attrs it" and ?v = "it_value it"
  have u: "unat (of_nat (length key) :: 32 word) = length key" "unat (of_nat (length ?v) :: 32 word) = length ?v"
    using assms(2,3) by (simp_all add: limits unat_of_nat)
  have d: "bufio_Discard \<lparr>rbuf = ?v @ r, rerr = e\<rparr> (length ?v) = Inr \<lparr>rbuf = r, rerr = e\<rparr>" for r
    by (simp add: bufio_Discard_def)
  have f: "io_ReadFull \<lparr>rbuf = x # r, rerr = e\<rparr> (Suc 0) = Inr ([x], \<lparr>rbuf = r, rerr = e\<rparr>)" for x r
    using read_pieces(1) [of "[x]"] by simp
  have "length (v3_text ?m name) \<le> 65535" if "name \<in> set v3StringFields" for name using assms(1) that by (simp add: v3_expressible_def)
  note l = this [unfolded v3StringFields_def, simplified]
  show ?thesis
    using assms(2,3) v3_number_range [of ?m]
    by (simp add: assms(4) v3_bytes_def readLegacyRecordFrom_def read_pieces read_v3_field l u d f v3_attributes_def legacy_names)
qed

text \<open>What was read back is in canonical form: it gives the same record again.\<close>

lemma v3_attributes_get:
  "name \<in> set v3StringFields \<Longrightarrow> v3_text (map_of (v3_attributes m)) name = v3_text m name"
  "name \<in> {legacyTotalSizeAttribute, legacyAddedOnAttribute} \<Longrightarrow> v3_text (map_of (v3_attributes m)) name = FormatInt (v3_number m name)"
  "v3_text (map_of (v3_attributes m)) legacyBadAttribute = FormatBool (v3_flag m)"
  "dom (map_of (v3_attributes m)) = set v3Fields"
  by (auto simp: v3_attributes_def v3StringFields_def v3Fields_def legacy_names v3_text_def)

lemma v3_attributes_number:
  assumes "name \<in> {legacyTotalSizeAttribute, legacyAddedOnAttribute}"
  shows "v3_number (map_of (v3_attributes m)) name = v3_number m name"
    "ParseInt (v3_text (map_of (v3_attributes m)) name) = Inr (v3_number m name)"
  using ParseInt_FormatInt v3_number_range [of m name] by (simp_all add: v3_number_def [of "map_of (v3_attributes m)"] v3_attributes_get(2) [OF assms])

lemma v3_flag_attributes: "v3_flag (map_of (v3_attributes m)) = v3_flag m"
  unfolding v3_flag_def [of "map_of (v3_attributes m)"] v3_attributes_get(3) by simp

lemma v3_canonical:
  assumes "v3_expressible it"
  shows "v3_expressible (it\<lparr>it_attrs := map_of (v3_attributes (it_attrs it))\<rparr>)"
    "v3_bytes key v (map_of (v3_attributes (it_attrs it))) = v3_bytes key v (it_attrs it)"
proof -
  show "v3_expressible (it\<lparr>it_attrs := map_of (v3_attributes (it_attrs it))\<rparr>)"
    using assms v3_attributes_number(2) [of _ "it_attrs it"] by (auto simp: v3_expressible_def v3_attributes_get)
  show "v3_bytes key v (map_of (v3_attributes (it_attrs it))) = v3_bytes key v (it_attrs it)"
    by (simp add: v3_bytes_def v3_field_def v3_flag_attributes v3_attributes_number v3_attributes_get(1) v3StringFields_def)
qed

text \<open>
  C17. A record that can be expressed in version 3 is read back by the reader of old
  logs: the key, the place and size of the value, not deleted, and the attributes in
  the canonical form of that version; nothing behind the record is consumed.
  Encoding what was read gives the same bytes again.
\<close>

theorem v3_record_roundtrip:
  assumes enc: "encodeV3Record key v x attributes = Inr b" and "length key \<le> maxKeySize" "length v \<le> maxValueSize"
  shows "readLegacyRecordFrom \<lparr>rbuf = b @ rest, rerr = e\<rparr> p 3 =
      Inr (\<lparr>lr_Key = key, lr_Offset = p + 8 + length key, lr_Size = of_nat (length v), lr_RecordOffset = p,
        lr_StoredSize = length b, lr_Deleted = False, lr_Attributes = v3_attributes (map_of attributes)\<rparr>, p + length b, \<lparr>rbuf = rest, rerr = e\<rparr>) \<and>
    x = [] \<and> take (length v) (drop (8 + length key) b) = v \<and>
    encodeV3Record key v [] (v3_attributes (map_of attributes)) = Inr b"
proof -
  let ?it = "\<lparr>it_value = v, it_attrs = map_of attributes, it_ext = x\<rparr>"
  have ex: "v3_expressible ?it" and b: "b = v3_bytes key v (map_of attributes)" using enc by (simp_all add: encodeV3Record_Inr_iff)
  have x: "x = []" using ex by (simp add: v3_expressible_def)
  have "encodeV3Record key v [] (v3_attributes (map_of attributes)) = Inr b"
    using v3_canonical(1) [OF ex] v3_canonical(2) [OF ex, of key v] b x by (simp add: encodeV3Record_Inr_iff)
  moreover have "take (length v) (drop (8 + length key) b) = v" by (simp add: b v3_bytes_def)
  ultimately show ?thesis using read_v3_bytes [OF ex, of key b] assms(2,3) b x by simp
qed

theorem v3_record_roundtrip_witness:
  "\<exists>b. encodeV3Record ''k'' [118] [] [(''total_size'', ''007'')] = Inr b \<and>
    (\<exists>rec. readLegacyRecordFrom \<lparr>rbuf = b, rerr = EOF\<rparr> 16 3 = Inr (rec, 16 + length b, \<lparr>rbuf = [], rerr = EOF\<rparr>) \<and>
       attr_get (lr_Attributes rec) ''total_size'' = ''7'')"
proof -
  let ?as = "[(''total_size'', ''007'')]"
  have i: "ParseInt ''007'' = Inr 7" by (simp add: ParseInt_def digits_value_def is_digit_def)
  have "v3_expressible \<lparr>it_value = [118], it_attrs = map_of ?as, it_ext = []\<rparr>"
    using i by (simp add: v3_expressible_def v3Fields_def v3StringFields_def v3_text_def legacy_names)
  then have enc: "encodeV3Record ''k'' [118] [] ?as = Inr (v3_bytes ''k'' [118] (map_of ?as))" by (simp add: encodeV3Record_Inr_iff)
  have "digit 7 = CHR ''7''" by code_simp
  then have f: "FormatInt 7 = ''7''" by (simp add: FormatInt_def nat_digits.simps [of 7])
  have "attr_get (v3_attributes (map_of ?as)) ''total_size'' = ''7''"
    using v3_attributes_get(2) [of legacyTotalSizeAttribute "map_of ?as"] i f
    by (simp add: attr_get_text legacyTotalSizeAttribute_def v3_number_def) (simp add: v3_text_def)
  then show ?thesis using v3_record_roundtrip [OF enc, of "[]" EOF 16] enc by (simp add: limits)
qed

section \<open>A log of version 3\<close>

definition v3_chunk :: "db \<Rightarrow> string \<Rightarrow> bytes" where
  "v3_chunk db k = v3_bytes k (it_value (the (db k))) (it_attrs (the (db k)))"

fun v3_records :: "db \<Rightarrow> nat \<Rightarrow> string list \<Rightarrow> logRecord list" where
  "v3_records db p [] = []"
| "v3_records db p (k # ks) =
     \<lparr>lr_Key = k, lr_Offset = p + 8 + length k, lr_Size = of_nat (length (it_value (the (db k)))), lr_RecordOffset = p,
       lr_StoredSize = length (v3_chunk db k), lr_Deleted = False, lr_Attributes = v3_attributes (it_attrs (the (db k)))\<rparr>
     # v3_records db (p + length (v3_chunk db k)) ks"

text \<open>The items of the keys \<open>ks\<close> fit into a log of version 3.\<close>

definition v3_fits :: "db \<Rightarrow> string list \<Rightarrow> bool" where
  "v3_fits db ks \<longleftrightarrow> (\<forall>k \<in> set ks. \<exists>it. db k = Some it \<and> v3_expressible it \<and> length k \<le> maxKeySize \<and> length (it_value it) \<le> maxValueSize)"

lemma v3_accepts: "v3_fits db ks \<Longrightarrow> accepts 3 p (map (v3_chunk db) ks) (v3_records db p ks)"
proof (induction ks arbitrary: p)
  case (Cons k ks)
  obtain it where it: "db k = Some it" "v3_expressible it" "length k \<le> maxKeySize" "length (it_value it) \<le> maxValueSize"
    using Cons.prems by (auto simp: v3_fits_def)
  have "read_record 3 \<lparr>rbuf = v3_chunk db k, rerr = EOF\<rparr> p = Inr (hd (v3_records db p (k # ks)), p + length (v3_chunk db k), \<lparr>rbuf = [], rerr = EOF\<rparr>)"
    using read_v3_bytes [OF it(2-4) refl, of "[]" EOF p] it(1) by (simp add: read_record_def v3_chunk_def)
  then show ?case using Cons by (simp add: v3_fits_def)
qed simp

lemma v3_records_append: "v3_records db p (ks @ ks') = v3_records db p ks @ v3_records db (p + length (concat (map (v3_chunk db) ks))) ks'"
  by (induction ks arbitrary: p) (simp_all add: add.assoc)

lemma v3_items:
  assumes "v3_fits db ks"
  shows "legacy_items (h @ concat (map (v3_chunk db) ks) @ rest) (v3_records db (length h) ks) k =
    (if k \<in> set ks then downgraded 3 db k else None)"
  using assms
proof (induction ks arbitrary: rest rule: rev_induct)
  case (snoc x ks)
  let ?c = "h @ concat (map (v3_chunk db) ks)"
  obtain it where it: "db x = Some it" "length (it_value it) \<le> maxValueSize" "it_ext it = []"
    using snoc.prems by (auto simp: v3_fits_def v3_expressible_def)
  have eq: "\<lparr>it_value = it_value it, it_attrs = m, it_ext = []\<rparr> = it\<lparr>it_attrs := m\<rparr>" for m using it(3) by simp
  have u: "unat (of_nat (length (it_value it)) :: 32 word) = length (it_value it)" using it(2) by (simp add: limits unat_of_nat)
  have "slice (length ?c + 8 + length x) (length (it_value it)) (?c @ v3_chunk db x @ rest) = it_value it"
    by (simp add: it v3_chunk_def v3_bytes_def)
  then have sl: "slice (length h + length (concat (map (v3_chunk db) ks)) + 8 + length x) (length (it_value it))
      (h @ concat (map (v3_chunk db) ks) @ v3_chunk db x @ rest) = it_value it"
    by simp
  have IH: "legacy_items (h @ concat (map (v3_chunk db) ks) @ v3_chunk db x @ rest) (v3_records db (length h) ks) k =
      (if k \<in> set ks then downgraded 3 db k else None)"
    using snoc by (simp add: v3_fits_def)
  show ?case
    using IH sl by (simp add: v3_records_append legacy_items_def replay_snoc replay_step_def downgraded_def it(1) eq u del: drop_append take_append)
qed (simp add: legacy_items_def replay_def)

lemma v3_header_parse:
  "length v3_header = logHeaderSize" "parse_header (new_log p) v3_header = Inr ((new_log p)\<lparr>l_version := 3\<rparr>)"
proof -
  have "replicate 8 (0 :: byte) = [0, 0, 0, 0, 0, 0, 0, 0]" by (simp add: numeral_eq_Suc)
  then have h: "v3_header = header_bytes ((new_log [])\<lparr>l_version := 3\<rparr>)"
    by (simp add: v3_header_def header_bytes_def new_log_def PutUint32_def)
  show "length v3_header = logHeaderSize" by (simp add: h)
  show "parse_header (new_log p) v3_header = Inr ((new_log p)\<lparr>l_version := 3\<rparr>)"
    using h parse_header_bytes [of "(new_log [])\<lparr>l_version := 3\<rparr>" p] by (simp add: new_log_def logVersion_def)
qed

lemma v3_log_of:
  assumes "v3_fits db ks" "set ks = dom db" "content g = v3_header @ concat (map (v3_chunk db) ks)"
  shows "log_of g (downgraded 3 db)"
proof -
  note h = v3_header_parse
  have "legacy_log 3 v3_header (map (v3_chunk db) ks) (v3_records db logHeaderSize ks) [] g"
    using assms(3) h v3_accepts [OF assms(1)] by (simp add: legacy_log_def cut_tail_def)
  moreover have "legacy_items (content g) (v3_records db logHeaderSize ks) k = downgraded 3 db k" for k
    using v3_items [OF assms(1), of v3_header "[]" k] assms(2,3) h(1) by (cases "db k") (auto simp: downgraded_def)
  ultimately show ?thesis unfolding log_of_def by blast
qed

end
