(* ===== verification/DowngradeSpec.thy ===== *)
theory DowngradeSpec
  imports Downgrading
begin

text \<open>
  What \<^verbatim>\<open>Downgrade\<close> promises. The destination is untouched or complete, whatever
  calls fail; when it is complete it is a log of the old version that holds the
  database as that version expresses it; the source keeps its database; the lock
  is released.
\<close>

section \<open>Visiting the live records\<close>

lemma wp_forEachLiveRecord_loop:
  assumes off: "offers l idx f db" "4 \<le> l_version l"
    and inv: "\<And>ks st w'. I ks st w' \<Longrightarrow> files w' (l_path l) = Some f" "\<And>ks st w' fs. I ks st w' \<Longrightarrow> still w' fs \<Longrightarrow> I ks st (w'\<lparr>faults := fs\<rparr>)"
    and step: "\<And>ks k en it st w'. I ks st w' \<Longrightarrow> index_Get idx k = Some en \<Longrightarrow> db k = Some it \<Longrightarrow> gives l f k en it \<Longrightarrow>
      go_map (ie_Attributes en) \<Longrightarrow> wp (fn k (it_value it) (it_ext it) (ie_Attributes en) st)
        (\<lambda>(r, st') w''. case r of Inr _ \<Rightarrow> I (ks @ [k]) st' w'' | Inl _ \<Rightarrow> E st' w'') C w'"
    and bad: "\<And>ks st w' fs. I ks st w' \<Longrightarrow> \<not> calm w' \<Longrightarrow> E st (w'\<lparr>faults := fs\<rparr>) \<and> C (w'\<lparr>faults := fs\<rparr>)"
    and "set keys \<subseteq> dom db" "I ks st w"
  shows "wp (forEachLiveRecord_loop l idx fn keys st) (\<lambda>(r, st') w'. case r of Inr _ \<Rightarrow> I (ks @ keys) st' w' | Inl _ \<Rightarrow> E st' w') C w"
  using assms(7-)
proof (induction keys arbitrary: ks st w)
  case Nil
  then show ?case by (simp add: wp_return)
next
  case (Cons k keys)
  have "k \<in> dom (index_Get idx)" using offers_dom [OF off(1)] Cons.prems by simp
  then obtain en where en: "index_Get idx k = Some en" by blast
  obtain it where it: "db k = Some it" "gives l f k en it" and gm: "go_map (ie_Attributes en)"
    using off(1) en by (rule offers_get)
  have rd: "in_log l f (ie_RecordOffset en) (ie_StoredSize en)"
    "stored_parts (slice (ie_RecordOffset en) (ie_StoredSize en) (content f)) = Inr (it_value it, it_ext it)"
    using it(2) off(2) by (simp_all add: gives_def readable_def)
  have ih: "wp (forEachLiveRecord_loop l idx fn keys st') (\<lambda>(r, st') w'. case r of Inr _ \<Rightarrow> I (ks @ k # keys) st' w' | Inl _ \<Rightarrow> E st' w') C w'"
    if "I (ks @ [k]) st' w'" for st' w'
  proof -
    have eq: "ks @ k # keys = (ks @ [k]) @ keys" by simp
    show ?thesis unfolding eq by (rule Cons.IH [OF _ that]) (use Cons.prems(1) in simp)
  qed
  have visit: "wp (bind_io (fn k (it_value it) (it_ext it) (ie_Attributes en) st) (\<lambda>(r, st). case r of
      Inl err \<Rightarrow> return (Inl err, st) | Inr _ \<Rightarrow> forEachLiveRecord_loop l idx fn keys st))
    (\<lambda>(r, st') w'. case r of Inr _ \<Rightarrow> I (ks @ k # keys) st' w' | Inl _ \<Rightarrow> E st' w') C (w\<lparr>faults := fs\<rparr>)" if fs: "still w fs" for fs
  proof (rule wp_bindI, rule wp_mono [OF step [OF inv(2) [OF Cons.prems(2) fs] en it gm]], goal_cases)
    case (1 x w')
    obtain r st' where x: "x = (r, st')" by (cases x)
    show ?case
    proof (cases r)
      case (Inl err)
      then show ?thesis using 1 unfolding x by (simp add: wp_return)
    next
      case (Inr u)
      then have "I (ks @ [k]) st' w'" using 1 unfolding x by simp
      then show ?thesis unfolding x Inr prod.case sum.case by (rule ih)
    qed
  qed
  show ?case
    unfolding forEachLiveRecord_loop.simps en option.case
  proof (rule wp_bindI, rule wp_ReadRecordAndExtensionsAt [OF inv(1) [OF Cons.prems(2)] rd(1)], goal_cases)
    case (1 fs)
    then show ?case unfolding rd(2) sum.case prod.case by (rule visit)
  next
    case (2 fs)
    then show ?case using bad [OF Cons.prems(2)] by (simp add: wp_return)
  next
    case (3 fs)
    then show ?case using bad [OF Cons.prems(2)] by simp
  qed
qed

lemma wp_forEachLiveRecord:
  assumes off: "offers l idx f db" "4 \<le> l_version l"
    and inv: "\<And>ks st w'. I ks st w' \<Longrightarrow> files w' (l_path l) = Some f" "\<And>ks st w' fs. I ks st w' \<Longrightarrow> still w' fs \<Longrightarrow> I ks st (w'\<lparr>faults := fs\<rparr>)"
    and step: "\<And>ks k en it st w'. I ks st w' \<Longrightarrow> index_Get idx k = Some en \<Longrightarrow> db k = Some it \<Longrightarrow> gives l f k en it \<Longrightarrow>
      go_map (ie_Attributes en) \<Longrightarrow> wp (fn k (it_value it) (it_ext it) (ie_Attributes en) st)
        (\<lambda>(r, st') w''. case r of Inr _ \<Rightarrow> I (ks @ [k]) st' w'' | Inl _ \<Rightarrow> E st' w'') C w'"
    and bad: "\<And>ks st w' fs. I ks st w' \<Longrightarrow> \<not> calm w' \<Longrightarrow> E st (w'\<lparr>faults := fs\<rparr>) \<and> C (w'\<lparr>faults := fs\<rparr>)"
    and "I [] st w"
  shows "wp (forEachLiveRecord l idx fn st)
    (\<lambda>(r, st') w'. case r of Inr _ \<Rightarrow> \<exists>ks. set ks = dom db \<and> I ks st' w' | Inl _ \<Rightarrow> E st' w') C w"
proof -
  obtain keys idx' where k: "KeysSortedByOffset idx = (keys, idx')" by fastforce
  have iv: "index_inv idx" using off(1) by (simp add: offers_def)
  have off': "offers l idx' f db" "index_Get idx' = index_Get idx" "set keys = dom db"
    using offers_sorted [OF off(1)] KeysSortedByOffset_spec(4) [OF iv] KeysSortedByOffset_keys(1) [OF iv] offers_dom [OF off(1)] k by simp_all
  have loop: "wp (forEachLiveRecord_loop l idx' fn keys st) (\<lambda>(r, st') w'. case r of Inr _ \<Rightarrow> I ([] @ keys) st' w' | Inl _ \<Rightarrow> E st' w') C w"
    by (rule wp_forEachLiveRecord_loop [OF off'(1) off(2), where I = I]) (use assms off'(2,3) in \<open>simp_all\<close>)
  show ?thesis
    unfolding forEachLiveRecord_def k Let_def prod.case
    by (rule wp_mono [OF loop]) (use off'(3) in \<open>auto split: sum.splits\<close>)
qed

section \<open>Writers\<close>

text \<open>What a writer of the file \<open>np\<close> may do besides, and when it may fail.\<close>

definition writes_only :: "path \<Rightarrow> world \<Rightarrow> world \<Rightarrow> bool" where
  "writes_only np w w' \<longleftrightarrow> only_changes {np} w w' \<and> (calm w \<longrightarrow> calm w')"

lemma writes_only_simps [simp]: "writes_only np w w"
  by (simp add: writes_only_def)

lemma writes_only_faults: "writes_only np w w' \<Longrightarrow> still w' fs \<Longrightarrow> writes_only np w (w'\<lparr>faults := fs\<rparr>)"
  by (auto simp: writes_only_def still_def)

lemma writes_only_set: "writes_only np w w' \<Longrightarrow> still w' fs \<Longrightarrow> writes_only np w (set_file np g (w'\<lparr>faults := fs\<rparr>))"
  by (auto simp: writes_only_def still_def only_changes_set)

lemma writes_only_other: "writes_only np w w' \<Longrightarrow> q \<noteq> np \<Longrightarrow> files w' q = files w q"
  by (simp add: writes_only_def only_changes_def)

lemma writes_only_noisy: "writes_only np w w' \<Longrightarrow> \<not> calm w' \<Longrightarrow> \<not> calm w"
  by (auto simp: writes_only_def)

definition write_failed :: "32 word \<Rightarrow> db \<Rightarrow> path \<Rightarrow> world \<Rightarrow> world \<Rightarrow> bool" where
  "write_failed version db np w w' \<longleftrightarrow> writes_only np w w' \<and> (\<not> calm w \<or> (\<exists>k it. db k = Some it \<and> \<not> expressible version it))"

definition write_crash :: "path \<Rightarrow> world \<Rightarrow> world \<Rightarrow> bool" where
  "write_crash np w w' \<longleftrightarrow> \<not> calm w \<and> only_changes {np} w w'"

text \<open>
  The interface of the two writers: what was written so far stays so, only the output
  file changes, and a visit adds one record, or fails because of a failed call or a
  record that the version cannot express. Then all live records are written.
\<close>

locale record_writer =
  fixes visit :: "string \<Rightarrow> bytes \<Rightarrow> bytes \<Rightarrow> attributes \<Rightarrow> 's \<Rightarrow> ((error + unit) \<times> 's) io"
    and out :: "index \<Rightarrow> db \<Rightarrow> path \<Rightarrow> world \<Rightarrow> string list \<Rightarrow> 's \<Rightarrow> world \<Rightarrow> bool"
    and version :: "32 word"
  assumes out_writes: "out idx db np w ks st w' \<Longrightarrow> writes_only np w w'"
    and out_faults: "out idx db np w ks st w' \<Longrightarrow> still w' fs \<Longrightarrow> out idx db np w ks st (w'\<lparr>faults := fs\<rparr>)"
    and visit_step: "out idx db np w ks st w' \<Longrightarrow> index_Get idx k = Some en \<Longrightarrow> db k = Some it \<Longrightarrow> gives l f k en it \<Longrightarrow> go_map (ie_Attributes en) \<Longrightarrow>
      wp (visit k (it_value it) (it_ext it) (ie_Attributes en) st)
        (\<lambda>(r, st') w''. case r of Inr _ \<Rightarrow> out idx db np w (ks @ [k]) st' w'' | Inl _ \<Rightarrow> write_failed version db np w w'') (write_crash np w) w'"
begin

lemma visits_all:
  assumes w: "files w (l_path l) = Some f" "offers l idx f db" "4 \<le> l_version l" "l_path l \<noteq> np" and st: "out idx db np w [] st w1"
  shows "wp (forEachLiveRecord l idx visit st)
    (\<lambda>(r, st') w'. case r of Inr _ \<Rightarrow> \<exists>ks. set ks = dom db \<and> out idx db np w ks st' w' | Inl _ \<Rightarrow> write_failed version db np w w') (write_crash np w) w1"
proof (rule wp_forEachLiveRecord [OF w(2,3), where I = "out idx db np w"], goal_cases)
  case (1 ks st w')
  then show ?case using w(1,4) writes_only_other [OF out_writes] by metis
next
  case (2 ks st w' fs)
  then show ?case by (rule out_faults)
next
  case (3 ks k en it st w')
  then show ?case by (rule visit_step)
next
  case (4 ks st w' fs)
  note wo = out_writes [OF 4(1)]
  show ?case using 4(2) wo writes_only_faults [OF wo] writes_only_noisy [OF wo] by (simp add: write_failed_def write_crash_def writes_only_def)
qed (rule st)

end

section \<open>Writing a log of version 4\<close>

definition v4_out :: "index \<Rightarrow> db \<Rightarrow> path \<Rightarrow> world \<Rightarrow> string list \<Rightarrow> appendLog \<Rightarrow> world \<Rightarrow> bool" where
  "v4_out idx db np w ks out w' \<longleftrightarrow> writes_only np w w' \<and> (\<forall>k \<in> set ks. \<exists>it. db k = Some it \<and> it_ext it = []) \<and>
     l_path out = np \<and> header_bytes out = new_header \<and> unknownReadOnly out = 0 \<and> l_readOnlyFeatures out = 0 \<and>
     (\<exists>g. files w' np = Some g \<and> log_holds out (copies idx db ks) [] g)"

lemma wp_v4_visit:
  assumes out: "v4_out idx db np w ks out w'" and k: "index_Get idx k = Some en" "db k = Some it" "gives l f k en it" "go_map (ie_Attributes en)"
  shows "wp (v4_visit k (it_value it) (it_ext it) (ie_Attributes en) out)
    (\<lambda>(r, out') w''. case r of Inr _ \<Rightarrow> v4_out idx db np w (ks @ [k]) out' w'' | Inl _ \<Rightarrow> write_failed 4 db np w w'') (write_crash np w) w'"
proof (cases "it_ext it = []")
  case False
  then show ?thesis
    using out k(2) by (auto simp: v4_visit_def wp_return write_failed_def v4_out_def expressible_def)
next
  case True
  obtain g where g: "files w' np = Some g" "log_holds out (copies idx db ks) [] g" using out by (auto simp: v4_out_def)
  have o: "writes_only np w w'" "l_path out = np" "header_bytes out = new_header" "unknownReadOnly out = 0" "l_readOnlyFeatures out = 0"
    "\<forall>k \<in> set ks. \<exists>it. db k = Some it \<and> it_ext it = []"
    using out by (simp_all add: v4_out_def)
  define e where "e = mk_ent k (it_value it) False (ie_Attributes en) []"
  have ap: "appendable k (it_value it) (ie_Attributes en) []" using k(3) True by (simp add: gives_def)
  have cp: "copies idx db (ks @ [k]) = copies idx db ks @ [e]" by (simp add: copies_def k(1,2) e_def True)
  have "wp (Append out k (it_value it) False (ie_Attributes en) [])
      (\<lambda>x. wp (case x of (r, out) \<Rightarrow> return (case r of Inl err \<Rightarrow> Inl err | Inr _ \<Rightarrow> Inr (), out))
        (\<lambda>(r, out') w''. case r of Inr _ \<Rightarrow> v4_out idx db np w (ks @ [k]) out' w'' | Inl _ \<Rightarrow> write_failed 4 db np w w'') (write_crash np w))
      (write_crash np w) w'"
  proof (rule wp_Append_live [OF g(2) _ o(4) ap k(4) e_def], goal_cases)
    case (2 fs l' g')
    then have "l_path l' = np" "unknownReadOnly l' = 0" "header_bytes l' = new_header" "l_readOnlyFeatures l' = 0"
      using same_log_simps [OF 2(2)] o by (simp_all add: unknownReadOnly_def)
    then show ?case using 2(1,3) o True k(2) writes_only_set [OF o(1)] by (auto simp: wp_return v4_out_def cp)
  next
    case (3 fs l' g')
    then show ?case using o writes_only_noisy [OF o(1)] writes_only_set [OF o(1)] by (auto simp: wp_return write_failed_def)
  next
    case (4 fs g')
    then show ?case using o writes_only_noisy [OF o(1)] by (auto simp: write_crash_def writes_only_def only_changes_set)
  qed (use g o in simp)
  then show ?thesis by (simp add: v4_visit_def True wp_bind)
qed

interpretation v4: record_writer v4_visit v4_out 4
proof
  fix idx db np w ks st w' fs
  show "v4_out idx db np w ks st w' \<Longrightarrow> writes_only np w w'" by (simp add: v4_out_def)
  show "v4_out idx db np w ks st w' \<Longrightarrow> still w' fs \<Longrightarrow> v4_out idx db np w ks st (w'\<lparr>faults := fs\<rparr>)"
    using writes_only_faults by (auto simp: v4_out_def)
qed (rule wp_v4_visit)

text \<open>The file is complete: durable, and a log of the database as the version expresses it.\<close>

definition complete_log :: "32 word \<Rightarrow> db \<Rightarrow> os_file \<Rightarrow> bool" where
  "complete_log version db g \<longleftrightarrow> durable g = content g \<and> log_of g (downgraded version db) \<and> (\<forall>k it. db k = Some it \<longrightarrow> expressible version it)"

definition written :: "32 word \<Rightarrow> db \<Rightarrow> path \<Rightarrow> world \<Rightarrow> world \<Rightarrow> bool" where
  "written version db np w w' \<longleftrightarrow> writes_only np w w' \<and> (\<exists>g. files w' np = Some g \<and> complete_log version db g)"

lemma v4_complete:
  assumes off: "offers l idx f db" and out: "v4_out idx db np w ks out w'" "set ks = dom db"
    and g: "content g = header_bytes (out\<lparr>l_version := 4\<rparr>) @ log_body (copies idx db ks)" "durable g = content g"
  shows "complete_log 4 db g"
proof -
  let ?l = "out\<lparr>l_version := 4\<rparr>"
  have o: "l_incompatibleFeatures out = 0" "\<forall>e \<in> set (copies idx db ks). ent_ok e" "l_readOnlyFeatures out = 0"
    using out(1) by (auto simp: v4_out_def log_holds_def)
  have "log_file (header_bytes ?l) (copies idx db ks) [] g" using log_file_whole [of g "header_bytes ?l"] g(1) o(2) by simp
  then have "current_log ?l (copies idx db ks) [] g" using o(1,3) by (simp add: current_log_def)
  moreover have "items_of (copies idx db ks) = db" using items_of_copies [OF off, of ks] out(2) by (simp add: restrict_map_def fun_eq_iff domIff)
  ultimately have "log_of g db" unfolding log_of_def by blast
  moreover have "it_ext it = []" if "db k = Some it" for k it
  proof -
    have "k \<in> set ks" using that out(2) by blast
    then show ?thesis using out(1) that by (auto simp: v4_out_def)
  qed
  ultimately show ?thesis using g(2) by (simp add: complete_log_def downgraded_def expressible_def)
qed

lemma wp_setVersion_4:
  assumes off: "offers l idx f db" and out: "v4_out idx db np w ks out w'" "set ks = dom db"
  shows "wp (setVersion out 4) (\<lambda>(r, out') w''. case r of Inr _ \<Rightarrow> \<not> l_closed out' \<and> written 4 db np w w'' | Inl _ \<Rightarrow> write_failed 4 db np w w'') (write_crash np w) w'"
proof -
  let ?l = "out\<lparr>l_version := 4\<rparr>"
  obtain g where g: "files w' np = Some g" "log_holds out (copies idx db ks) [] g" using out by (auto simp: v4_out_def)
  have o: "writes_only np w w'" "l_path out = np" "\<not> l_closed ?l" "content g = header_bytes out @ log_body (copies idx db ks)"
    using out(1) g(2) by (simp_all add: v4_out_def log_holds_def)
  have wr: "write_at (content g) 0 (header_bytes ?l) = header_bytes ?l @ log_body (copies idx db ks)" by (simp add: o(4) write_at_def)
  note noisy = writes_only_noisy [OF o(1)] and set = writes_only_set [OF o(1)] and still = writes_only_faults [OF o(1)]
  have crash: "write_crash np w (set_file np h (w'\<lparr>faults := fs\<rparr>))" "write_crash np w (w'\<lparr>faults := fs\<rparr>)" if "\<not> calm w'" for h fs
    using that noisy o(1) by (auto simp: write_crash_def writes_only_def only_changes_set)
  have failed: "write_failed 4 db np w (set_file np h (w'\<lparr>faults := fs\<rparr>))" "write_failed 4 db np w (w'\<lparr>faults := fs\<rparr>)" if "\<not> calm w'" for h fs
    using that noisy set still by (auto simp: write_failed_def)
  have twice: "set_file np a (set_file np b v) = set_file np a v" "(set_file np b v)\<lparr>faults := fs\<rparr> = set_file np b (v\<lparr>faults := fs\<rparr>)" for a b v fs
    by (simp_all add: set_file_def)
  have sync: "wp (bind_io (file_Sync np) (\<lambda>r. return (r, ?l)))
      (\<lambda>(r, out') w''. case r of Inr _ \<Rightarrow> \<not> l_closed out' \<and> written 4 db np w w'' | Inl _ \<Rightarrow> write_failed 4 db np w w'') (write_crash np w)
      (set_file np (Some (g\<lparr>content := header_bytes ?l @ log_body (copies idx db ks)\<rparr>)) (w'\<lparr>faults := fs\<rparr>))" if fs: "still w' fs" for fs
  proof (rule wp_bindI, rule wp_Sync, goal_cases)
    case (1 fs' h)
    then have "complete_log 4 db (h\<lparr>durable := content h\<rparr>)" by (intro v4_complete [OF off out]) auto
    then show ?case using 1 fs set o(3) by (auto simp: wp_return written_def twice)
  next
    case (3 fs')
    then have "\<not> calm w'" using fs by auto
    then show ?case using failed by (simp add: wp_return twice)
  next
    case (4 fs')
    then have "\<not> calm w'" using fs by auto
    then show ?case using crash by (simp add: twice)
  qed simp
  show ?thesis
    unfolding setVersion_def writeHeader_def file_sync_def Let_def on_handle_open [OF o(3)] wp_bind
    by (rule wp_WriteAt) (use g(1) o(2) wr sync failed crash in \<open>simp_all add: wp_bind wp_return\<close>)
qed

lemma write_ends:
  "written v db np w w' \<Longrightarrow> still w' fs \<Longrightarrow> written v db np w (w'\<lparr>faults := fs\<rparr>)"
  "write_failed v db np w w' \<Longrightarrow> still w' fs \<Longrightarrow> write_failed v db np w (w'\<lparr>faults := fs\<rparr>)"
  "written v db np w w' \<Longrightarrow> \<not> calm w' \<Longrightarrow> write_failed v db np w (w'\<lparr>faults := fs\<rparr>)"
  "written v db np w w' \<or> write_failed v db np w w' \<Longrightarrow> \<not> calm w' \<Longrightarrow> write_crash np w (w'\<lparr>faults := fs\<rparr>)"
  using writes_only_faults [of np w w' fs] writes_only_noisy [of np w w']
  by (auto simp: written_def write_failed_def write_crash_def) (auto simp: writes_only_def)

lemma wp_writeV4Log:
  assumes w: "files w (l_path l) = Some f" "offers l idx f db" "4 \<le> l_version l" "l_path l \<noteq> np"
  shows "wp (writeV4Log l idx np) (\<lambda>r w'. case r of Inr _ \<Rightarrow> written 4 db np w w' | Inl _ \<Rightarrow> write_failed 4 db np w w') (write_crash np w) w"
    (is "wp _ ?Q ?C w")
proof -
  have close: "wp (bind_io (log_Close out) (\<lambda>(r, _). return r)) ?Q ?C w'" if "written 4 db np w w'" "\<not> l_closed out" for out w'
    by (rule wp_bindI, rule wp_log_Close [OF that(2)]) (use write_ends [where v = 4 and db = db and np = np and w = w and w' = w'] that(1) in \<open>auto simp: wp_return\<close>)
  have fail: "wp (bind_io (log_Close out) (\<lambda>_. return (Inl e))) ?Q ?C w'" if "write_failed 4 db np w w'" for out w' e
    by (rule wp_bindI, rule wp_log_Close_any) (use write_ends [where v = 4 and db = db and np = np and w = w and w' = w'] that in \<open>auto simp: wp_return\<close>)
  let ?last = "\<lambda>(err, out). case err of Inl e \<Rightarrow> bind_io (log_Close out) (\<lambda>_. return (Inl e)) | Inr _ \<Rightarrow> bind_io (log_Close out) (\<lambda>(r, _). return r)"
  have seal: "wp (bind_io (case err of Inr _ \<Rightarrow> setVersion out 4 | Inl e \<Rightarrow> return (Inl e, out)) ?last) ?Q ?C w'"
    if x: "case err of Inr (_ :: unit) \<Rightarrow> \<exists>ks. set ks = dom db \<and> v4_out idx db np w ks out w' | Inl _ \<Rightarrow> write_failed 4 db np w w'" for err out w'
  proof (cases err)
    case (Inl e)
    then show ?thesis using x fail by (simp add: wp_bind wp_return)
  next
    case (Inr u)
    then obtain ks where ks: "v4_out idx db np w ks out w'" "set ks = dom db" using x by auto
    show ?thesis
      unfolding Inr sum.case
    proof (rule wp_bindI, rule wp_mono [OF wp_setVersion_4 [OF w(2) ks]], goal_cases)
      case (1 y w'')
      then show ?case using close fail by (cases y; cases "fst y") simp_all
    qed
  qed
  have start: "wp (bind_io (forEachLiveRecord l idx v4_visit out) (\<lambda>(err, out).
      bind_io (case err of Inr _ \<Rightarrow> setVersion out 4 | Inl e \<Rightarrow> return (Inl e, out)) ?last)) ?Q ?C w1" if "v4_out idx db np w [] out w1" for out w1
    by (rule wp_bindI, rule wp_mono [OF v4.visits_all [OF w that]]) (use seal in auto)
  show ?thesis
    unfolding writeV4Log_def wp_try
  proof (rule wp_createAppendLogMode, goal_cases)
    case (1 fs g out)
    have "log_holds out [] [] g"
      using 1(2) same_log_simps [OF 1(3)] by (simp add: log_holds_def log_end_def new_header_def) (simp add: new_log_def header_bytes_def)
    then have "v4_out idx db np w [] out (set_file np (Some g) (w\<lparr>faults := fs\<rparr>))"
      using 1(1) same_log_simps [OF 1(3)] writes_only_set [of np w w fs]
      by (auto simp: v4_out_def copies_def new_header_def) (simp_all add: new_log_def header_bytes_def unknownReadOnly_def)
    then show ?case using start by simp
  qed (auto simp: write_failed_def write_crash_def writes_only_def only_changes_set)
qed

section \<open>Writing a log of version 3\<close>

text \<open>
  The bytes handed to a buffered writer are those in the file and those in the
  buffer, until a write fails; the error is then kept.
\<close>

definition buffered :: "path \<Rightarrow> world \<Rightarrow> bytes \<Rightarrow> fileWriter \<Rightarrow> world \<Rightarrow> bool" where
  "buffered np w bs fw w' \<longleftrightarrow> writes_only np w w' \<and> fw_path fw = np \<and> (\<exists>g. files w' np = Some g \<and>
     (if fw_err fw = None then content g @ fw_buf fw = bs \<and> fw_pos fw = length (content g) else \<not> calm w))"

lemma buffered_ends:
  assumes "buffered np w bs fw w'"
  shows "still w' fs \<Longrightarrow> buffered np w bs fw (w'\<lparr>faults := fs\<rparr>)" "\<not> calm w' \<Longrightarrow> write_crash np w (w'\<lparr>faults := fs\<rparr>)"
    "\<not> calm w' \<Longrightarrow> write_failed v db np w (w'\<lparr>faults := fs\<rparr>)"
proof -
  have w: "writes_only np w w'" using assms by (simp add: buffered_def)
  show "still w' fs \<Longrightarrow> buffered np w bs fw (w'\<lparr>faults := fs\<rparr>)" using assms writes_only_faults [OF w] by (simp add: buffered_def)
  show "\<not> calm w' \<Longrightarrow> write_crash np w (w'\<lparr>faults := fs\<rparr>)" "\<not> calm w' \<Longrightarrow> write_failed v db np w (w'\<lparr>faults := fs\<rparr>)"
    using w writes_only_faults [OF w] writes_only_noisy [OF w] by (simp_all add: write_crash_def write_failed_def writes_only_def)
qed

lemma wp_bufio_direct:
  assumes g: "files w np = Some g" "fw_path fw = np" "fw_pos fw = length (content g)"
    and good: "\<And>fs g'. still w fs \<Longrightarrow> content g' = content g @ b \<Longrightarrow> Q (fw\<lparr>fw_pos := length (content g')\<rparr>) (set_file np (Some g') (w\<lparr>faults := fs\<rparr>))"
    and bad: "\<And>fs g' e. \<not> calm w \<Longrightarrow> Q (fw\<lparr>fw_err := Some e\<rparr>) (set_file np (Some g') (w\<lparr>faults := fs\<rparr>))"
    and crash: "\<And>fs g'. \<not> calm w \<Longrightarrow> C (set_file np (Some g') (w\<lparr>faults := fs\<rparr>))"
  shows "wp (bufio_direct fw b) Q C w"
proof -
  have same: "w\<lparr>faults := fs\<rparr> = set_file np (Some g) (w\<lparr>faults := fs\<rparr>)" for fs using g(1) by (simp add: set_file_same)
  have wr: "write_at (content g) (length (content g)) b = content g @ b" by (simp add: write_at_def)
  show ?thesis
    unfolding bufio_direct_def wp_bind wp_return g(2)
  proof (rule wp_WriteAt, goal_cases)
    case (1 fs f)
    then show ?case using good [of fs "g\<lparr>content := content g @ b\<rparr>"] g wr by simp
  next
    case (3 fs)
    then show ?case using bad [of IOError g fs] by (simp flip: same)
  next
    case (4 fs)
    then show ?case using crash [of g fs] by (simp flip: same)
  qed (use g bad crash in simp_all)
qed

lemma buffered_direct:
  assumes b: "buffered np w a fw w'" "fw_err fw = None" and fw: "a = c @ fw_buf fw"
  shows "wp (bufio_direct fw b) (\<lambda>fw' w''. fw_size fw' = fw_size fw \<and> fw_buf fw' = fw_buf fw \<and> (case fw_err fw' of
      None \<Rightarrow> buffered np w (c @ b) (fw'\<lparr>fw_buf := []\<rparr>) w'' | Some _ \<Rightarrow> \<forall>bs. buffered np w bs fw' w'')) (write_crash np w) w'"
proof -
  have wo: "writes_only np w w'" "fw_path fw = np" using b by (auto simp: buffered_def)
  obtain g where g: "files w' np = Some g" "content g = c" "fw_pos fw = length (content g)" using b fw by (auto simp: buffered_def)
  have set: "writes_only np w (set_file np h (w'\<lparr>faults := fs\<rparr>))" if "still w' fs" for h fs using writes_only_set [OF wo(1) that] .
  have crash: "write_crash np w (set_file np h (w'\<lparr>faults := fs\<rparr>))" if "\<not> calm w'" for h fs
    using that set [of fs h] writes_only_noisy [OF wo(1)] by (simp add: write_crash_def writes_only_def)
  show ?thesis
    by (rule wp_bufio_direct [OF g(1) wo(2) g(3)])
      (use b(2) g(2) wo set crash writes_only_noisy [OF wo(1)] in \<open>simp_all add: buffered_def\<close>)
qed

lemma wp_bufio_Flush:
  assumes b: "buffered np w bs fw w'"
  shows "wp (bufio_Flush fw) (\<lambda>(r, fw') w''. fw_size fw' = fw_size fw \<and> (case r of
      Inr _ \<Rightarrow> fw_err fw' = None \<and> fw_buf fw' = [] \<and> buffered np w bs fw' w''
    | Inl _ \<Rightarrow> fw_err fw' \<noteq> None \<and> (\<forall>bs. buffered np w bs fw' w''))) (write_crash np w) w'"
proof (cases "fw_err fw = None \<and> fw_buf fw \<noteq> []")
  case False
  then show ?thesis using b by (auto simp: bufio_Flush_def wp_return buffered_def split: option.split)
next
  case True
  obtain c where c: "bs = c @ fw_buf fw" using b True by (auto simp: buffered_def)
  have d: "bufio_Flush fw = bind_io (bufio_direct fw (fw_buf fw)) (\<lambda>fw. return (case fw_err fw of
           Some err \<Rightarrow> (Inl err, fw) | None \<Rightarrow> (Inr (), fw\<lparr>fw_buf := []\<rparr>)))"
    using True by (simp add: bufio_Flush_def)
  show ?thesis
    unfolding d
    by (rule wp_bindI, rule wp_mono [OF buffered_direct [OF b _ c]]) (use True c in \<open>auto simp: wp_return split: option.splits\<close>)
qed

lemma wp_bufio_Write:
  assumes b: "buffered np w bs fw w'"
  shows "wp (bufio_Write fw b) (\<lambda>fw' w''. buffered np w (bs @ b) fw' w'') (write_crash np w) w'"
proof -
  let ?n = "fw_size fw - length (fw_buf fw)"
  have direct: "wp (bufio_direct fw1 b1) (\<lambda>fw' w''. buffered np w (c @ b1) fw' w'') (write_crash np w) w1"
    if "buffered np w c fw1 w1" "fw_err fw1 = None" "fw_buf fw1 = []" for fw1 b1 c w1
    by (rule wp_mono [OF buffered_direct [OF that(1,2), of c]]) (use that(3) in \<open>auto simp: buffered_def split: option.splits\<close>)
  consider "fw_err fw \<noteq> None" | "fw_err fw = None" "length b \<le> ?n" | "fw_err fw = None" "\<not> length b \<le> ?n" "fw_buf fw = []"
    | "fw_err fw = None" "\<not> length b \<le> ?n" "fw_buf fw \<noteq> []" by blast
  then show ?thesis
  proof cases
    case 4
    then have "buffered np w (bs @ take ?n b) (fw\<lparr>fw_buf := fw_buf fw @ take ?n b\<rparr>) w'" using b by (auto simp: buffered_def)
    note flush = wp_bufio_Flush [OF this]
    have "wp (bind_io (bufio_Flush (fw\<lparr>fw_buf := fw_buf fw @ take ?n b\<rparr>)) (\<lambda>(_, fw).
        if fw_err fw \<noteq> None then return fw
        else if length (drop ?n b) \<le> fw_size fw then return (fw\<lparr>fw_buf := drop ?n b\<rparr>)
        else bufio_direct fw (drop ?n b))) (\<lambda>fw' w''. buffered np w (bs @ b) fw' w'') (write_crash np w) w'"
    proof (rule wp_bindI, rule wp_mono [OF flush], goal_cases)
      case (1 x w'')
      obtain r fw1 where x: "x = (r, fw1)" by (cases x)
      show ?case
      proof (cases r)
        case (Inl e)
        then show ?thesis using 1 by (simp add: x wp_return)
      next
        case (Inr u)
        then have f: "buffered np w (bs @ take ?n b) fw1 w''" "fw_err fw1 = None" "fw_buf fw1 = []" using 1 by (simp_all add: x)
        then have "buffered np w (bs @ b) (fw1\<lparr>fw_buf := drop ?n b\<rparr>) w''" by (auto simp: buffered_def)
        then show ?thesis using direct [OF f, of "drop ?n b"] f(2) by (simp add: x wp_return)
      qed
    qed simp
    then show ?thesis using 4 by (simp add: bufio_Write_def Let_def)
  qed (use b direct [OF b] in \<open>auto simp: bufio_Write_def wp_return buffered_def\<close>)
qed

definition v3_out :: "db \<Rightarrow> path \<Rightarrow> world \<Rightarrow> string list \<Rightarrow> fileWriter \<Rightarrow> world \<Rightarrow> bool" where
  "v3_out db np w ks fw w' \<longleftrightarrow> v3_fits db ks \<and> buffered np w (v3_header @ concat (map (v3_chunk db) ks)) fw w'"

lemma wp_v3_visit:
  assumes out: "v3_out db np w ks fw w'" and k: "db k = Some it" "gives l f k en it"
  shows "wp (v3_visit k (it_value it) (it_ext it) (ie_Attributes en) fw)
    (\<lambda>(r, fw') w''. case r of Inr _ \<Rightarrow> v3_out db np w (ks @ [k]) fw' w'' | Inl _ \<Rightarrow> write_failed 3 db np w w'') (write_crash np w) w'"
proof -
  have b: "buffered np w (v3_header @ concat (map (v3_chunk db) ks)) fw w'" using out by (simp add: v3_out_def)
  have a: "map_of (ie_Attributes en) = it_attrs it" "length k \<le> maxKeySize" "length (it_value it) \<le> maxValueSize"
    using k(2) by (simp_all add: gives_def appendable_def)
  have it: "\<lparr>it_value = it_value it, it_attrs = it_attrs it, it_ext = it_ext it\<rparr> = it" by simp
  show ?thesis
  proof (cases "encodeV3Record k (it_value it) (it_ext it) (ie_Attributes en)")
    case (Inl err)
    then have "\<not> v3_expressible it"
      using encodeV3Record_Inr_iff [of k "it_value it" "it_ext it" "ie_Attributes en" "v3_bytes k (it_value it) (it_attrs it)"] a(1) it by simp
    then show ?thesis using Inl b k(1) by (auto simp: v3_visit_def wp_return write_failed_def expressible_def buffered_def)
  next
    case (Inr rec)
    then have x: "v3_expressible it" "rec = v3_chunk db k" using encodeV3Record_Inr_iff a(1) it k(1) by (simp_all add: v3_chunk_def)
    have fits: "v3_fits db (ks @ [k])" using out x(1) k(1) a(2,3) by (auto simp: v3_out_def v3_fits_def)
    show ?thesis
      unfolding v3_visit_def Inr sum.case
      by (rule wp_bindI, rule wp_mono [OF wp_bufio_Write [OF b]]) (use fits in \<open>simp_all add: wp_return v3_out_def x(2)\<close>)
  qed
qed

interpretation v3: record_writer v3_visit "\<lambda>idx. v3_out" 3
proof
  fix db np w ks st w' fs
  show "v3_out db np w ks st w' \<Longrightarrow> writes_only np w w'" by (simp add: v3_out_def buffered_def)
  show "v3_out db np w ks st w' \<Longrightarrow> still w' fs \<Longrightarrow> v3_out db np w ks st (w'\<lparr>faults := fs\<rparr>)"
    using buffered_ends(1) by (simp add: v3_out_def)
qed (rule wp_v3_visit)

lemma v3_written:
  assumes out: "v3_out db np w ks fw w'" "set ks = dom db" "fw_err fw = None" "fw_buf fw = []"
    and "files w' np = Some g" "content h = content g" "durable h = content g"
  shows "complete_log 3 db h"
proof -
  have "content h = v3_header @ concat (map (v3_chunk db) ks)" "v3_fits db ks" using assms by (auto simp: v3_out_def buffered_def)
  moreover from this have "v3_expressible it" if "db k = Some it" for k it
    using that out(2) by (auto simp: v3_fits_def) (metis domI option.inject)
  ultimately show ?thesis using v3_log_of [OF _ out(2)] assms(6,7) by (auto simp: complete_log_def expressible_def)
qed

lemma buffered_failed: "buffered np w bs fw w' \<Longrightarrow> fw_err fw \<noteq> None \<Longrightarrow> write_failed v db np w w'"
  by (auto simp: buffered_def write_failed_def)

lemma wp_close_failed:
  assumes "write_failed v db np w w'"
  shows "wp (ignore_io file_Close (return (Inl e))) (\<lambda>r w'. case r of Inr _ \<Rightarrow> written v db np w w' | Inl _ \<Rightarrow> write_failed v db np w w') (write_crash np w) w'"
  unfolding wp_ignore wp_return by (rule wp_Close) (use assms write_ends [where v = v and db = db and np = np and w = w and w' = w'] in auto)

text \<open>The end of \<^verbatim>\<open>writeV3Log\<close>, when everything is in the file.\<close>

lemma wp_v3_sync:
  assumes out: "v3_out db np w ks fw w'" "set ks = dom db" "fw_err fw = None" "fw_buf fw = []"
  shows "wp (bind_io (file_Sync np) (\<lambda>err. case err of Inl e \<Rightarrow> ignore_io file_Close (return (Inl e)) | Inr (_ :: unit) \<Rightarrow> file_Close))
    (\<lambda>r w'. case r of Inr _ \<Rightarrow> written 3 db np w w' | Inl _ \<Rightarrow> write_failed 3 db np w w') (write_crash np w) w'" (is "wp _ ?Q ?C w'")
proof -
  have b: "buffered np w (v3_header @ concat (map (v3_chunk db) ks)) fw w'" using out(1) by (simp add: v3_out_def)
  then obtain g where g: "files w' np = Some g" and wo: "writes_only np w w'" by (auto simp: buffered_def)
  have close: "wp file_Close ?Q ?C w1" if "written 3 db np w w1" for w1
    by (rule wp_Close) (use that write_ends [where v = 3 and db = db and np = np and w = w and w' = w1] in auto)
  show ?thesis
  proof (rule wp_bindI, rule wp_Sync, goal_cases)
    case (1 fs h)
    then have "written 3 db np w (set_file np (Some (h\<lparr>durable := content h\<rparr>)) (w'\<lparr>faults := fs\<rparr>))"
      using v3_written [OF out g, of "h\<lparr>durable := content h\<rparr>"] g writes_only_set [OF wo] by (simp add: written_def)
    then show ?case using close by simp
  qed (use g buffered_ends [OF b] in \<open>auto intro: wp_close_failed\<close>)
qed

lemma wp_writeV3Log:
  assumes w: "files w (l_path l) = Some f" "offers l idx f db" "4 \<le> l_version l" "l_path l \<noteq> np"
  shows "wp (writeV3Log l idx np) (\<lambda>r w'. case r of Inr _ \<Rightarrow> written 3 db np w w' | Inl _ \<Rightarrow> write_failed 3 db np w w') (write_crash np w) w"
    (is "wp _ ?Q ?C w")
proof -
  let ?close = "\<lambda>err. case err of Inl e \<Rightarrow> ignore_io file_Close (return (Inl e)) | Inr (_ :: unit) \<Rightarrow> file_Close"
  let ?sync = "\<lambda>(err, _ :: fileWriter). bind_io (case err of Inr (_ :: unit) \<Rightarrow> file_Sync np | Inl e \<Rightarrow> return (Inl e)) ?close"
  let ?flush = "\<lambda>(err, writer). bind_io (case err of Inr (_ :: unit) \<Rightarrow> bufio_Flush writer | Inl e \<Rightarrow> return (Inl e, writer)) ?sync"
  note fail = wp_close_failed [where v = 3 and db = db and np = np and w = w]
  have flush: "wp (?flush (err, fw)) ?Q ?C w'"
    if x: "case err of Inr (_ :: unit) \<Rightarrow> \<exists>ks. set ks = dom db \<and> v3_out db np w ks fw w' | Inl _ \<Rightarrow> write_failed 3 db np w w'" for err fw w'
  proof (cases err)
    case (Inl e)
    then show ?thesis using x fail by (simp add: wp_bind wp_return)
  next
    case (Inr u)
    then obtain ks where ks: "set ks = dom db" "v3_fits db ks" and b: "buffered np w (v3_header @ concat (map (v3_chunk db) ks)) fw w'"
      using x by (auto simp: v3_out_def)
    show ?thesis
      unfolding Inr sum.case prod.case
    proof (rule wp_bindI, rule wp_mono [OF wp_bufio_Flush [OF b]], goal_cases)
      case (1 y w'')
      obtain r fw1 where y: "y = (r, fw1)" by (cases y)
      show ?case
      proof (cases r)
        case (Inl e)
        then have "write_failed 3 db np w w''" using 1 buffered_failed [of np w "[]" fw1 w''] by (simp add: y)
        then show ?thesis using fail by (simp add: y Inl wp_bind wp_return)
      next
        case (Inr u)
        then show ?thesis using 1 wp_v3_sync [of db np w ks fw1 w''] ks by (simp add: y v3_out_def)
      qed
    qed simp
  qed
  have start: "wp (bind_io (forEachLiveRecord l idx v3_visit fw) ?flush) ?Q ?C w1" if "v3_out db np w [] fw w1" for fw w1
    by (rule wp_bindI, rule wp_mono [OF v3.visits_all [OF w that]]) (use flush in auto)
  have init: "wp (bind_io (bufio_Write (bufio_NewWriterSize np 1048576) v3_header) (\<lambda>fw. bind_io (forEachLiveRecord l idx v3_visit fw) ?flush)) ?Q ?C
      (set_file np (Some g) (w\<lparr>faults := fs\<rparr>))" if "content g = []" "still w fs" for g fs
  proof -
    have b: "buffered np w [] (bufio_NewWriterSize np 1048576) (set_file np (Some g) (w\<lparr>faults := fs\<rparr>))"
      using that writes_only_set [of np w w fs] by (simp add: buffered_def bufio_NewWriterSize_def)
    show ?thesis
      by (rule wp_bindI, rule wp_mono [OF wp_bufio_Write [OF b]]) (auto simp: v3_out_def v3_fits_def intro!: start)
  qed
  show ?thesis
    unfolding writeV3Log_def wp_try
    by (rule wp_OpenFile) (use init in \<open>simp_all add: write_failed_def write_crash_def writes_only_def\<close>)
qed

section \<open>Downgrade\<close>

text \<open>The destination is untouched or complete.\<close>

definition dst_ok :: "32 word \<Rightarrow> db \<Rightarrow> path \<Rightarrow> world \<Rightarrow> world \<Rightarrow> bool" where
  "dst_ok version db dst w w' \<longleftrightarrow> files w' dst = files w dst \<or> (\<exists>g. files w' dst = Some g \<and> complete_log version db g)"

definition dst_paths :: "path \<Rightarrow> path set" where
  "dst_paths dst = {dst, dst @ downgradeTempSuffix}"

definition inexpressible :: "32 word \<Rightarrow> db \<Rightarrow> bool" where
  "inexpressible version db \<longleftrightarrow> (\<exists>k it. db k = Some it \<and> \<not> expressible version it)"

definition dst_post :: "32 word \<Rightarrow> db \<Rightarrow> path \<Rightarrow> world \<Rightarrow> error + unit \<Rightarrow> world \<Rightarrow> bool" where
  "dst_post version db dst w r w' \<longleftrightarrow> only_changes (dst_paths dst) w w' \<and>
     (calm w \<longrightarrow> calm w' \<and> files w' (dst @ downgradeTempSuffix) = None) \<and> (case r of
       Inr _ \<Rightarrow> \<exists>g. files w' dst = Some g \<and> complete_log version db g
     | Inl _ \<Rightarrow> dst_ok version db dst w w' \<and> (calm w \<longrightarrow> inexpressible version db \<and> files w' dst = files w dst))"

definition dst_crash :: "32 word \<Rightarrow> db \<Rightarrow> path \<Rightarrow> world \<Rightarrow> world \<Rightarrow> bool" where
  "dst_crash version db dst w w' \<longleftrightarrow> \<not> calm w \<and> only_changes (dst_paths dst) w w' \<and> dst_ok version db dst w w'"

lemma tmp_not_dst [simp]: "downgradeTempSuffix \<noteq> []" "dst \<noteq> dst @ downgradeTempSuffix"
  by (simp_all add: downgradeTempSuffix_def)

text \<open>Before the rename only the temporary file has changed.\<close>

definition dst_quiet :: "path \<Rightarrow> world \<Rightarrow> world \<Rightarrow> bool" where
  "dst_quiet dst w w' \<longleftrightarrow> only_changes {dst @ downgradeTempSuffix} w w' \<and> (calm w \<longrightarrow> calm w')"

lemma dst_quiet_dst:
  assumes "dst_quiet dst w w'"
  shows "only_changes (dst_paths dst) w w'" "files w' dst = files w dst"
  using assms tmp_not_dst(2) [of dst] by (simp_all add: dst_quiet_def dst_paths_def only_changes_def)

lemma dst_quiet_crash: "dst_quiet dst w w' \<Longrightarrow> \<not> calm w' \<Longrightarrow> dst_crash v db dst w (w'\<lparr>faults := fs\<rparr>)"
  using dst_quiet_dst [of dst w w'] by (auto simp: dst_crash_def dst_ok_def dst_quiet_def)

lemma dst_quiet_faults: "dst_quiet dst w w' \<Longrightarrow> still w' fs \<Longrightarrow> dst_quiet dst w (w'\<lparr>faults := fs\<rparr>)"
  by (auto simp: dst_quiet_def still_def)

lemma dst_quiet_remove: "dst_quiet dst w w' \<Longrightarrow> dst_quiet dst w (set_file (dst @ downgradeTempSuffix) g w')"
  by (auto simp: dst_quiet_def only_changes_set)

lemma dst_quiet_failed:
  assumes "dst_quiet dst w w'" "\<not> calm w \<or> inexpressible v db" "calm w \<Longrightarrow> files w' (dst @ downgradeTempSuffix) = None"
  shows "dst_post v db dst w (Inl e) w'"
  using assms dst_quiet_dst [OF assms(1)] by (auto simp: dst_post_def dst_ok_def dst_quiet_def)

lemma wp_downgrade_drop:
  assumes q: "dst_quiet dst w w'" and e: "\<not> calm w \<or> inexpressible v db"
  shows "wp (ignore_io (os_Remove (dst @ downgradeTempSuffix)) (return (Inl e))) (dst_post v db dst w) (dst_crash v db dst w) w'"
  unfolding wp_ignore wp_return
proof (rule wp_Remove, goal_cases)
  case (1 fs f)
  show ?case by (rule dst_quiet_failed [OF dst_quiet_remove [OF dst_quiet_faults [OF q 1(1)]] e]) simp
next
  case (2 fs)
  show ?case by (rule dst_quiet_failed [OF dst_quiet_faults [OF q 2(1)] e]) (simp add: 2)
next
  case (3 fs)
  then have "\<not> calm w" using q by (auto simp: dst_quiet_def)
  then show ?case using dst_quiet_failed [OF dst_quiet_faults [OF q] e] 3 by simp
qed (rule dst_quiet_crash [OF q])

definition downgrade_install :: "path \<Rightarrow> (error + unit) io" where
  "downgrade_install dst = bind_io (os_Rename (dst @ downgradeTempSuffix) dst) (\<lambda>r. case r of
     Inl err \<Rightarrow> ignore_io (os_Remove (dst @ downgradeTempSuffix)) (return (Inl err)) | Inr _ \<Rightarrow> syncParentDirectory dst)"

lemma wp_downgrade_install:
  assumes q: "dst_quiet dst w w'" and g: "files w' (dst @ downgradeTempSuffix) = Some g" "complete_log v db g"
  shows "wp (downgrade_install dst) (dst_post v db dst w) (dst_crash v db dst w) w'"
  unfolding downgrade_install_def
proof (rule wp_bindI, rule wp_Rename, goal_cases)
  case (1 fs h)
  let ?w = "set_file dst (Some h) (set_file (dst @ downgradeTempSuffix) None (w'\<lparr>faults := fs\<rparr>))"
  have oc: "only_changes (dst_paths dst) w (set_file dst (Some h) (set_file (dst @ downgradeTempSuffix) None (w'\<lparr>faults := fs'\<rparr>)))" for fs'
    using dst_quiet_dst(1) [OF q] by (intro only_changes_set) (simp_all add: dst_paths_def)
  have h: "complete_log v db h" using 1 g by simp
  have ok: "dst_ok v db dst w (?w\<lparr>faults := fs'\<rparr>)" for fs' using h by (simp add: dst_ok_def)
  have calm: "calm w \<longrightarrow> calm ?w" using 1(1) q by (simp add: dst_quiet_def still_def)
  show ?case
    unfolding syncParentDirectory_def sum.case
  proof (rule wp_SyncDir, goal_cases)
    case (1 fs')
    then show ?case using oc h calm by (simp add: dst_post_def still_def)
  next
    case (2 fs')
    then have "\<not> calm w" using calm by blast
    then show ?case using oc ok by (simp add: dst_post_def)
  next
    case (3 fs')
    then have "\<not> calm w" using calm by blast
    then show ?case using oc ok by (simp add: dst_crash_def)
  qed
next
  case (3 fs)
  then have "\<not> calm w" using q by (auto simp: dst_quiet_def)
  then show ?case using wp_downgrade_drop [OF dst_quiet_faults [OF q]] 3 by simp
next
  case (4 fs)
  then show ?case by (rule dst_quiet_crash [OF q])
qed (use g in simp)

lemma wp_downgrade_write:
  assumes w: "files w (l_path l) = Some f" "offers l idx f db" "4 \<le> l_version l" "l_path l \<notin> dst_paths dst" and v: "version = 3 \<or> version = 4"
  shows "wp (downgrade_write l idx dst version) (dst_post version db dst w) (dst_crash version db dst w) w" (is "wp _ ?Q ?C w")
proof -
  let ?tmp = "dst @ downgradeTempSuffix"
  let ?output = "if version = 4 then writeV4Log l idx ?tmp else writeV3Log l idx ?tmp"
  let ?rest = "\<lambda>r. case r of Inl err \<Rightarrow> ignore_io (os_Remove ?tmp) (return (Inl err)) | Inr (_ :: unit) \<Rightarrow> downgrade_install dst"
  have out: "wp (bind_io ?output ?rest) ?Q ?C (set_file ?tmp None (w\<lparr>faults := fs\<rparr>))" (is "wp _ _ _ ?w1") if fs: "still w fs" for fs
  proof -
    have w1: "files ?w1 (l_path l) = Some f" "l_path l \<noteq> ?tmp" using w(1,4) by (simp_all add: dst_paths_def)
    have calm: "calm ?w1 \<or> \<not> calm w" using fs by (auto simp: still_def)
    have q: "dst_quiet dst w w'" if "writes_only ?tmp ?w1 w'" for w'
      using that calm by (auto simp: dst_quiet_def writes_only_def only_changes_def)
    have wr: "wp ?output (\<lambda>r w'. case r of Inr _ \<Rightarrow> written version db ?tmp ?w1 w' | Inl _ \<Rightarrow> write_failed version db ?tmp ?w1 w') (write_crash ?tmp ?w1) ?w1"
    proof (cases "version = 4")
      case True
      show ?thesis unfolding True if_P [OF refl] by (rule wp_writeV4Log [OF w1(1) w(2,3) w1(2)])
    next
      case False
      then have v3: "version = 3" and ne: "(3 :: 32 word) \<noteq> 4" using v by simp_all
      show ?thesis unfolding v3 if_not_P [OF ne] by (rule wp_writeV3Log [OF w1(1) w(2,3) w1(2)])
    qed
    show ?thesis
    proof (rule wp_bindI, rule wp_mono [OF wr], goal_cases)
      case (1 r w')
      show ?case
      proof (cases r)
        case (Inl e)
        then have f: "write_failed version db ?tmp ?w1 w'" using 1 by simp
        then have "dst_quiet dst w w'" "\<not> calm w \<or> inexpressible version db"
          using q calm by (auto simp: write_failed_def inexpressible_def)
        then show ?thesis unfolding Inl sum.case by (rule wp_downgrade_drop)
      next
        case (Inr u)
        then have "written version db ?tmp ?w1 w'" using 1 by simp
        then show ?thesis using q wp_downgrade_install by (auto simp: written_def Inr)
      qed
    next
      case (2 w')
      then have "\<not> calm w" "only_changes {?tmp} w w'" using calm by (auto simp: write_crash_def only_changes_def)
      then show ?case using dst_quiet_dst [of dst w w'] by (simp add: dst_quiet_def dst_crash_def dst_ok_def)
    qed
  qed
  have eq: "downgrade_write l idx dst version = try_io (removeIfExists ?tmp) (\<lambda>_. bind_io ?output ?rest)"
    unfolding downgrade_write_def downgrade_install_def Let_def by (rule refl)
  show ?thesis
    unfolding eq wp_try
    by (rule wp_removeIfExists) (use out in \<open>simp_all add: dst_post_def dst_crash_def dst_ok_def\<close>)
qed

text \<open>
  The source: a log of version 4 or 5 without feature bits. Whatever happens, it
  stays a log of the same database.
\<close>

definition downgradable :: "os_file \<Rightarrow> bool" where
  "downgradable f \<longleftrightarrow> (\<exists>l es tail. current_log l es tail f \<and> l_readOnlyFeatures l = 0)"

definition keeps_log :: "path \<Rightarrow> db \<Rightarrow> world \<Rightarrow> bool" where
  "keeps_log src db w \<longleftrightarrow> (\<exists>g. files w src = Some g \<and> log_of g db)"

definition down_post :: "path \<Rightarrow> path \<Rightarrow> 32 word \<Rightarrow> os_file \<Rightarrow> db \<Rightarrow> world \<Rightarrow> error + unit \<Rightarrow> world \<Rightarrow> bool" where
  "down_post src dst version f db w r w' \<longleftrightarrow> (calm w \<longrightarrow> calm w') \<and> only_changes (insert src (dst_paths dst)) w w' \<and> keeps_log src db w' \<and> (case r of
       Inr _ \<Rightarrow> downgradable f \<and> (\<exists>g. files w' dst = Some g \<and> complete_log version db g)
     | Inl _ \<Rightarrow> dst_ok version db dst w w' \<and>
         (calm w \<longrightarrow> files w' dst = files w dst \<and> (\<not> downgradable f \<or> inexpressible version db)))"

definition down_crash :: "path \<Rightarrow> path \<Rightarrow> 32 word \<Rightarrow> db \<Rightarrow> world \<Rightarrow> world \<Rightarrow> bool" where
  "down_crash src dst version db w w' \<longleftrightarrow> \<not> calm w \<and> only_changes (insert src (dst_paths dst)) w w' \<and> keeps_log src db w' \<and> dst_ok version db dst w w'"

lemma downgrade_fold: "fold (\<lambda>rec i. snd (downgrade_record rec i)) recs i = fst (recovered recs (i, c))"
proof (induction recs arbitrary: i c)
  case (Cons rec recs)
  obtain j d where "snd (recover_record rec (i, c)) = (j, d)" by fastforce
  then show ?case using Cons [of j d] by (auto simp: recover_record_def downgrade_record_def split: if_splits)
qed simp

lemma downgradable_opens:
  assumes "downgradable f" "opens p f l"
  shows "4 \<le> l_version l" "l_incompatibleFeatures l OR l_readOnlyFeatures l = 0"
proof -
  obtain lh es tail where c: "current_log lh es tail f" "l_readOnlyFeatures lh = 0" using assms(1) by (auto simp: downgradable_def)
  note o = current_log_opens(2) [OF c(1) assms(2)]
  show "4 \<le> l_version l" using o c(1) by (auto simp: current_log_def logVersion_def)
  show "l_incompatibleFeatures l OR l_readOnlyFeatures l = 0"
    using o c(2) by (simp add: unknownReadOnly_def knownReadOnlyFeatures_def)
qed

lemma opens_downgradable:
  assumes "log_of f db" "opens p f l" "\<not> l_version l < 4" "l_incompatibleFeatures l OR l_readOnlyFeatures l = 0"
  obtains lh es tail where "current_log lh es tail f" "items_of es = db" "l_readOnlyFeatures lh = 0" "l_readOnlyFeatures l = 0"
proof -
  have "\<not> legacy_log v hdr bs recs tail f" for v hdr bs recs tail
    using legacy_log_opens(2) [of v hdr bs recs tail f p l] assms(2,3) by (auto simp: legacy_log_def)
  then obtain lh es tail where c: "current_log lh es tail f" "items_of es = db" using assms(1) by (auto simp: log_of_def)
  note o = current_log_opens(2) [OF c(1) assms(2)]
  have "l_readOnlyFeatures l = 0" using o assms(4) by simp
  moreover from this have "l_readOnlyFeatures lh = 0" using o by (simp add: unknownReadOnly_def knownReadOnlyFeatures_def)
  ultimately show ?thesis using that c by blast
qed

text \<open>The output is written after the scan, which has cut off a torn tail.\<close>

lemma wp_downgrade_rest:
  assumes w1: "w1 = set_file src (Some g) (w\<lparr>faults := fs\<rparr>)" "still w fs" and g: "log_of g db" and dg: "downgradable f"
    and l: "offers l idx g db" "l_path l = src" "4 \<le> l_version l" and p: "src \<notin> dst_paths dst" and v: "version = 3 \<or> version = 4"
  shows "wp (bind_io (downgrade_write l idx dst version) (\<lambda>r. return (r, l))) (\<lambda>(r, _). down_post src dst version f db w r)
    (down_crash src dst version db w) w1"
proof -
  have f1: "files w1 (l_path l) = Some g" "l_path l \<notin> dst_paths dst" using l(2) p w1(1) by simp_all
  have d: "files w1 dst = files w dst" using p w1(1) by (auto simp: dst_paths_def)
  have calm: "calm w1 \<or> \<not> calm w" using w1 by (auto simp: still_def)
  have oc: "only_changes (insert src (dst_paths dst)) w w'" "keeps_log src db w'" if "only_changes (dst_paths dst) w1 w'" for w'
    using that p g w1(1) by (auto simp: only_changes_def keeps_log_def)
  have ok: "dst_ok version db dst w1 w' = dst_ok version db dst w w'" for w' unfolding dst_ok_def d by (rule refl)
  show ?thesis
  proof (rule wp_bindI, rule wp_mono [OF wp_downgrade_write [OF f1(1) l(1,3) f1(2) v]], goal_cases)
    case (1 r w')
    then show ?case
      using calm oc [of w'] ok [of w'] d dg by (cases r) (auto simp: wp_return dst_post_def down_post_def)
  next
    case (2 w')
    then show ?case using calm oc [of w'] ok [of w'] by (auto simp: dst_crash_def down_crash_def)
  qed
qed

lemma wp_downgrade_log:
  assumes w: "files w src = Some f" "opens src f l" "log_of f db" and p: "src \<notin> dst_paths dst" and v: "version = 3 \<or> version = 4"
  shows "wp (downgrade_log l dst version) (\<lambda>(r, _). down_post src dst version f db w r) (down_crash src dst version db w) w"
proof (cases "l_version l < 4 \<or> l_incompatibleFeatures l OR l_readOnlyFeatures l \<noteq> 0")
  case True
  then have "\<not> downgradable f" using downgradable_opens [OF _ w(2)] by auto
  then show ?thesis using True w by (auto simp: downgrade_log_def wp_return down_post_def dst_ok_def keeps_log_def)
next
  case False
  then obtain lh es tail where c: "current_log lh es tail f" "items_of es = db" "l_readOnlyFeatures lh = 0" "l_readOnlyFeatures l = 0"
    using opens_downgradable [OF w(3,2)] by blast
  note o = current_log_opens(2) [OF c(1) w(2)]
  have nv: "4 \<le> l_version l" and ur: "unknownReadOnly l = 0" using False c(4) by (auto simp: unknownReadOnly_def)
  have lf: "log_file (header_bytes l) es tail f" using c(1) o by (simp add: current_log_def)
  note ch = log_file_chunks [OF lf nv]
  have ok: "\<forall>e \<in> set es. ent_ok e" using lf by (simp add: log_file_def)
  define recs where "recs = map ent_record (places logHeaderSize es)"
  obtain idx cc where rec: "recovered recs (newIndex [], newLRUCache 1) = (idx, cc)" by fastforce
  have idx: "fold (\<lambda>rec i. snd (downgrade_record rec i)) recs (newIndex []) = idx"
    using downgrade_fold [of recs "newIndex []" "newLRUCache 1"] rec by simp
  have ix: "indexes idx es" using recovered_ents(1) [OF ok, of "[]" 1 idx cc] rec by (simp add: recs_def)
  let ?g = "f\<lparr>content := header_bytes l @ log_body es\<rparr>"
  let ?l = "l\<lparr>l_writePos := logHeaderSize + length (log_body es)\<rparr>"
  have off: "offers ?l idx ?g db"
    unfolding c(2) [symmetric] using ents_offer [of ?g "header_bytes l" es "[]" ?l idx] ok o nv ix by (simp add: log_end_def)
  have g: "log_of ?g db"
    using log_of_whole(1) [OF c(1), of ?g] o c(2) unfolding log_of_def by auto
  have dg: "downgradable f" using c by (auto simp: downgradable_def)
  note down = wp_downgrade_rest [OF refl _ g dg off _ _ p v]
  have eq: "downgrade_log l dst version = bind_io (Iterate l downgrade_record (newIndex [])) (\<lambda>(r, liveIdx, l). case r of
      Inl err \<Rightarrow> return (Inl err, l) | Inr _ \<Rightarrow> bind_io (downgrade_write l liveIdx dst version) (\<lambda>r. return (r, l)))"
    using False by (simp add: downgrade_log_def)
  have ft: "downgrade_record rec i = (None, snd (downgrade_record rec i))" for rec i by (simp add: downgrade_record_def)
  have src: "keeps_log src db (w\<lparr>faults := fs\<rparr>)" for fs using w(1,3) by (simp add: keeps_log_def)
  show ?thesis
    unfolding eq
  proof (rule wp_bindI, rule wp_Iterate_chunks [where g = "\<lambda>rec i. snd (downgrade_record rec i)" and f = f and hdr = "header_bytes l"
        and bs = "map ent_bytes es" and tail = tail and recs = recs], goal_cases)
    case (9 fs)
    then show ?case using down [OF 9] idx ur o nv by simp
  qed (use o ch w(1) ft src in \<open>auto simp: recs_def wp_return down_post_def down_crash_def dst_ok_def\<close>)
qed

definition down_end :: "path \<Rightarrow> path \<Rightarrow> 32 word \<Rightarrow> os_file \<Rightarrow> db \<Rightarrow> world \<Rightarrow> error + unit \<Rightarrow> world \<Rightarrow> bool" where
  "down_end src dst version f db w r w' \<longleftrightarrow> (calm w \<longrightarrow> calm w') \<and> only_changes (log_paths src \<union> dst_paths dst) w w' \<and> db_on_disk src db w' \<and> (case r of
       Inr _ \<Rightarrow> downgradable f \<and> (\<exists>g. files w' dst = Some g \<and> complete_log version db g)
     | Inl _ \<Rightarrow> dst_ok version db dst w w' \<and>
         (calm w \<longrightarrow> files w' dst = files w dst \<and> (\<not> downgradable f \<or> inexpressible version db)))"

definition down_died :: "path \<Rightarrow> path \<Rightarrow> 32 word \<Rightarrow> db \<Rightarrow> world \<Rightarrow> world \<Rightarrow> bool" where
  "down_died src dst version db w w' \<longleftrightarrow> \<not> calm w \<and> only_changes (log_paths src \<union> dst_paths dst) w w' \<and> db_on_disk src db w' \<and> dst_ok version db dst w w'"

lemma wp_downgrade_locked:
  assumes f: "survivor src w = Some f" "log_of f db" and p: "log_paths src \<inter> dst_paths dst = {}" and v: "version = 3 \<or> version = 4"
  shows "wp (downgrade_locked src dst version) (down_end src dst version f db w) (down_died src dst version db w) w" (is "wp _ ?Q ?C w")
proof -
  obtain l0 where l0: "opens src f l0" using log_of_opens [OF f(2)] by blast
  have sp: "src \<notin> dst_paths dst" using p by auto
  have dst: "files w' dst = files w dst" "dst_ok version db dst w w'" if "only_changes (log_paths src) w w'" for w'
  proof -
    have "dst \<notin> log_paths src" using p by (auto simp: dst_paths_def)
    then show "files w' dst = files w dst" using that by (simp add: only_changes_def)
    then show "dst_ok version db dst w w'" by (simp add: dst_ok_def)
  qed
  have disk: "db_on_disk src db w'" if "survivor src w' = Some f" for w' using that f(2) by (auto simp: db_on_disk_def)
  have main: "db_on_disk src db w'" if "keeps_log src db w'" for w' using that db_on_disk_main by (auto simp: keeps_log_def)
  show ?thesis
    unfolding downgrade_locked_def
  proof (rule wp_bindI, rule wp_openAppendLog [OF f(1) l0], goal_cases)
    case (1 l w1)
    have d1: "files w1 dst = files w dst" using dst [OF 1(3)] by simp
    have oc: "only_changes (log_paths src \<union> dst_paths dst) w w'" if "only_changes (insert src (dst_paths dst)) w1 w'" for w'
      using that 1(3) by (auto simp: only_changes_def)
    have ok: "dst_ok version db dst w1 w' = dst_ok version db dst w w'" for w' unfolding dst_ok_def d1 by (rule refl)
    have fin: "?Q r w'" if "down_post src dst version f db w1 r w'" for r w'
      using that oc [of w'] main [of w'] ok [of w'] 1(4) d1 by (cases r) (auto simp: down_post_def down_end_def)
    have fin_faults: "down_post src dst version f db w1 r (w'\<lparr>faults := fs\<rparr>)" if "down_post src dst version f db w1 r w'" "still w' fs" for r w' fs
      using that by (auto simp: down_post_def still_def keeps_log_def dst_ok_def split: sum.splits)
    have died: "?C (w'\<lparr>faults := fs\<rparr>)" if "down_post src dst version f db w1 r w'" "\<not> calm w'" for r w' fs
    proof -
      have "dst_ok version db dst w (w'\<lparr>faults := fs\<rparr>)"
        using that(1) ok [of w'] by (cases r) (auto simp: down_post_def dst_ok_def)
      moreover have "keeps_log src db (w'\<lparr>faults := fs\<rparr>)" using that(1) by (simp add: down_post_def keeps_log_def)
      ultimately show ?thesis
        using that 1(4) oc [of "w'\<lparr>faults := fs\<rparr>"] main by (auto simp: down_post_def down_died_def)
    qed
    show ?case
      unfolding sum.case
    proof (rule wp_bindI, rule wp_mono [OF wp_downgrade_log [OF 1(2,1) f(2) sp v]], goal_cases)
      case (1 x w2)
      obtain r l' where x: "x = (r, l')" by (cases x)
      have post: "down_post src dst version f db w1 r w2" using 1 by (simp add: x)
      show ?case
        unfolding x prod.case
        by (rule wp_bindI, rule wp_log_Close_any) (use fin [OF fin_faults [OF post]] died [OF post] in \<open>auto simp: wp_return\<close>)
    next
      case (2 w2)
      then show ?case using \<open>calm w \<longrightarrow> calm w1\<close> oc [of w2] main [of w2] ok [of w2] by (auto simp: down_crash_def down_died_def)
    qed
  next
    case (2 err w')
    then show ?case
      using dst [OF 2(3)] disk [OF 2(2)] only_changes_mono [OF 2(3), of "log_paths src \<union> dst_paths dst"] by (auto simp: wp_return down_end_def)
  next
    case (3 w')
    then show ?case
      using dst [OF 3(3)] disk [OF 3(2)] only_changes_mono [OF 3(3), of "log_paths src \<union> dst_paths dst"] by (auto simp: down_died_def)
  qed
qed

definition source_paths :: "path \<Rightarrow> path set" where
  "source_paths src = insert (src @ lockFileSuffix) (log_paths src)"

definition downgrade_post :: "path \<Rightarrow> path \<Rightarrow> DowngradeOptions \<Rightarrow> os_file \<Rightarrow> db \<Rightarrow> world \<Rightarrow> error + unit \<Rightarrow> world \<Rightarrow> bool" where
  "downgrade_post src dst options f db w r w' \<longleftrightarrow> (calm w \<longrightarrow> calm w') \<and> files_only (source_paths src \<union> dst_paths dst) w w' \<and>
     locked w' = locked w \<and> db_on_disk src db w' \<and> (case r of
       Inr _ \<Rightarrow> downgradable f \<and> (do_Overwrite options \<or> files w dst = None) \<and> src @ lockFileSuffix \<notin> locked w \<and>
         (\<exists>g. files w' dst = Some g \<and> complete_log (do_Version options) db g)
     | Inl _ \<Rightarrow> dst_ok (do_Version options) db dst w w' \<and> (calm w \<longrightarrow> files w' dst = files w dst \<and>
         (\<not> downgradable f \<or> inexpressible (do_Version options) db \<or> src @ lockFileSuffix \<in> locked w \<or>
          \<not> do_Overwrite options \<and> files w dst \<noteq> None)))"

definition downgrade_crash :: "path \<Rightarrow> path \<Rightarrow> DowngradeOptions \<Rightarrow> db \<Rightarrow> world \<Rightarrow> world \<Rightarrow> bool" where
  "downgrade_crash src dst options db w w' \<longleftrightarrow> \<not> calm w \<and> files_only (source_paths src \<union> dst_paths dst) w w' \<and>
     db_on_disk src db w' \<and> dst_ok (do_Version options) db dst w w'"

definition downgrade_acquire :: "path \<Rightarrow> path \<Rightarrow> 32 word \<Rightarrow> (error + unit) io" where
  "downgrade_acquire src dst version =
     try_io (acquireFileLock src) (\<lambda>lock.
     bind_io (downgrade_locked src dst version) (\<lambda>r.
     bind_io (lock_release lock) (\<lambda>_. return r)))"

text \<open>Between taking the lock and releasing it.\<close>

definition lock_taken :: "path \<Rightarrow> world \<Rightarrow> world \<Rightarrow> bool" where
  "lock_taken src w w' \<longleftrightarrow> files_only {src @ lockFileSuffix} w w' \<and> src @ lockFileSuffix \<notin> locked w \<and>
     locked w' = insert (src @ lockFileSuffix) (locked w) \<and> (calm w \<longrightarrow> calm w')"

lemma lock_taken_dst:
  assumes "lock_taken src w w1" "source_paths src \<inter> dst_paths dst = {}"
  shows "files w1 dst = files w dst" "dst_ok v db dst w1 w' = dst_ok v db dst w w'"
    "only_changes (log_paths src \<union> dst_paths dst) w1 w' \<Longrightarrow> files_only (source_paths src \<union> dst_paths dst) w w'"
proof -
  have "src @ lockFileSuffix \<noteq> dst" using assms(2) by (auto simp: source_paths_def dst_paths_def)
  then show d: "files w1 dst = files w dst" using assms(1) by (auto simp: lock_taken_def files_only_def)
  show "dst_ok v db dst w1 w' = dst_ok v db dst w w'" unfolding dst_ok_def d by (rule refl)
  show "files_only (source_paths src \<union> dst_paths dst) w w'" if "only_changes (log_paths src \<union> dst_paths dst) w1 w'"
    using that assms(1) by (auto simp: lock_taken_def only_changes_def files_only_def source_paths_def)
qed

lemma downgrade_ended:
  assumes t: "lock_taken src w w1" and p: "source_paths src \<inter> dst_paths dst = {}" and ov: "do_Overwrite options \<or> files w dst = None"
    and e: "down_end src dst (do_Version options) f db w1 r w2" and f3: "files w3 = files w2"
  shows "locked w3 = locked w2 - {src @ lockFileSuffix} \<Longrightarrow> calm w2 \<longrightarrow> calm w3 \<Longrightarrow> downgrade_post src dst options f db w r w3"
    "\<not> calm w2 \<Longrightarrow> downgrade_crash src dst options db w w3"
proof -
  let ?v = "do_Version options"
  note d = lock_taken_dst [OF t p]
  have fo: "files_only (source_paths src \<union> dst_paths dst) w w3" using d(3) [of w2] e f3 by (simp add: down_end_def files_only_def)
  have disk: "db_on_disk src db w3" using e f3 db_on_disk_files [of w3 w2] by (simp add: down_end_def)
  have ok: "dst_ok ?v db dst w w3" using e f3 d(1) by (cases r) (simp_all add: down_end_def dst_ok_def)
  show "downgrade_post src dst options f db w r w3" if l: "locked w3 = locked w2 - {src @ lockFileSuffix}" and c: "calm w2 \<longrightarrow> calm w3"
  proof -
    have "locked w3 = locked w" "src @ lockFileSuffix \<notin> locked w" using l e t by (auto simp: down_end_def only_changes_def lock_taken_def)
    moreover have "calm w \<longrightarrow> calm w1 \<and> calm w3" using e t c by (simp add: lock_taken_def down_end_def)
    ultimately show ?thesis
      using e fo disk ok d(1) f3 ov by (cases r) (auto simp: down_end_def downgrade_post_def)
  qed
  show "downgrade_crash src dst options db w w3" if "\<not> calm w2"
    using that fo disk ok e t by (auto simp: downgrade_crash_def down_end_def lock_taken_def)
qed

text \<open>When the lock is not obtained.\<close>

lemma downgrade_unlocked:
  assumes oc: "only_changes {src @ lockFileSuffix} w w1" and p: "source_paths src \<inter> dst_paths dst = {}" and disk: "db_on_disk src db w"
  shows "\<not> calm w \<or> src @ lockFileSuffix \<in> locked w \<Longrightarrow> calm w \<longrightarrow> calm w1 \<Longrightarrow> downgrade_post src dst options f db w (Inl err) w1"
    "\<not> calm w \<Longrightarrow> downgrade_crash src dst options db w w1"
proof -
  have "src @ lockFileSuffix \<noteq> dst" using p by (auto simp: source_paths_def dst_paths_def)
  then have "files w1 dst = files w dst" "files_only (source_paths src \<union> dst_paths dst) w w1" "locked w1 = locked w"
    using oc by (auto simp: only_changes_def files_only_def source_paths_def)
  moreover have "db_on_disk src db w1" using disk db_on_disk_cong [of src w1 w db] lock_other [OF oc] by simp
  ultimately show "\<not> calm w \<or> src @ lockFileSuffix \<in> locked w \<Longrightarrow> calm w \<longrightarrow> calm w1 \<Longrightarrow> downgrade_post src dst options f db w (Inl err) w1"
    "\<not> calm w \<Longrightarrow> downgrade_crash src dst options db w w1"
    by (auto simp: downgrade_post_def downgrade_crash_def dst_ok_def)
qed

lemma wp_downgrade_acquire:
  assumes f: "survivor src w = Some f" "log_of f db" and p: "source_paths src \<inter> dst_paths dst = {}"
    and v: "do_Version options = 3 \<or> do_Version options = 4" and ov: "do_Overwrite options \<or> files w dst = None"
  shows "wp (downgrade_acquire src dst (do_Version options)) (downgrade_post src dst options f db w) (downgrade_crash src dst options db w) w"
  unfolding downgrade_acquire_def wp_try
proof (rule wp_mono [OF wp_acquireFileLock], goal_cases)
  case (1 r w1)
  let ?lp = "src @ lockFileSuffix"
  have disk: "db_on_disk src db w" using f by (auto simp: db_on_disk_def)
  show ?case
  proof (cases r)
    case (Inl err)
    then show ?thesis using 1 downgrade_unlocked(1) [OF _ p disk] by auto
  next
    case (Inr lock)
    have oc: "only_changes {?lp} (w\<lparr>locked := insert ?lp (locked w)\<rparr>) w1" and lk: "lk_file lock = Some ?lp" "?lp \<notin> locked w" "calm w \<longrightarrow> calm w1"
      using 1 Inr by simp_all
    then have t: "lock_taken src w w1" by (auto simp: lock_taken_def only_changes_def files_only_def)
    have sv: "survivor src w1 = Some f" using survivor_cong [of src w1 w] lock_other [OF oc] f(1) by simp
    have pl: "log_paths src \<inter> dst_paths dst = {}" using p by (auto simp: source_paths_def)
    show ?thesis
      unfolding Inr sum.case
    proof (rule wp_bindI, rule wp_mono [OF wp_downgrade_locked [OF sv f(2) pl v]], goal_cases)
      case (1 r w2)
      show ?case
        by (rule wp_bindI, rule wp_mono [OF wp_lock_release [OF lk(1)]])
          (use downgrade_ended [OF t p ov 1] in \<open>auto simp: wp_return only_changes_def\<close>)
    next
      case (2 w2)
      then show ?case
        using lock_taken_dst [OF t p] t by (auto simp: down_died_def downgrade_crash_def lock_taken_def)
    qed
  qed
next
  case (2 w1)
  have "db_on_disk src db w" using f by (auto simp: db_on_disk_def)
  then show ?case using 2 downgrade_unlocked(2) [OF _ p] by auto
qed

text \<open>The whole operation: the destination is looked at before the lock is taken.\<close>

lemma Downgrade_split:
  assumes "do_Version options = 3 \<or> do_Version options = 4" "src \<noteq> dst"
  shows "Downgrade src dst options =
    (if do_Overwrite options then downgrade_acquire src dst (do_Version options)
     else bind_io (os_Stat dst) (\<lambda>r. case r of
       Inr _ \<Rightarrow> return (Inl (Errorf ''downgrade destination already exists''))
     | Inl err \<Rightarrow> if \<not> errors_Is err ErrNotExist then return (Inl err) else downgrade_acquire src dst (do_Version options)))"
  using assms unfolding Downgrade_def downgrade_acquire_def
  by (auto simp: Let_def fun_eq_iff try_io_def bind_io_def return_def split: option.splits prod.splits sum.splits)

lemma downgrade_faults:
  assumes "still w fs"
  shows "downgrade_post src dst options f db (w\<lparr>faults := fs\<rparr>) r w' \<Longrightarrow> downgrade_post src dst options f db w r w'"
    "downgrade_crash src dst options db (w\<lparr>faults := fs\<rparr>) w' \<Longrightarrow> downgrade_crash src dst options db w w'"
proof -
  have c: "calm w \<longrightarrow> fs = []" using assms by (simp add: still_def)
  show "downgrade_post src dst options f db (w\<lparr>faults := fs\<rparr>) r w' \<Longrightarrow> downgrade_post src dst options f db w r w'"
    using c by (cases r) (auto simp: downgrade_post_def files_only_def dst_ok_def)
  show "downgrade_crash src dst options db (w\<lparr>faults := fs\<rparr>) w' \<Longrightarrow> downgrade_crash src dst options db w w'"
    using c by (auto simp: downgrade_crash_def files_only_def dst_ok_def)
qed

lemma wp_Downgrade:
  assumes f: "survivor src w = Some f" "log_of f db" and p: "source_paths src \<inter> dst_paths dst = {}"
    and v: "do_Version options = 3 \<or> do_Version options = 4"
  shows "wp (Downgrade src dst options) (downgrade_post src dst options f db w) (downgrade_crash src dst options db w) w" (is "wp _ ?Q ?C w")
proof -
  have ne: "src \<noteq> dst" using p by (auto simp: source_paths_def dst_paths_def)
  have disk: "db_on_disk src db w" using f by (auto simp: db_on_disk_def)
  have acq: "wp (downgrade_acquire src dst (do_Version options)) ?Q ?C (w\<lparr>faults := fs\<rparr>)"
    if "do_Overwrite options \<or> files w dst = None" "still w fs" for fs
  proof -
    have "survivor src (w\<lparr>faults := fs\<rparr>) = Some f" using survivor_cong [of src "w\<lparr>faults := fs\<rparr>" w] f(1) by simp
    from wp_downgrade_acquire [OF this f(2) p v] show ?thesis
      by (rule wp_mono) (use that(1) downgrade_faults [OF that(2)] in auto)
  qed
  show ?thesis
  proof (cases "do_Overwrite options")
    case True
    then show ?thesis using acq [of "faults w"] by (simp add: Downgrade_split [OF v ne])
  next
    case False
    have post: "?Q (Inl err) (w\<lparr>faults := fs\<rparr>)" if "files w dst \<noteq> None \<or> \<not> calm w" "still w fs" for err fs
      using that False disk db_on_disk_files [of "w\<lparr>faults := fs\<rparr>" w] by (auto simp: downgrade_post_def dst_ok_def files_only_def still_def)
    have io: "\<not> errors_Is IOError ErrNotExist" by simp
    show ?thesis
      unfolding Downgrade_split [OF v ne] if_not_P [OF False]
    proof (rule wp_bindI, rule wp_Stat, goal_cases)
      case (2 fs)
      then show ?case using acq by simp
    qed (use post io disk db_on_disk_files [of "w\<lparr>faults := _\<rparr>" w] in \<open>auto simp: wp_return downgrade_crash_def dst_ok_def files_only_def\<close>)
  qed
qed


lemma sample_paths: "source_paths ''s'' \<inter> dst_paths ''d'' = {}" "store_paths ''d'' \<inter> source_paths ''s'' = {}"
  by (auto simp: source_paths_def dst_paths_def store_paths_def backup_paths_def backup_path_def artifacts_def)

lemma sample_items: "items_of [sample_ent] k = Some it \<Longrightarrow> it_ext it = [] \<and> it_attrs it = Map.empty"
proof -
  have "decodeAttributes [0, 0, 0, 0] = Inr []" by code_simp
  then show "items_of [sample_ent] k = Some it \<Longrightarrow> it_ext it = [] \<and> it_attrs it = Map.empty"
    by (auto simp: items_of_def live_def live_step_def item_of_def sample_ent_def ent_attributes_def split: if_splits)
qed




section \<open>Requests that are refused, and a source that is not there\<close>

lemma Downgrade_refused:
  assumes "do_Version options \<noteq> 3 \<and> do_Version options \<noteq> 4 \<or> src = dst"
  shows "\<exists>err. Downgrade src dst options w = (Some (Inl err), w)"
  using assms by (auto simp: Downgrade_def Let_def return_def)

text \<open>
  A source that does not exist is created, as an empty log, and an empty database is
  written to the destination.
\<close>

lemma empty_expressible: "downgradable g \<Longrightarrow> down_post src dst v g Map.empty w r w' \<Longrightarrow> calm w \<Longrightarrow> r = Inr ()"
  by (cases r) (auto simp: down_post_def inexpressible_def)

lemma new_log_downgradable: "content g = new_header \<Longrightarrow> downgradable g"
  unfolding downgradable_def current_log_def
  using log_file_whole [of g new_header "[]"]
  by (intro exI [of _ "new_log []"] exI [of _ "[]"]) (simp add: new_header_def, simp add: new_log_def)

lemma wp_downgrade_locked_missing:
  assumes f: "survivor src w = None" and p: "log_paths src \<inter> dst_paths dst = {}" and v: "version = 3 \<or> version = 4" and c: "calm w"
  shows "wp (downgrade_locked src dst version) (\<lambda>r w'. r = Inr () \<and> calm w' \<and> keeps_log src Map.empty w' \<and>
      (\<exists>g. files w' dst = Some g \<and> complete_log version Map.empty g)) (\<lambda>_. False) w" (is "wp _ ?Q ?C w")
proof -
  have sp: "src \<notin> dst_paths dst" using p by auto
  have found: "wp (bind_io (downgrade_log l dst version) (\<lambda>(r, l). bind_io (log_Close l) (\<lambda>_. return r))) ?Q ?C w1"
    if w1: "calm w1" "files w1 src = Some g" "content g = new_header" "opens src g l" for w1 g l
  proof (rule wp_bindI, rule wp_mono [OF wp_downgrade_log [OF w1(2,4) new_log_of [OF w1(3)] sp v]], goal_cases)
    case (1 x w2)
    obtain r l' where x: "x = (r, l')" by (cases x)
    have post: "down_post src dst version g Map.empty w1 r w2" using 1 by (simp add: x)
    have r: "r = Inr ()" by (rule empty_expressible [OF new_log_downgradable [OF w1(3)] post w1(1)])
    show ?case
      unfolding x prod.case
      by (rule wp_bindI, rule wp_log_Close_any) (use post w1(1) in \<open>auto simp: r wp_return down_post_def keeps_log_def still_def\<close>)
  qed (use w1(1) in \<open>simp add: down_crash_def\<close>)
  have create: "wp (openAppendLogFile src) (\<lambda>r. wp (case r of Inl err \<Rightarrow> return (Inl err)
      | Inr l \<Rightarrow> bind_io (downgrade_log l dst version) (\<lambda>(r, l). bind_io (log_Close l) (\<lambda>_. return r))) ?Q ?C) ?C w1"
    if "calm w1" "files w1 src = None" for w1
    by (rule wp_openAppendLogFile_new) (use that found new_log_opens in \<open>auto simp: still_def\<close>)
  show ?thesis
    unfolding downgrade_locked_def openAppendLog_def wp_bind wp_try
  proof (rule wp_mono [OF wp_recoverCompactionArtifacts], goal_cases)
    case (1 r w1)
    then show ?case using f c create by (cases r) simp_all
  qed (use c in simp)
qed

lemma Downgrade_missing_source:
  assumes f: "survivor src w = None" and p: "source_paths src \<inter> dst_paths dst = {}" and v: "do_Version options = 3 \<or> do_Version options = 4"
    and w: "calm w" "src @ lockFileSuffix \<notin> locked w" "do_Overwrite options"
  shows "\<exists>w' g. Downgrade src dst options w = (Some (Inr ()), w') \<and> keeps_log src Map.empty w' \<and>
    files w' dst = Some g \<and> log_of g Map.empty"
proof -
  have ne: "src \<noteq> dst" and pl: "log_paths src \<inter> dst_paths dst = {}" using p by (auto simp: source_paths_def dst_paths_def)
  have "wp (downgrade_acquire src dst (do_Version options)) (\<lambda>r w'. r = Inr () \<and> keeps_log src Map.empty w' \<and>
      (\<exists>g. files w' dst = Some g \<and> complete_log (do_Version options) Map.empty g)) (\<lambda>_. False) w"
    unfolding downgrade_acquire_def wp_try
  proof (rule wp_mono [OF wp_acquireFileLock], goal_cases)
    case (1 r w1)
    then obtain lock where r: "r = Inr lock" and lk: "lk_file lock = Some (src @ lockFileSuffix)" "calm w1"
      and oc: "only_changes {src @ lockFileSuffix} (w\<lparr>locked := insert (src @ lockFileSuffix) (locked w)\<rparr>) w1"
      using w by (cases r) auto
    have sv: "survivor src w1 = None" using survivor_cong [of src w1 w] lock_other [OF oc] f by simp
    show ?case
      unfolding r sum.case
    proof (rule wp_bindI, rule wp_mono [OF wp_downgrade_locked_missing [OF sv pl v lk(2)]], goal_cases)
      case (1 r w2)
      then show ?case
        by (intro wp_bindI wp_mono [OF wp_lock_release [OF lk(1)]]) (auto simp: wp_return only_changes_def keeps_log_def)
    qed simp
  qed (use w in simp)
  from wp_total [OF this] show ?thesis
    using w(3) by (auto simp: Downgrade_split [OF v ne] complete_log_def downgraded_def split: if_splits)
qed

section \<open>The tool\<close>

text \<open>The tool exits with 0 only when the destination was written.\<close>

lemma tool_exit:
  assumes "tool_main version force args w = (Some out, w')"
  shows "exit_code out = 0 \<longleftrightarrow> (\<exists>source destination. args = [source, destination] \<and>
    Downgrade source destination \<lparr>do_Version = ucast version, do_Overwrite = force\<rparr> w = (Some (Inr ()), w'))"
  using assms
  by (auto simp: tool_main_def bind_io_def return_def split: list.splits option.splits prod.splits sum.splits)

text \<open>A version is cut to 32 bits before it is checked: this one is taken for version 4, and printed as it was given.\<close>

lemma tool_truncates_version:
  "tool_main 4294967300 force [source, destination] =
     bind_io (Downgrade source destination \<lparr>do_Version = 4, do_Overwrite = force\<rparr>) (\<lambda>r. return (case r of
       Inl err \<Rightarrow> PrintsError err | Inr _ \<Rightarrow> PrintsWrote destination 4294967300))"
proof -
  have "(ucast (4294967300 :: 64 word) :: 32 word) = 4" by simp
  then show ?thesis unfolding tool_main_def by (simp only: list.case Let_def)
qed

end
