(* ===== verification/Interleaving.thy ===== *)
theory Interleaving
  imports StoreProps
begin

text \<open>
  Callers, the two background goroutines and \<^verbatim>\<open>Close\<close> on one store, as a step relation.
  A call is two steps: the checks it makes before it takes the mutex of the store
  (closed, read-only, a compaction under way), and what it does with the mutex held;
  anything may happen in between. A turn of the sync loop is one step, a turn of the compaction loop
  several, and \<^verbatim>\<open>Close\<close> two, between which it waits for the goroutines. Every
  interleaving of such steps answers like a map.
\<close>

section \<open>The parts of a call\<close>

text \<open>The checks before the mutex is taken; \<^verbatim>\<open>Compact\<close> also claims its flag there.\<close>

fun check :: "op \<Rightarrow> Store \<Rightarrow> error + Store" where
  "check op s = (if s_closed s then Inl ErrStoreClosed else case op of
       DoGet k \<Rightarrow> Inr s
     | DoSync \<Rightarrow> Inr s
     | _ \<Rightarrow> (case s_readOnlyReason s of
           Some reason \<Rightarrow> Inl reason
         | None \<Rightarrow>
             if op = DoCompact then if s_compacting s then Inl ErrCompactionInProgress else Inr (s\<lparr>s_compacting := True\<rparr>)
             else Inr s))"

text \<open>
  The rest of a call does not read the two flags: it is the operation on the store as
  it is when neither is set. \<^verbatim>\<open>Compact\<close> gives its flag back after the mutex.
\<close>

definition idle :: "Store \<Rightarrow> Store" where
  "idle s = s\<lparr>s_closed := False, s_compacting := False\<rparr>"

definition under_mutex :: "op \<Rightarrow> Store \<Rightarrow> (reply \<times> Store) io" where
  "under_mutex op s = bind_io (perform op (idle s)) (\<lambda>(r, s').
     return (r, s'\<lparr>s_closed := s_closed s, s_compacting := s_compacting s\<rparr>))"

definition leave :: "op \<Rightarrow> Store \<Rightarrow> Store" where
  "leave op s = (if op = DoCompact then s\<lparr>s_compacting := False\<rparr> else s)"

lemma idle_simps [simp]:
  "s_log (idle s) = s_log s" "s_index (idle s) = s_index s" "s_cache (idle s) = s_cache s" "s_options (idle s) = s_options s"
  "s_readOnlyReason (idle s) = s_readOnlyReason s" "ReadOnly (idle s) = ReadOnly s" "\<not> s_closed (idle s)" "\<not> s_compacting (idle s)"
  "s_stats (idle s) = s_stats s" "s_lock (idle s) = s_lock s"
  "idle (s\<lparr>s_closed := b\<rparr>) = idle s" "idle (s\<lparr>s_compacting := b\<rparr>) = idle s" 
  by (simp_all add: idle_def ReadOnly_def)

text \<open>Together the parts are the operation.\<close>

lemma idle_open: "\<not> s_closed s \<Longrightarrow> \<not> s_compacting s \<Longrightarrow> idle s = s"
  by (cases s) (simp add: idle_def)

lemma bind_ioE:
  assumes "bind_io m f w = (Some x, w')"
  obtains y w1 where "m w = (Some y, w1)" "f y w1 = (Some x, w')"
  using assms by (auto simp: bind_io_def split: prod.splits option.splits)

lemma returnE: "return x w = (Some y, w') \<Longrightarrow> (y = x \<Longrightarrow> w' = w \<Longrightarrow> P) \<Longrightarrow> P"
  by (simp add: return_def)

lemma reopen_closed: "reopen p s w = (Some (r, s'), w') \<Longrightarrow> s_closed s' = s_closed s"
  by (auto simp: reopen_def elim!: bind_ioE returnE split: sum.splits)

lemma compact_finish_closed: "compact_finish p s idx w = (Some (r, s'), w') \<Longrightarrow> s_closed s' = s_closed s"
  by (auto simp: compact_finish_def Let_def dest!: reopen_closed elim!: bind_ioE returnE split: sum.splits prod.splits)

lemma compact_install_closed: "compact_install p s idx w = (Some (r, s'), w') \<Longrightarrow> s_closed s' = s_closed s"
  by (auto simp: compact_install_def Let_def ignore_io_def dest!: reopen_closed compact_finish_closed
      elim!: bind_ioE returnE split: sum.splits prod.splits)

lemma compact_locked_closed: "compact_locked s w = (Some (r, s'), w') \<Longrightarrow> s_closed s' = s_closed s"
  by (auto simp: compact_locked_def Let_def dest!: compact_install_closed elim!: bind_ioE returnE split: sum.splits prod.splits)

lemma Compact_parts:
  "perform DoCompact s = (case check DoCompact s of
     Inl err \<Rightarrow> return (Inl err, s)
   | Inr s1 \<Rightarrow> bind_io (under_mutex DoCompact s1) (\<lambda>(r, s2). return (r, leave DoCompact s2)))"
proof (rule ext)
  fix w
  consider "s_closed s \<or> s_readOnlyReason s \<noteq> None \<or> s_compacting s" | "\<not> s_closed s" "s_readOnlyReason s = None" "\<not> s_compacting s" by blast
  then show "perform DoCompact s w = (case check DoCompact s of
     Inl err \<Rightarrow> return (Inl err, s)
   | Inr s1 \<Rightarrow> bind_io (under_mutex DoCompact s1) (\<lambda>(r, s2). return (r, leave DoCompact s2))) w"
  proof cases
    case 1
    then show ?thesis by (cases "s_readOnlyReason s") (auto simp: Compact_def bind_io_def return_def silent_def)
  next
    case 2
    let ?m = "compact_locked (s\<lparr>s_compacting := True\<rparr>)"
    obtain x w' where x: "?m w = (x, w')" by fastforce
    have "\<not> s_closed s'" if "x = Some (r, s')" for r s' using compact_locked_closed [of _ w r s' w'] x that 2(1) by simp
    then have "s'\<lparr>s_compacting := False, s_closed := False\<rparr> = s'\<lparr>s_compacting := False\<rparr>" if "x = Some (r, s')" for r s'
      using that by (cases s') fastforce
    then show ?thesis
      using 2 x by (cases x) (auto simp: under_mutex_def idle_open leave_def Compact_def bind_io_def return_def silent_def)
  qed
qed

lemma perform_parts:
  "perform op s = (case check op s of
     Inl err \<Rightarrow> return (Inl err, s)
   | Inr s1 \<Rightarrow> bind_io (under_mutex op s1) (\<lambda>(r, s2). return (r, leave op s2)))"
proof (cases op)
  case (DoPut k v opts)
  show ?thesis
    by (rule ext) (auto simp: DoPut Put_def under_mutex_def idle_def leave_def bind_io_def return_def silent_def Let_def split: option.split sum.split prod.split)
next
  case (DoDelete k)
  show ?thesis
    by (rule ext) (auto simp: DoDelete Delete_def under_mutex_def idle_def leave_def bind_io_def return_def silent_def Let_def split: option.split sum.split prod.split)
next
  case (DoGet k)
  show ?thesis
    by (rule ext) (auto simp: DoGet Get_def under_mutex_def idle_def leave_def bind_io_def return_def silent_def Let_def split: option.split sum.split prod.split)
next
  case DoSync
  show ?thesis
    by (rule ext) (auto simp: DoSync Sync_def under_mutex_def idle_def leave_def bind_io_def return_def silent_def Let_def split: option.split sum.split prod.split)
next
  case DoCompact
  show ?thesis unfolding DoCompact by (rule Compact_parts)
qed

section \<open>The system\<close>

text \<open>
  The goroutine of \<^verbatim>\<open>startCompactionTask\<close> waits for its ticker, is about to call \<^verbatim>\<open>Compact\<close>,
  waits for the mutex in it, or has released the mutex and not yet returned.
\<close>

datatype phase = Waiting | Due | Running | Leaving

text \<open>
  Beside the store: the calls that have passed their checks and wait for the mutex, whether a
  caller's \<^verbatim>\<open>Compact\<close> has released the mutex and not yet its flag, and whether a
  call of \<^verbatim>\<open>Close\<close> is under way.
\<close>

record system =
  sys_store :: Store
  sys_calls :: "op list"
  sys_leaving :: bool
  sys_phase :: phase
  sys_closing :: bool

datatype label =
    Entered op
  | Refused op error
  | Called op reply
  | Late op reply
  | Reported "error list"
  | Silent
  | CloseStarted
  | CloseReturned "error + unit"
  | CloseAgain

text \<open>\<^verbatim>\<open>Close\<close> after the goroutines have returned.\<close>

definition close_rest :: "Store \<Rightarrow> ((error + unit) \<times> Store) io" where
  "close_rest s =
     bind_io (if SyncInterval (s_options s) \<ge> 0 then log_Sync (s_log s) else return (Inr ())) (\<lambda>syncErr.
     bind_io (log_Close (s_log s)) (\<lambda>(closeErr, log).
     bind_io (lock_release (s_lock s)) (\<lambda>(lockErr, lock).
     return (errors_Join [syncErr, closeErr, lockErr], s\<lparr>s_log := log, s_lock := lock\<rparr>))))"

lemma Close_rest: "\<not> s_closed s \<Longrightarrow> Close s = close_rest (s\<lparr>s_closed := True, s_syncTask := False, s_compactionTask := False\<rparr>)"
  by (simp add: Close_def close_rest_def)

definition finished :: "system \<Rightarrow> bool" where
  "finished y \<longleftrightarrow> s_closed (sys_store y) \<and> \<not> sys_closing y"

text \<open>
  A goroutine whose \<^verbatim>\<open>select\<close> finds both the ticker and the cancelled context ready may take
  either branch. The context is cancelled by \<^verbatim>\<open>Close\<close> after the flag is set.
\<close>

inductive sys_step :: "system \<Rightarrow> world \<Rightarrow> label \<Rightarrow> system \<Rightarrow> world \<Rightarrow> bool" where
  enter: "check op (sys_store y) = Inr s' \<Longrightarrow>
    sys_step y w (Entered op) (y\<lparr>sys_store := s', sys_calls := op # sys_calls y\<rparr>) w"
| refuse: "check op (sys_store y) = Inl err \<Longrightarrow> sys_step y w (Refused op err) y w"
| call: "op \<in> set (sys_calls y) \<Longrightarrow> under_mutex op (sys_store y) w = (Some (r, s'), w') \<Longrightarrow>
    sys_step y w (if finished y then Late op r else Called op r)
      (y\<lparr>sys_store := s', sys_calls := remove1 op (sys_calls y), sys_leaving := (sys_leaving y \<or> op = DoCompact)\<rparr>) w'"
| call_leave: "sys_leaving y \<Longrightarrow>
    sys_step y w Silent (y\<lparr>sys_store := leave DoCompact (sys_store y), sys_leaving := False\<rparr>) w"
| sync_turn: "s_syncTask (sys_store y) \<Longrightarrow> sync_tick (sys_store y) w = (Some (errs, s'), w') \<Longrightarrow>
    sys_step y w (Reported errs) (y\<lparr>sys_store := s'\<rparr>) w'"
| sync_done: "s_syncTask (sys_store y) \<Longrightarrow> s_closed (sys_store y) \<Longrightarrow>
    sys_step y w Silent (y\<lparr>sys_store := (sys_store y)\<lparr>s_syncTask := False\<rparr>\<rparr>) w"
| compaction_check: "s_compactionTask (sys_store y) \<Longrightarrow> sys_phase y = Waiting \<Longrightarrow>
    sys_step y w Silent (y\<lparr>sys_phase := (if NeedsCompaction (sys_store y) then Due else Waiting)\<rparr>) w"
| compaction_refused: "s_compactionTask (sys_store y) \<Longrightarrow> sys_phase y = Due \<Longrightarrow> check DoCompact (sys_store y) = Inl err \<Longrightarrow>
    sys_step y w (Reported (reportError (sys_store y) (Wrap ''automatic compaction'' [err]))) (y\<lparr>sys_phase := Waiting\<rparr>) w"
| compaction_enter: "s_compactionTask (sys_store y) \<Longrightarrow> sys_phase y = Due \<Longrightarrow> check DoCompact (sys_store y) = Inr s' \<Longrightarrow>
    sys_step y w Silent (y\<lparr>sys_store := s', sys_phase := Running\<rparr>) w"
| compaction_run: "s_compactionTask (sys_store y) \<Longrightarrow> sys_phase y = Running \<Longrightarrow> under_mutex DoCompact (sys_store y) w = (Some (r, s'), w') \<Longrightarrow>
    sys_step y w (Reported (case r of Inl err \<Rightarrow> reportError s' (Wrap ''automatic compaction'' [err]) | Inr _ \<Rightarrow> []))
      (y\<lparr>sys_store := s', sys_phase := Leaving\<rparr>) w'"
| compaction_leave: "s_compactionTask (sys_store y) \<Longrightarrow> sys_phase y = Leaving \<Longrightarrow>
    sys_step y w Silent (y\<lparr>sys_store := leave DoCompact (sys_store y), sys_phase := Waiting\<rparr>) w"
| compaction_done: "s_compactionTask (sys_store y) \<Longrightarrow> sys_phase y = Waiting \<Longrightarrow> s_closed (sys_store y) \<Longrightarrow>
    sys_step y w Silent (y\<lparr>sys_store := (sys_store y)\<lparr>s_compactionTask := False\<rparr>\<rparr>) w"
| close_start: "\<not> s_closed (sys_store y) \<Longrightarrow>
    sys_step y w CloseStarted (y\<lparr>sys_store := (sys_store y)\<lparr>s_closed := True\<rparr>, sys_closing := True\<rparr>) w"
| close_end: "sys_closing y \<Longrightarrow> \<not> s_syncTask (sys_store y) \<Longrightarrow> \<not> s_compactionTask (sys_store y) \<Longrightarrow>
    close_rest (sys_store y) w = (Some (r, s'), w') \<Longrightarrow> sys_step y w (CloseReturned r) (y\<lparr>sys_store := s', sys_closing := False\<rparr>) w'"
| close_again: "s_closed (sys_store y) \<Longrightarrow> sys_step y w CloseAgain y w"

inductive sys_run :: "system \<Rightarrow> world \<Rightarrow> label list \<Rightarrow> system \<Rightarrow> world \<Rightarrow> bool" where
  stop: "sys_run y w [] y w"
| step: "sys_step y w l y1 w1 \<Longrightarrow> sys_run y1 w1 ls y2 w2 \<Longrightarrow> sys_run y w (l # ls) y2 w2"

inductive_cases sys_runE: "sys_run y w (l # ls) y' w'"

section \<open>The map\<close>

text \<open>
  The specification: a map, the calls that have begun and not been answered, and whether
  the store is open, being closed, or closed. A call is answered by the map at one moment
  between its beginning and its end. A call that begins after \<^verbatim>\<open>Close\<close> did
  is refused with \<^verbatim>\<open>ErrStoreClosed\<close>. One that began before and gets the mutex only after
  \<^verbatim>\<open>Close\<close> has returned has no effect; it reports an error, or it is a read that gets its answer
  from the cache.
\<close>

datatype mode = Opened | Closing | Closed

type_synonym server = "mode \<times> op list \<times> db"

fun allowed :: "server \<Rightarrow> label \<Rightarrow> server \<Rightarrow> bool" where
  "allowed (m, ops, db) (Entered op) st \<longleftrightarrow> m = Opened \<and> st = (m, op # ops, db)"
| "allowed (m, ops, db) (Refused op err) st \<longleftrightarrow> st = (m, ops, db) \<and>
     (if m = Opened then op = DoCompact \<and> err = ErrCompactionInProgress else err = ErrStoreClosed)"
| "allowed (m, ops, db) (Called op r) st \<longleftrightarrow> m \<noteq> Closed \<and> op \<in> set ops \<and> (case r of
       Inl err \<Rightarrow> refused op db err \<and> st = (m, remove1 op ops, db)
     | Inr x \<Rightarrow> (\<forall>err. \<not> refused op db err) \<and> x = answer op db \<and> st = (m, remove1 op ops, effect op db))"
| "allowed (m, ops, db) (Late op r) st \<longleftrightarrow> m = Closed \<and> op \<in> set ops \<and> st = (m, remove1 op ops, db) \<and>
     (\<forall>x. r = Inr x \<longrightarrow> (\<exists>k. op = DoGet k) \<and> x = answer op db \<and> x \<noteq> None)"
| "allowed (m, ops, db) (Reported errs) st \<longleftrightarrow> st = (m, ops, db) \<and>
     (\<forall>err \<in> set errs. errors_Is err ErrCompactionInProgress \<or> m \<noteq> Opened \<and> errors_Is err ErrStoreClosed)"
| "allowed (m, ops, db) Silent st \<longleftrightarrow> st = (m, ops, db)"
| "allowed (m, ops, db) CloseStarted st \<longleftrightarrow> m = Opened \<and> st = (Closing, ops, db)"
| "allowed (m, ops, db) (CloseReturned r) st \<longleftrightarrow> m = Closing \<and> r = Inr () \<and> st = (Closed, ops, db)"
| "allowed (m, ops, db) CloseAgain st \<longleftrightarrow> m \<noteq> Opened \<and> st = (m, ops, db)"

inductive map_run :: "server \<Rightarrow> label list \<Rightarrow> server \<Rightarrow> bool" where
  map_stop: "map_run st [] st"
| map_step: "allowed st l st1 \<Longrightarrow> map_run st1 ls st2 \<Longrightarrow> map_run st (l # ls) st2"

text \<open>
  The arguments of a call are Go values; and no \<^verbatim>\<open>Compact\<close> of a caller that passed its
  checks before \<^verbatim>\<open>Close\<close> was called is still waiting for the mutex when \<^verbatim>\<open>Close\<close> has returned.
\<close>

fun label_ok :: "label \<Rightarrow> bool" where
  "label_ok (Entered op) \<longleftrightarrow> op_ok op"
| "label_ok (Late op r) \<longleftrightarrow> op \<noteq> DoCompact"
| "label_ok _ \<longleftrightarrow> True"

section \<open>The invariant\<close>

definition mode_of :: "system \<Rightarrow> mode" where
  "mode_of y = (if \<not> s_closed (sys_store y) then Opened else if sys_closing y then Closing else Closed)"

definition compactions :: "system \<Rightarrow> nat" where
  "compactions y = count_list (sys_calls y) DoCompact + of_bool (sys_leaving y) + of_bool (sys_phase y \<in> {Running, Leaving})"

definition sys_open :: "path \<Rightarrow> db \<Rightarrow> system \<Rightarrow> world \<Rightarrow> bool" where
  "sys_open p db y w \<longleftrightarrow> holds_db (idle (sys_store y)) p db w \<and> sys_closing y = s_closed (sys_store y)"

definition holds_closed :: "Store \<Rightarrow> path \<Rightarrow> db \<Rightarrow> world \<Rightarrow> bool" where
  "holds_closed s p db w \<longleftrightarrow> l_closed (s_log s) \<and> l_mapped (s_log s) = None \<and>
     (\<exists>es. indexes (s_index s) es \<and> coherent s es \<and> items_of es = db) \<and> db_on_disk p db w \<and> p @ lockFileSuffix \<notin> locked w"

definition sys_closed :: "path \<Rightarrow> db \<Rightarrow> system \<Rightarrow> world \<Rightarrow> bool" where
  "sys_closed p db y w \<longleftrightarrow> finished y \<and> \<not> s_syncTask (sys_store y) \<and> \<not> s_compactionTask (sys_store y) \<and>
     holds_closed (idle (sys_store y)) p db w"

definition sys_inv :: "path \<Rightarrow> db \<Rightarrow> system \<Rightarrow> world \<Rightarrow> bool" where
  "sys_inv p db y w \<longleftrightarrow> calm w \<and> \<not> ReadOnly (sys_store y) \<and> list_all op_ok (sys_calls y) \<and>
     compactions y = of_bool (s_compacting (sys_store y)) \<and> (sys_open p db y w \<or> sys_closed p db y w)"

lemma idle_tasks [simp]:
  "holds_db (idle (s\<lparr>s_syncTask := b\<rparr>)) p db w = holds_db (idle s) p db w"
  "holds_db (idle (s\<lparr>s_compactionTask := b\<rparr>)) p db w = holds_db (idle s) p db w"
  by (simp_all add: holds_db_def store_inv_def store_open_def coherent_def ReadOnly_def idle_def)

lemma ReadOnly_flags [simp]:
  "ReadOnly (s\<lparr>s_closed := b\<rparr>) = ReadOnly s" "ReadOnly (s\<lparr>s_syncTask := b\<rparr>) = ReadOnly s"
  "ReadOnly (s\<lparr>s_compactionTask := b\<rparr>) = ReadOnly s" "ReadOnly (s\<lparr>s_compacting := b\<rparr>) = ReadOnly s"
  by (simp_all add: ReadOnly_def)

lemma holds_db_flags: "holds_db s p db w \<Longrightarrow> \<not> s_closed s \<and> \<not> s_compacting s"
  by (auto simp: holds_db_def store_inv_def store_open_def)

section \<open>The steps of a call\<close>

lemma check_Inr:
  assumes "check op s = Inr s'"
  shows "\<not> s_closed s" "s' = (if op = DoCompact then s\<lparr>s_compacting := True\<rparr> else s)" "op = DoCompact \<Longrightarrow> \<not> s_compacting s"
  using assms by (auto split: if_splits op.splits option.splits)

lemma check_Inl:
  assumes "check op s = Inl err" "\<not> ReadOnly s"
  shows "if s_closed s then err = ErrStoreClosed else op = DoCompact \<and> err = ErrCompactionInProgress \<and> s_compacting s"
  using assms by (auto simp: ReadOnly_def split: if_splits op.splits option.splits)

lemma under_mutex_open:
  assumes st: "holds_db (idle s) p db w" "\<not> ReadOnly s" "calm w" "op_ok op" and r: "under_mutex op s w = (Some (r, s'), w')"
  shows "calm w' \<and> \<not> ReadOnly s' \<and> s_closed s' = s_closed s \<and> s_compacting s' = s_compacting s"
    and "case r of
      Inl err \<Rightarrow> refused op db err \<and> holds_db (idle s') p db w'
    | Inr x \<Rightarrow> (\<forall>err. \<not> refused op db err) \<and> x = answer op db \<and> holds_db (idle s') p (effect op db) w'"
proof -
  obtain t where t: "perform op (idle s) w = (Some (r, t), w')" "s' = t\<lparr>s_closed := s_closed s, s_compacting := s_compacting s\<rparr>"
    using r by (auto simp: under_mutex_def elim!: bind_ioE returnE)
  have post: "perform_post p op db (idle s) w (r, t) w'" using wp_runs [OF wp_perform [OF st(1) _ st(4)] t(1)] st(2) by simp
  show "calm w' \<and> \<not> ReadOnly s' \<and> s_closed s' = s_closed s \<and> s_compacting s' = s_compacting s"
    using post st(3) t(2) by (simp add: perform_post_def)
  have "idle s' = t" if "holds_db t p db' w'" for db' using holds_db_flags [OF that] t(2) idle_open by simp
  then show "case r of
      Inl err \<Rightarrow> refused op db err \<and> holds_db (idle s') p db w'
    | Inr x \<Rightarrow> (\<forall>err. \<not> refused op db err) \<and> x = answer op db \<and> holds_db (idle s') p (effect op db) w'"
    using post st(3) by (cases r) (auto simp: perform_post_def)
qed

lemma under_mutex_returns:
  assumes "holds_db (idle s) p db w" "\<not> ReadOnly s" "calm w" "op_ok op"
  shows "\<exists>r s' w'. under_mutex op s w = (Some (r, s'), w')"
proof -
  have "wp (perform op (idle s)) (perform_post p op db (idle s) w) (\<lambda>_. False) w"
    by (rule wp_mono [OF wp_perform]) (use assms in \<open>auto simp: perform_crash_def\<close>)
  from wp_total [OF this] show ?thesis by (auto simp: under_mutex_def bind_io_def return_def)
qed

text \<open>On a log that was closed every access to the file fails, and nothing is changed.\<close>

lemma Append_closed:
  assumes "l_closed l"
  shows "\<exists>err l'. Append l key v del attrs ext w = (Some (Inl err, l'), w) \<and> l_closed l' \<and> l_mapped l' = l_mapped l"
  using assms by (auto simp: Append_def Let_def on_handle_def bind_io_def return_def split: sum.split prod.split)

lemma ReadRecordAt_closed:
  assumes "l_closed l" "l_mapped l = None"
  shows "\<exists>err. ReadRecordAt l off sz pooled w = (Some (Inl err), w)"
  using assms by (auto simp: ReadRecordAt_def mappedRecord_def readRecordFromFile_def Let_def on_handle_def bind_io_def return_def split: sum.split)

lemma late_mutation:
  assumes st: "holds_closed s p db w" "\<not> ReadOnly s" and op: "\<exists>k v opts. op = DoPut k v opts \<or> op = DoDelete k"
  shows "\<exists>err s'. perform op s w = (Some (Inl err, s'), w) \<and> holds_closed s' p db w \<and> \<not> ReadOnly s' \<and>
    s_syncTask s' = s_syncTask s \<and> s_compactionTask s' = s_compactionTask s"
proof -
  have l: "l_closed (s_log s)" "l_mapped (s_log s) = None" using st(1) by (simp_all add: holds_closed_def)
  have keep: "holds_closed (s\<lparr>s_log := l'\<rparr>) p db w \<and> \<not> ReadOnly (s\<lparr>s_log := l'\<rparr>)" if "l_closed l'" "l_mapped l' = None" for l'
    using that st by (simp add: holds_closed_def coherent_def ReadOnly_def)
  have same: "holds_closed s p db w" "\<not> ReadOnly s" using st .
  from op consider k v opts where "op = DoPut k v opts" | k where "op = DoDelete k" by blast
  then show ?thesis
  proof cases
    case 1
    obtain err l' where "Append (s_log s) k v False (put_attributes opts) [] w = (Some (Inl err, l'), w)" "l_closed l'" "l_mapped l' = None"
      using Append_closed [OF l(1)] l(2) by metis
    then show ?thesis using keep [of l'] same
      by (auto simp: 1 Put_def put_attributes_def bind_io_def return_def silent_def Let_def split: option.split)
  next
    case 2
    obtain err l' where "Append (s_log s) k [] True [] [] w = (Some (Inl err, l'), w)" "l_closed l'" "l_mapped l' = None"
      using Append_closed [OF l(1)] l(2) by metis
    then show ?thesis using keep [of l'] same
      by (auto simp: 2 Delete_def bind_io_def return_def silent_def Let_def split: option.split)
  qed
qed

lemma late_Get:
  assumes st: "holds_closed s p db w" "\<not> ReadOnly s"
  shows "\<exists>r s'. Get pooled s k w = (Some (r, s'), w) \<and> holds_closed s' p db w \<and> \<not> ReadOnly s' \<and>
    s_syncTask s' = s_syncTask s \<and> s_compactionTask s' = s_compactionTask s \<and> (\<forall>v. r = Inr v \<longrightarrow> map_option it_value (db k) = Some v)"
proof -
  obtain es where es: "indexes (s_index s) es" "cache_inv (s_cache s)" "map_of (recency (s_cache s)) \<subseteq>\<^sub>m values_of es" "items_of es = db"
    using st(1) by (auto simp: holds_closed_def coherent_def)
  obtain hit c where hit: "cache_Get (s_cache s) k = (hit, c)" by fastforce
  have c: "map_of (recency c) \<subseteq>\<^sub>m values_of es" "cache_inv c" "\<And>v. hit = Some v \<Longrightarrow> map_option it_value (db k) = Some v"
    using lru.coherent_lookup [OF es(2,3) hit] es(4) by (auto simp: values_of_def)
  have keep: "holds_closed (s\<lparr>s_cache := c\<rparr>) p db w \<and> holds_closed (s\<lparr>s_cache := c, s_stats := t\<rparr>) p db w" for t
    using st(1) es(1,4) c(1,2) by (auto simp: holds_closed_def coherent_def)
  have "\<exists>err. ReadRecordAt (s_log s) (ie_RecordOffset en) (ie_StoredSize en) pooled w = (Some (Inl err), w)" for en :: indexEntry
    using st(1) ReadRecordAt_closed by (simp add: holds_closed_def)
  then obtain err where "\<And>en :: indexEntry. ReadRecordAt (s_log s) (ie_RecordOffset en) (ie_StoredSize en) pooled w = (Some (Inl (err en)), w)" by metis
  then show ?thesis
    using st keep hit c(3) by (auto simp: Get_def bind_io_def return_def Let_def ReadOnly_def split: option.split sum.split)
qed

lemma late_perform:
  assumes st: "holds_closed s p db w" "\<not> ReadOnly s" and op: "op \<noteq> DoCompact" and r: "perform op s w = (Some (r, s'), w')"
  shows "w' = w \<and> holds_closed s' p db w \<and> \<not> ReadOnly s' \<and> s_syncTask s' = s_syncTask s \<and> s_compactionTask s' = s_compactionTask s \<and>
    (\<forall>x. r = Inr x \<longrightarrow> (\<exists>k. op = DoGet k) \<and> x = answer op db \<and> x \<noteq> None)"
proof -
  consider "\<exists>k v opts. op = DoPut k v opts \<or> op = DoDelete k" | k where "op = DoGet k" | "op = DoSync" using op by (cases op) auto
  then show ?thesis
  proof cases
    case 1
    then show ?thesis using late_mutation [OF st 1] r by auto
  next
    case 2
    then show ?thesis using late_Get [OF st, of "[]" k] r by (auto simp: bind_io_def return_def split: sum.splits)
  next
    case 3
    then show ?thesis
      using st r by (auto simp: Sync_def log_Sync_def file_sync_def on_handle_def holds_closed_def bind_io_def return_def silent_def split: if_splits)
  qed
qed

lemma under_mutex_late:
  assumes st: "holds_closed (idle s) p db w" "\<not> ReadOnly s" and op: "op \<noteq> DoCompact" and r: "under_mutex op s w = (Some (r, s'), w')"
  shows "w' = w \<and> holds_closed (idle s') p db w \<and> \<not> ReadOnly s' \<and> s_closed s' = s_closed s \<and> s_compacting s' = s_compacting s \<and>
    s_syncTask s' = s_syncTask s \<and> s_compactionTask s' = s_compactionTask s \<and>
    (\<forall>x. r = Inr x \<longrightarrow> (\<exists>k. op = DoGet k) \<and> x = answer op db \<and> x \<noteq> None)"
proof -
  obtain t where t: "perform op (idle s) w = (Some (r, t), w')" "s' = t\<lparr>s_closed := s_closed s, s_compacting := s_compacting s\<rparr>"
    using r by (auto simp: under_mutex_def elim!: bind_ioE returnE)
  have "holds_closed (idle s') p db w = holds_closed t p db w" using t(2) by (simp add: holds_closed_def coherent_def)
  then show ?thesis using late_perform [OF st(1) _ op t(1)] st(2) t(2) by (simp add: idle_def)
qed

section \<open>The steps of the goroutines and of Close\<close>

lemma sync_tick_calm:
  assumes st: "holds_db (idle s) p db w" "\<not> ReadOnly s" "calm w" and r: "sync_tick s w = (Some (errs, s'), w')"
  shows "errs = [] \<and> s' = s \<and> calm w' \<and> holds_db (idle s) p db w'"
proof -
  have ro: "\<not> ReadOnly (idle s)" using st(2) by simp
  obtain es f where es: "store_inv (idle s) p es [] w" "items_of es = db" "files w p = Some f" "log_holds (s_log (idle s)) es [] f"
    using st(1) ro by (rule holds_writable)
  have l: "\<not> l_closed (s_log s)" "l_path (s_log s) = p" using es(1,4) by (auto simp: store_inv_def store_open_def log_holds_def)
  have inv: "store_inv (idle s) p es [] (set_file p (Some (f\<lparr>durable := content f\<rparr>)) (w\<lparr>faults := fs\<rparr>))" for fs
    using es by (simp add: store_inv_def store_open_def log_holds_def)
  have "wp (sync_tick s) (\<lambda>(errs, s') w'. errs = [] \<and> s' = s \<and> calm w' \<and> holds_db (idle s) p db w') (\<lambda>_. False) w"
    unfolding sync_tick_def wp_bind
    by (rule log_Sync_open [OF l(1), of _ f]) (use st(3) l(2) es(3) holds_dbI [OF inv es(2)] in \<open>auto simp: wp_return still_def\<close>)
  from wp_runs [OF this r] show ?thesis by simp
qed

lemma log_Close_closed: "log_Close l w = (Some (r, l'), w') \<Longrightarrow> l_closed l' \<and> l_mapped l' = None"
  by (auto simp: log_Close_def ignore_io_def elim!: bind_ioE returnE split: option.splits)

lemma close_rest_shape:
  assumes "close_rest s w = (Some (r, s'), w')"
  shows "\<exists>l k. s' = s\<lparr>s_log := l, s_lock := k\<rparr> \<and> l_closed l \<and> l_mapped l = None"
proof -
  obtain e w1 c l w2 d k where "log_Close (s_log s) w1 = (Some (c, l), w2)" "(r, s') = (errors_Join [e, c, d], s\<lparr>s_log := l, s_lock := k\<rparr>)"
    using assms unfolding close_rest_def by (auto elim!: bind_ioE returnE split: prod.splits)
  then show ?thesis using log_Close_closed by blast
qed

lemma close_rest_flag: "map_prod (map_option (map_prod id (s_compacting_update (\<lambda>_. b)))) id (close_rest s w) = close_rest (s\<lparr>s_compacting := b\<rparr>) w"
  by (auto simp: close_rest_def bind_io_def return_def split: option.splits prod.splits)

lemma wp_close_idle:
  assumes st: "holds_db (idle s) p db w" "\<not> ReadOnly s" "calm w" and s: "s_closed s" "\<not> s_syncTask s" "\<not> s_compactionTask s"
  shows "wp (close_rest (s\<lparr>s_compacting := False\<rparr>)) (\<lambda>(r, s') w'. r = Inr () \<and> calm w' \<and> db_on_disk p db w' \<and> p @ lockFileSuffix \<notin> locked w') (\<lambda>_. False) w"
proof -
  have "(idle s)\<lparr>s_closed := True, s_syncTask := False, s_compactionTask := False\<rparr> = s\<lparr>s_compacting := False\<rparr>"
    using s by (cases s) (simp add: idle_def)
  then have eq: "close_rest (s\<lparr>s_compacting := False\<rparr>) = Close (idle s)" using Close_rest [of "idle s"] by simp
  show ?thesis
    unfolding eq
    by (rule wp_mono [OF wp_Close_store]) (use st in \<open>auto simp: close_post_def intro: db_on_disk_main\<close>)
qed

lemma close_rest_calm:
  assumes st: "holds_db (idle s) p db w" "\<not> ReadOnly s" "calm w" and s: "s_closed s" "\<not> s_syncTask s" "\<not> s_compactionTask s"
  shows "\<exists>s' w'. close_rest s w = (Some (Inr (), s'), w') \<and> calm w' \<and> \<not> ReadOnly s' \<and> holds_closed (idle s') p db w' \<and>
    s_closed s' \<and> s_compacting s' = s_compacting s \<and> \<not> s_syncTask s' \<and> \<not> s_compactionTask s'"
proof -
  note wp = wp_close_idle [OF st s]
  obtain r t w' where t: "close_rest (s\<lparr>s_compacting := False\<rparr>) w = (Some (r, t), w')" using wp_total [OF wp] by auto
  note post = wp_runs [OF wp t]
  obtain s' where s': "close_rest s w = (Some (r, s'), w')"
    using close_rest_flag [of False s w] t by (auto simp: map_prod_def split: prod.splits)
  obtain l k where lk: "s' = s\<lparr>s_log := l, s_lock := k\<rparr>" "l_closed l" "l_mapped l = None" using close_rest_shape [OF s'] by blast
  obtain es where "indexes (s_index s) es" "coherent s' es" "items_of es = db"
    using st(1) lk(1) by (auto simp: holds_db_def store_inv_def coherent_def)
  then have "holds_closed (idle s') p db w'"
    using post lk by (auto simp: holds_closed_def coherent_def)
  then show ?thesis using post s' lk(1) st(2) s by (auto simp: ReadOnly_def)
qed

section \<open>Every interleaving\<close>

lemma check_compactions:
  assumes "check op (sys_store y) = Inr s'" "compactions y = of_bool (s_compacting (sys_store y))"
  shows "compactions (y\<lparr>sys_store := s', sys_calls := op # sys_calls y\<rparr>) = of_bool (s_compacting s')"
  using check_Inr [OF assms(1)] assms(2) by (auto simp: compactions_def)

lemma count_list_remove1:
  assumes "x \<in> set xs"
  shows "count_list xs x = Suc (count_list (remove1 x xs) x)" "y \<noteq> x \<Longrightarrow> count_list xs y = count_list (remove1 x xs) y"
  using assms by (induction xs) auto

lemma call_compactions:
  assumes op: "op \<in> set (sys_calls y)" and c: "compactions y = of_bool b"
  shows "compactions (y\<lparr>sys_store := s, sys_calls := remove1 op (sys_calls y), sys_leaving := (sys_leaving y \<or> op = DoCompact)\<rparr>) = compactions y"
proof (cases "op = DoCompact")
  case True
  define n where "n = count_list (remove1 DoCompact (sys_calls y)) DoCompact"
  have "count_list (sys_calls y) DoCompact = Suc n" using count_list_remove1(1) [OF op] True by (simp add: n_def)
  moreover from this have "\<not> sys_leaving y" using c by (cases b) (auto simp: compactions_def)
  ultimately show ?thesis using True by (simp add: compactions_def n_def [symmetric])
next
  case False
  then show ?thesis using count_list_remove1(2) [OF op, of DoCompact] by (simp add: compactions_def)
qed

lemma leave_compactions:
  assumes "compactions y = of_bool b"
  shows "sys_leaving y \<Longrightarrow> compactions (y\<lparr>sys_store := s, sys_leaving := False\<rparr>) = 0"
    and "sys_phase y = Leaving \<Longrightarrow> compactions (y\<lparr>sys_store := s, sys_phase := Waiting\<rparr>) = 0"
  using assms by (cases b; auto simp: compactions_def split: if_splits)+

lemma sys_inv_enter:
  assumes inv: "sys_inv p db y w" and c: "check op (sys_store y) = Inr s'" and ok: "op_ok op"
  shows "sys_inv p db (y\<lparr>sys_store := s', sys_calls := op # sys_calls y\<rparr>) w" "\<not> s_closed s'"
proof -
  note s' = check_Inr [OF c]
  show "\<not> s_closed s'" using s' by simp
  show "sys_inv p db (y\<lparr>sys_store := s', sys_calls := op # sys_calls y\<rparr>) w"
    using inv check_compactions [OF c] s' ok by (auto simp: sys_inv_def sys_open_def sys_closed_def finished_def split: if_splits)
qed

lemma sys_inv_call:
  assumes inv: "sys_inv p db y w" and op: "op \<in> set (sys_calls y)" and r: "under_mutex op (sys_store y) w = (Some (r, s'), w')"
    and late: "finished y \<Longrightarrow> op \<noteq> DoCompact"
  defines "y' \<equiv> y\<lparr>sys_store := s', sys_calls := remove1 op (sys_calls y), sys_leaving := (sys_leaving y \<or> op = DoCompact)\<rparr>"
  shows "\<exists>db'. allowed (mode_of y, sys_calls y, db) (if finished y then Late op r else Called op r) (mode_of y', sys_calls y', db') \<and> sys_inv p db' y' w'"
proof -
  have i: "calm w" "\<not> ReadOnly (sys_store y)" "list_all op_ok (sys_calls y)" "compactions y = of_bool (s_compacting (sys_store y))" "op_ok op"
    using inv op by (auto simp: sys_inv_def list_all_iff)
  have oks: "list_all op_ok (sys_calls y')" using i(3) set_remove1_subset [of op "sys_calls y"] by (auto simp: y'_def list_all_iff)
  have cs: "compactions y' = compactions y" unfolding y'_def by (rule call_compactions [OF op i(4)])
  show ?thesis
  proof (cases "finished y")
    case True
    then have "sys_closed p db y w" using inv by (auto simp: sys_inv_def sys_open_def finished_def)
    then have c: "holds_closed (idle (sys_store y)) p db w" "\<not> s_syncTask (sys_store y)" "\<not> s_compactionTask (sys_store y)"
      by (simp_all add: sys_closed_def)
    note post = under_mutex_late [OF c(1) i(2) late [OF True] r]
    have m: "mode_of y' = Closed" "mode_of y = Closed" "finished y'" using True post by (simp_all add: finished_def mode_of_def y'_def)
    have "sys_inv p db y' w'"
      using post c(2,3) m(3) i(1,4) oks cs by (simp add: sys_inv_def sys_closed_def y'_def)
    then show ?thesis using post m True op by (intro exI [of _ db]) (simp add: y'_def)
  next
    case False
    then have o: "sys_open p db y w" using inv by (auto simp: sys_inv_def sys_closed_def)
    then have h: "holds_db (idle (sys_store y)) p db w" "sys_closing y = s_closed (sys_store y)" by (simp_all add: sys_open_def)
    note post = under_mutex_open [OF h(1) i(2,1,5) r]
    have m: "mode_of y' = mode_of y" "mode_of y \<noteq> Closed" using post(1) h(2) by (auto simp: mode_of_def y'_def)
    have new: "sys_inv p db' y' w'" if "holds_db (idle s') p db' w'" for db'
      using that post(1) h(2) oks cs i(4) by (simp add: sys_inv_def sys_open_def y'_def)
    show ?thesis
    proof (cases r)
      case (Inl err)
      then have "refused op db err" "sys_inv p db y' w'" using post(2) new by auto
      then show ?thesis using Inl m False op by (intro exI [of _ db]) (simp add: y'_def)
    next
      case (Inr x)
      then have "\<forall>err. \<not> refused op db err" "x = answer op db" "sys_inv p (effect op db) y' w'" using post(2) new by auto
      then show ?thesis using Inr m False op by (intro exI [of _ "effect op db"]) (simp add: y'_def)
    qed
  qed
qed

lemma sys_inv_compaction:
  assumes inv: "sys_inv p db y w" and ph: "s_compactionTask (sys_store y)" "sys_phase y = Running"
    and r: "under_mutex DoCompact (sys_store y) w = (Some (r, s'), w')"
  shows "sys_inv p db (y\<lparr>sys_store := s', sys_phase := Leaving\<rparr>) w'" "\<exists>x. r = Inr x" "s_closed s' = s_closed (sys_store y)"
proof -
  have i: "calm w" "\<not> ReadOnly (sys_store y)" "compactions y = of_bool (s_compacting (sys_store y))" "sys_open p db y w"
    using inv ph by (auto simp: sys_inv_def sys_closed_def)
  have h: "holds_db (idle (sys_store y)) p db w" using i(4) by (simp add: sys_open_def)
  note post = under_mutex_open [OF h i(2,1) _ r]
  show x: "\<exists>x. r = Inr x" using post(2) by (cases r) auto
  show "s_closed s' = s_closed (sys_store y)" using post(1) by simp
  show "sys_inv p db (y\<lparr>sys_store := s', sys_phase := Leaving\<rparr>) w'"
    using inv i post x ph(2) by (auto simp: sys_inv_def sys_open_def compactions_def)
qed

lemma sys_inv_step:
  assumes "sys_step y w l y' w'" "sys_inv p db y w" "label_ok l"
  shows "\<exists>db'. allowed (mode_of y, sys_calls y, db) l (mode_of y', sys_calls y', db') \<and> sys_inv p db' y' w'"
  using assms
proof (cases rule: sys_step.cases)
  case (enter op s')
  then show ?thesis
    using sys_inv_enter [OF assms(2) enter(4)] assms(3) check_Inr(1) [OF enter(4)] by (intro exI [of _ db]) (auto simp: mode_of_def)
next
  case (refuse op err)
  then show ?thesis
    using check_Inl [OF refuse(4)] assms(2) by (intro exI [of _ db]) (auto simp: mode_of_def sys_inv_def split: if_splits)
next
  case (call op r s')
  then show ?thesis using sys_inv_call [OF assms(2) call(3,4)] assms(3) by auto
next
  case call_leave
  then show ?thesis
    using assms(2) leave_compactions(1) [of y _ "leave DoCompact (sys_store y)"]
    by (intro exI [of _ db]) (auto simp: sys_inv_def sys_open_def sys_closed_def finished_def mode_of_def leave_def)
next
  case compaction_leave
  then show ?thesis
    using assms(2) leave_compactions(2) [of y _ "leave DoCompact (sys_store y)"]
    by (intro exI [of _ db]) (auto simp: sys_inv_def sys_open_def sys_closed_def finished_def mode_of_def leave_def)
next
  case (sync_turn errs s')
  then have o: "sys_open p db y w" "\<not> ReadOnly (sys_store y)" "calm w" using assms(2) by (auto simp: sys_inv_def sys_closed_def)
  then show ?thesis
    using sync_tick_calm [OF _ o(2,3) sync_turn(4)] sync_turn(1,2) assms(2)
    by (intro exI [of _ db]) (auto simp: sys_open_def sys_inv_def mode_of_def compactions_def)
next
  case (compaction_refused err)
  then show ?thesis
    using check_Inl [OF compaction_refused(6)] assms(2)
    by (intro exI [of _ db])
      (auto simp: mode_of_def sys_inv_def sys_open_def sys_closed_def finished_def compactions_def reportError_def split: if_splits option.splits)
next
  case (compaction_enter s')
  note s' = check_Inr [OF compaction_enter(6)]
  then show ?thesis
    using compaction_enter assms(2)
    by (intro exI [of _ db]) (auto simp: mode_of_def sys_inv_def sys_open_def sys_closed_def finished_def compactions_def)
next
  case (compaction_run r s')
  then show ?thesis
    using sys_inv_compaction [OF assms(2) compaction_run(3,4,5)] by (intro exI [of _ db]) (auto simp: mode_of_def)
next
  case (close_end r s')
  then have o: "sys_open p db y w" "\<not> ReadOnly (sys_store y)" "calm w" using assms(2) by (auto simp: sys_inv_def sys_closed_def finished_def)
  then have c: "s_closed (sys_store y)" "holds_db (idle (sys_store y)) p db w" using close_end by (auto simp: sys_open_def)
  from close_rest_calm [OF c(2) o(2,3) c(1) close_end(4,5)] show ?thesis
    using close_end c(1) assms(2) by (intro exI [of _ db]) (auto simp: sys_inv_def sys_closed_def finished_def mode_of_def compactions_def)
qed (auto simp: sys_inv_def sys_open_def sys_closed_def finished_def mode_of_def compactions_def leave_def intro!: exI [of _ db])

lemma sys_inv_run:
  assumes "sys_run y w ls y' w'" "sys_inv p db y w" "list_all label_ok ls"
  shows "\<exists>db'. map_run (mode_of y, sys_calls y, db) ls (mode_of y', sys_calls y', db') \<and> sys_inv p db' y' w'"
  using assms
proof (induction arbitrary: db rule: sys_run.induct)
  case (stop y w)
  then show ?case using map_stop by blast
next
  case (step y w l y1 w1 ls y2 w2)
  then obtain db1 where 1: "allowed (mode_of y, sys_calls y, db) l (mode_of y1, sys_calls y1, db1)" "sys_inv p db1 y1 w1"
    using sys_inv_step [OF step.hyps(1) step.prems(1)] by auto
  obtain db' where "map_run (mode_of y1, sys_calls y1, db1) ls (mode_of y2, sys_calls y2, db')" "sys_inv p db' y2 w2"
    using step.IH [OF 1(2)] step.prems(2) by auto
  then show ?case using map_step [OF 1(1)] by blast
qed

text \<open>A call of \<^verbatim>\<open>Close\<close> is never stuck: the goroutines can return, and then it does.\<close>

lemma sys_run_trans: "sys_run y w ls y1 w1 \<Longrightarrow> sys_run y1 w1 ls' y2 w2 \<Longrightarrow> sys_run y w (ls @ ls') y2 w2"
  by (induction rule: sys_run.induct) (auto intro: sys_run.intros)

definition closes :: "path \<Rightarrow> db \<Rightarrow> system \<Rightarrow> world \<Rightarrow> bool" where
  "closes p db y w \<longleftrightarrow> (\<exists>ls y' w'. sys_run y w ls y' w' \<and> sys_closed p db y' w')"

lemma closes_step:
  assumes "sys_step y w l y1 w1" "closes p db y1 w1"
  shows "closes p db y w"
  using assms sys_run.step unfolding closes_def by blast

lemma closes_end:
  assumes inv: "sys_inv p db y w" and c: "s_closed (sys_store y)" "\<not> s_syncTask (sys_store y)" "\<not> s_compactionTask (sys_store y)"
  shows "closes p db y w"
proof (cases "sys_closed p db y w")
  case True
  then show ?thesis using sys_run.stop closes_def by blast
next
  case False
  then have o: "holds_db (idle (sys_store y)) p db w" "sys_closing y" "\<not> ReadOnly (sys_store y)" "calm w"
    using inv c by (auto simp: sys_inv_def sys_open_def)
  obtain s' w' where s': "close_rest (sys_store y) w = (Some (Inr (), s'), w')" "holds_closed (idle s') p db w'"
    "s_closed s'" "\<not> s_syncTask s'" "\<not> s_compactionTask s'" using close_rest_calm [OF o(1,3,4) c] by blast
  show ?thesis
    by (rule closes_step [OF close_end [OF o(2) c(2,3) s'(1)]], unfold closes_def)
      (use s' sys_run.stop in \<open>fastforce simp: sys_closed_def finished_def\<close>)
qed

lemma closes_sync:
  assumes inv: "sys_inv p db y w" and c: "s_closed (sys_store y)" "\<not> s_compactionTask (sys_store y)"
  shows "closes p db y w"
proof (cases "s_syncTask (sys_store y)")
  case True
  let ?y = "y\<lparr>sys_store := (sys_store y)\<lparr>s_syncTask := False\<rparr>\<rparr>"
  have st: "sys_step y w Silent ?y w" by (rule sync_done [OF True c(1)])
  have "sys_inv p db ?y w" using sys_inv_step [OF st inv] by auto
  then show ?thesis using closes_step [OF st closes_end] c by simp
qed (use closes_end [OF inv] c in simp)

lemma closes_waiting:
  assumes inv: "sys_inv p db y w" and c: "s_closed (sys_store y)" "sys_phase y = Waiting"
  shows "closes p db y w"
proof (cases "s_compactionTask (sys_store y)")
  case True
  let ?y = "y\<lparr>sys_store := (sys_store y)\<lparr>s_compactionTask := False\<rparr>\<rparr>"
  have st: "sys_step y w Silent ?y w" by (rule compaction_done [OF True c(2,1)])
  have "sys_inv p db ?y w" using sys_inv_step [OF st inv] by auto
  then show ?thesis using closes_step [OF st closes_sync] c by simp
qed (use closes_sync [OF inv] c in simp)

lemma closes_leaving:
  assumes inv: "sys_inv p db y w" and c: "s_closed (sys_store y)" "sys_phase y = Leaving"
  shows "closes p db y w"
proof (cases "s_compactionTask (sys_store y)")
  case True
  let ?y = "y\<lparr>sys_store := leave DoCompact (sys_store y), sys_phase := Waiting\<rparr>"
  have st: "sys_step y w Silent ?y w" by (rule compaction_leave [OF True c(2)])
  have "sys_inv p db ?y w" using sys_inv_step [OF st inv] by auto
  then show ?thesis using closes_step [OF st closes_waiting] c by (simp add: leave_def)
qed (use closes_sync [OF inv] c in simp)

lemma Close_returns:
  assumes inv: "sys_inv p db y w" and c: "s_closed (sys_store y)"
  shows "closes p db y w"
proof (cases "s_compactionTask (sys_store y)")
  case True
  show ?thesis
  proof (cases "sys_phase y")
    case Due
    have st: "sys_step y w (Reported (reportError (sys_store y) (Wrap ''automatic compaction'' [ErrStoreClosed]))) (y\<lparr>sys_phase := Waiting\<rparr>) w"
      by (rule compaction_refused [OF True Due]) (use c in simp)
    have "sys_inv p db (y\<lparr>sys_phase := Waiting\<rparr>) w" using inv Due by (auto simp: sys_inv_def sys_open_def sys_closed_def finished_def compactions_def)
    then show ?thesis using closes_step [OF st closes_waiting] c by simp
  next
    case Running
    have "holds_db (idle (sys_store y)) p db w" "\<not> ReadOnly (sys_store y)" "calm w" "op_ok DoCompact"
      using inv True by (auto simp: sys_inv_def sys_open_def sys_closed_def)
    from under_mutex_returns [OF this] obtain r s' w' where r: "under_mutex DoCompact (sys_store y) w = (Some (r, s'), w')" by blast
    show ?thesis
      using closes_step [OF compaction_run [OF True Running r] closes_leaving] sys_inv_compaction [OF inv True Running r] c by simp
  qed (use closes_waiting [OF inv c] closes_leaving [OF inv c] in simp_all)
qed (use closes_sync [OF inv c] in simp)



end
