(* ===== verification/Spec2Isabelle.thy ===== *)
theory Spec2Isabelle
  imports DowngradeSpec Interleaving
begin

text \<open>
  A model of \<^verbatim>\<open>appendstore\<close>, an embedded key-value store on one append-only log file,
  and its correctness.

  \<^bold>\<open>The program.\<close> A store (\<^verbatim>\<open>store.go\<close>) keeps its data in a log (\<^verbatim>\<open>log.go\<close>): a header of
  sixteen bytes and then one checksummed record per \<^verbatim>\<open>Put\<close> or \<^verbatim>\<open>Delete\<close>. In memory an
  index (\<^verbatim>\<open>index.go\<close>) leads from a key to its last record and from attribute values to
  keys, and an LRU cache (\<^verbatim>\<open>cache.go\<close>) holds values. \<^verbatim>\<open>Open\<close> takes an advisory lock
  (\<^verbatim>\<open>lock.go\<close>), completes or undoes an interrupted compaction, scans the log into the index,
  cuts off a torn tail, and migrates logs of versions 1 to 4. \<^verbatim>\<open>Compact\<close> copies the
  live records to a new file and installs it with two renames. Two goroutines sync and compact in the
  background. \<^verbatim>\<open>Downgrade\<close> (\<^verbatim>\<open>downgrade.go\<close>) and the tool around it write the live
  records back in version 3 or 4.

  \<^bold>\<open>How the code is represented.\<close> Structs are records, with a prefix on the fields where two
  structs share a name; bytes are 8-bit words; fixed-width integers that are stored are
  words; file positions and lengths are natural numbers; Go maps are association lists with
  distinct keys (\<open>go_map\<close>) or functions to options. An error is a value of \<open>error\<close>, a fallible result a sum
  \<open>error + 'a\<close>, a run-time panic the error \<open>Panic\<close>. Code that performs system calls
  is a function on a \<open>world\<close> (\<^verbatim>\<open>OsModel\<close>): files with their content and the part of it that
  is durable, the locks held, and a list of faults that says of each call to come whether it
  succeeds, fails, possibly after a part of a write, or is the last one before the process dies.
  \<open>wp m Q C w\<close> says that \<open>m\<close>, run in \<open>w\<close>, returns in a state with \<open>Q\<close> or dies in one with
  \<open>C\<close>; so the specifications cover every failing call and every point of a crash.
  \<open>calm w\<close> says that no call fails.

  \<^bold>\<open>Theories.\<close>
    \<^item> \<^verbatim>\<open>Prelude\<close>, \<^verbatim>\<open>GoStd\<close>: errors, sums, slices, Go maps; what the code uses of
      \<^verbatim>\<open>encoding/binary\<close>, \<^verbatim>\<open>io\<close> and \<^verbatim>\<open>bufio\<close>.
    \<^item> \<^verbatim>\<open>Checksum\<close>: CRC-32C bit by bit, hashing in pieces, and that a change of
      up to four consecutive bytes changes the checksum.
    \<^item> \<^verbatim>\<open>Attributes\<close>: \<^verbatim>\<open>encodeAttributes\<close> and \<^verbatim>\<open>decodeAttributes\<close> of \<^verbatim>\<open>log.go\<close>; they are
      inverse on exactly the maps within the limits, and the decoder accepts exactly the
      well-formed blocks.
    \<^item> \<^verbatim>\<open>Records\<close>: the record layout of versions 4 and 5, the buffer that \<^verbatim>\<open>Append\<close> fills,
      \<^verbatim>\<open>readRecordFrom\<close>, \<^verbatim>\<open>validateStoredRecord\<close>; round trip, torn records, damaged records,
      no panic.
    \<^item> \<^verbatim>\<open>Legacy\<close>: \<^verbatim>\<open>readLegacyRecordFrom\<close> for versions 1 to 3, with \<^verbatim>\<open>strconv\<close>.
    \<^item> \<^verbatim>\<open>Cache\<close>, \<^verbatim>\<open>Index\<close>: all operations, with refinement to a recency list and to a map, and
      the locales \<open>value_cache\<close> and \<open>entry_index\<close> through which the store uses them.
    \<^item> \<^verbatim>\<open>OsModel\<close>: the operating system and the rules for \<open>wp\<close>.
    \<^item> \<^verbatim>\<open>AppendLog\<close>: the definitions of the log (header, open, create, append, memory map, random
      access, scan, recovery of compaction files), and the locale \<open>record_format\<close> that the
      record readers of all versions satisfy. \<^verbatim>\<open>LogScan\<close> proves the scan correct on arbitrary
      bytes, \<^verbatim>\<open>LogAccess\<close> the other operations.
    \<^item> \<^verbatim>\<open>FileLock\<close>: \<^verbatim>\<open>lock.go\<close> and \<^verbatim>\<open>lock_unix.go\<close>.
    \<^item> \<^verbatim>\<open>Store\<close>: the state and every operation of \<^verbatim>\<open>store.go\<close> on an open store. \<^verbatim>\<open>StoreInv\<close>: the
      abstraction to a map from keys to items, the invariant, and the operations
      against it.
    \<^item> \<^verbatim>\<open>Compaction\<close>: \<^verbatim>\<open>Compact\<close> with every way out, and what is on disk after each.
    \<^item> \<^verbatim>\<open>StoreOpen\<close>, \<^verbatim>\<open>OpenSpec\<close>: \<^verbatim>\<open>Open\<close>, \<^verbatim>\<open>recover\<close>, \<^verbatim>\<open>migrate\<close>, \<^verbatim>\<open>copyLogFile\<close>, and one turn of
      each background loop.
    \<^item> \<^verbatim>\<open>Sessions\<close>, \<^verbatim>\<open>StoreProps\<close>: sequences of operations with crashes, and the
      properties of the store as a whole.
    \<^item> \<^verbatim>\<open>Downgrading\<close>, \<^verbatim>\<open>DowngradeSpec\<close>: \<^verbatim>\<open>downgrade.go\<close> and the tool. The encoder of version 3
      records is inverse to the legacy reader up to the canonical form of numbers and
      flags. The locale \<open>record_writer\<close> is the interface of the two writers, with the visit of all live
      records proved once. \<^verbatim>\<open>Downgrade\<close> leaves the destination untouched or complete.
    \<^item> \<^verbatim>\<open>Interleaving\<close>: callers, the two goroutines and \<^verbatim>\<open>Close\<close> as an inductive step relation.

  \<^bold>\<open>What is shown.\<close> A database on disk (\<open>db_on_disk p db w\<close>) means that the file
  that the recovery will choose among the log and the leftovers of a compaction is a log, of any
  version and possibly with a torn tail, whose replay is \<open>db\<close>. \<open>holds_db s p db w\<close> means that an
  open store holds \<open>db\<close>. \<^verbatim>\<open>Open\<close> leads from the first to the second, or fails and
  keeps the first. Every operation answers like a map and keeps \<open>holds_db\<close>;
  after a failure or a crash the old or the new database is on disk, so a sequence of
  operations that is cut short leaves the database after a prefix of them. Compaction and
  migration keep the database, on every failure but one, which is stated as a property. Closing and
  downgrading lead back to \<open>db_on_disk\<close>. Any interleaving of calls, background turns
  and \<^verbatim>\<open>Close\<close> answers like a map, and \<^verbatim>\<open>Close\<close> can always return. The properties
  whose text describes a failure of the code (a torn header, a failed append followed by a shorter record,
  malformed attributes, a negative cache capacity, two failed renames) state exactly when it happens.

  \<^bold>\<open>Loops and bounds.\<close> Nearly all loops are structural recursions on the data they run over or
  have a termination proof (the scan consumes at least a byte per record), so no fuel is
  used. The loop of \<^verbatim>\<open>SetCapacity\<close> may run for ever; it is a partial function, and it
  is shown when it returns. Sizes are bounded by the limits of the format, which the
  code checks; a file position is taken not to reach \<open>2 ^ 63\<close>.

  \<^bold>\<open>Parameters and assumptions.\<close> The callbacks of the options (\<^verbatim>\<open>OnMigrate\<close>, \<^verbatim>\<open>OnError\<close>) and of
  \<^verbatim>\<open>ForEach\<close> are arguments; the properties quantify over them. A write that fails may leave
  any prefix; a rename, a remove and a truncation happen or do not; a process that dies loses its
  locks and its memory. Other processes respect the lock. Reads through the memory map see the file.

  \<^bold>\<open>Interleaving.\<close> A call is two steps, the checks before the mutex and what runs with the
  mutex held. That what runs with the mutex held is one step is what the mutex provides; the
  calls that share the read lock change only the cache, which has a lock of its own, the counters, which are
  atomic, and the key order of the index, which is not protected. Tickers may fire at any moment.
  One case is left out: a \<^verbatim>\<open>Compact\<close> of a caller that passed its check before \<^verbatim>\<open>Close\<close> was called
  and gets the mutex only after \<^verbatim>\<open>Close\<close> has returned; it works on files whose lock was released.

  \<^bold>\<open>Not modelled.\<close>
    \<^item> The Windows build (\<^verbatim>\<open>lock_windows.go\<close>, \<^verbatim>\<open>mmap_windows.go\<close>, \<^verbatim>\<open>dirsync_windows.go\<close>): calls into
      \<^verbatim>\<open>kernel32.dll\<close>, whose behaviour the sources do not give.
    \<^item> In \<^verbatim>\<open>cmd/appendstore-downgrade/main.go\<close> the parsing of the command line by \<^verbatim>\<open>flag\<close>; of
      error messages only the constant part is kept.
    \<^item> \<^verbatim>\<open>resizeScratch\<close> and the pool of scratch buffers, as far as memory is reused: a buffer
      that comes from the pool is an argument with arbitrary content.
    \<^item> Loss of data that was written and not synced: a crash is one of the process, after
      which the file has what was written; that \<^verbatim>\<open>Sync\<close>, \<^verbatim>\<open>Close\<close>, compaction, the copy before a migration
      and \<^verbatim>\<open>Downgrade\<close> make the file durable is part of their specifications.
    \<^item> Tests, benchmarks and documentation.
\<close>

end
